(* ===== verification/Prelude.thy ===== *)
theory Prelude
  imports Main "HOL-Library.Word"
begin

text \<open>
  Shared vocabulary of the development: bytes, Go's \<open>error\<close> values, the readers that the
  decoders consume, the association lists that stand for Go maps, and the list lemmas the
  components have in common.
\<close>

unbundle bit_operations_syntax

named_theorems reader_simps \<open>how \<open>io.ReadFull\<close> acts on a reader\<close>

type_synonym byte = "8 word"
type_synonym bytes = "byte list"

section \<open>Error values\<close>

text \<open>
  Go's \<open>error\<close> is one interface type, inspected with \<open>errors.Is\<close> and \<open>errors.AsType\<close> along
  the chain of wrapped errors. \<open>ErrNew\<close> is a value made by \<open>errors.New\<close>, identified by its
  text; \<open>Wrap\<close> is \<open>fmt.Errorf\<close> with one verb \<open>%w\<close>; \<open>Join\<close> is \<open>errors.Join\<close>. \<open>NetErr\<close> is any
  error that implements \<open>net.Error\<close>, with what its method \<open>Timeout\<close> reports;
  \<open>StreamError\<close> is quic-go's stream reset with its raw code and whether the peer sent it.
  The last four say that the whole QUIC connection ended: an application close with its raw
  code and origin, a transport close, a stateless reset, an idle timeout.
\<close>

datatype goerr =
    EOF
  | ErrUnexpectedEOF
  | ErrNew string
  | Wrap string goerr
  | Join "goerr list"
  | NetErr bool
  | StreamError "64 word" bool
  | AppError "64 word" bool
  | TransportError
  | StatelessResetError
  | IdleTimeoutError

text \<open>\<open>errors.Is\<close>: depth-first search of the chain for one value.\<close>

fun errors_Is :: "goerr \<Rightarrow> goerr \<Rightarrow> bool" where
  "errors_Is (Wrap t e) target \<longleftrightarrow> Wrap t e = target \<or> errors_Is e target"
| "errors_Is (Join es) target \<longleftrightarrow> Join es = target \<or> (\<exists>e \<in> set es. errors_Is e target)"
| "errors_Is e target \<longleftrightarrow> e = target"

text \<open>\<open>errors.AsType\<close>: the first error of the chain, depth first, that \<open>pick\<close> recognises.\<close>

fun errors_AsType :: "(goerr \<Rightarrow> 'a option) \<Rightarrow> goerr \<Rightarrow> 'a option"
  and errors_AsType_list :: "(goerr \<Rightarrow> 'a option) \<Rightarrow> goerr list \<Rightarrow> 'a option" where
  "errors_AsType pick e =
     (case pick e of
        Some a \<Rightarrow> Some a
      | None \<Rightarrow> (case e of
            Wrap _ e' \<Rightarrow> errors_AsType pick e'
          | Join es \<Rightarrow> errors_AsType_list pick es
          | _ \<Rightarrow> None))"
| "errors_AsType_list pick [] = None"
| "errors_AsType_list pick (e # es) =
     (case errors_AsType pick e of Some a \<Rightarrow> Some a | None \<Rightarrow> errors_AsType_list pick es)"

declare errors_AsType.simps [simp del]

section \<open>Readers\<close>

text \<open>
  An \<open>io.Reader\<close> at one moment: the bytes it will still deliver and the error it returns
  after them, \<open>EOF\<close> for a stream ended by FIN.
\<close>

record reader =
  rdata :: bytes
  rend :: goerr

text \<open>
  \<open>io.ReadFull\<close> into a buffer of \<open>n\<close> bytes: reading nothing succeeds at once, and an end of
  stream inside the buffer is \<open>ErrUnexpectedEOF\<close>.
\<close>

definition readFull :: "nat \<Rightarrow> reader \<Rightarrow> (goerr + bytes) \<times> reader" where
  "readFull n r =
     (if n \<le> length (rdata r) then (Inr (take n (rdata r)), r\<lparr>rdata := drop n (rdata r)\<rparr>)
      else (Inl (if rend r = EOF \<and> rdata r \<noteq> [] then ErrUnexpectedEOF else rend r),
            r\<lparr>rdata := []\<rparr>))"

text \<open>
  Sequencing of fallible reads (\<open>if err != nil { return err }\<close>), and the idiom that turns an
  end of stream inside a value into \<open>ErrUnexpectedEOF\<close>.
\<close>

fun rthen :: "(goerr + 'a) \<times> reader \<Rightarrow> ('a \<Rightarrow> reader \<Rightarrow> (goerr + 'b) \<times> reader) \<Rightarrow> (goerr + 'b) \<times> reader" where
  "rthen (Inl e, r) f = (Inl e, r)"
| "rthen (Inr a, r) f = f a r"

fun noEOF :: "(goerr + 'a) \<times> reader \<Rightarrow> (goerr + 'a) \<times> reader" where
  "noEOF (Inl e, r) = (Inl (if e = EOF then ErrUnexpectedEOF else e), r)"
| "noEOF (Inr a, r) = (Inr a, r)"

lemma rthen_Inr:
  "rthen m f = (Inr b, r') \<longleftrightarrow> (\<exists>a r1. m = (Inr a, r1) \<and> f a r1 = (Inr b, r'))"
  by (cases "(m, f)" rule: rthen.cases) auto

lemma noEOF_Inr: "noEOF m = (Inr a, r) \<longleftrightarrow> m = (Inr a, r)"
  by (cases m rule: noEOF.cases) auto

lemma readFull_append [reader_simps]:
  "length bs = n \<Longrightarrow> readFull n \<lparr>rdata = bs @ rest, rend = e\<rparr> = (Inr bs, \<lparr>rdata = rest, rend = e\<rparr>)"
  by (simp add: readFull_def)

lemma readFull_one_Cons [reader_simps]:
  "readFull (Suc 0) \<lparr>rdata = b # rest, rend = e\<rparr> = (Inr [b], \<lparr>rdata = rest, rend = e\<rparr>)"
  by (simp add: readFull_def)

lemma readFull_Nil [reader_simps]:
  "0 < n \<Longrightarrow> readFull n \<lparr>rdata = [], rend = e\<rparr> = (Inl e, \<lparr>rdata = [], rend = e\<rparr>)"
  by (simp add: readFull_def)

lemma readFull_InrD:
  "readFull n r = (Inr bs, r') \<Longrightarrow> rdata r = bs @ rdata r' \<and> length bs = n \<and> rend r' = rend r"
  by (auto simp: readFull_def split: if_splits)

lemma readFull_rend [simp]: "readFull n r = (x, r') \<Longrightarrow> rend r' = rend r"
  by (auto simp: readFull_def split: if_splits)

section \<open>Indexing\<close>

text \<open>\<open>xs[i]\<close> with an \<open>int\<close> index; out of range Go panics, here no value.\<close>

definition index_at :: "'a list \<Rightarrow> int \<Rightarrow> 'a option" where
  "index_at xs i = (if 0 \<le> i \<and> i < int (length xs) then Some (xs ! nat i) else None)"

lemma index_at_Some: "index_at xs i = Some x \<longleftrightarrow> 0 \<le> i \<and> nat i < length xs \<and> x = xs ! nat i"
  by (auto simp: index_at_def)

lemma index_at_int [simp]: "i < length xs \<Longrightarrow> index_at xs (int i) = Some (xs ! i)"
  by (simp add: index_at_def)

section \<open>Prefixes of concatenations\<close>

lemma prefix_append_cases:
  assumes "xs @ ys = p @ q"
  obtains (inside) q' where "xs = p @ q'" "q = q' @ ys" "q' \<noteq> []"
    | (beyond) p' where "p = xs @ p'" "ys = p' @ q"
proof (cases "length p < length xs")
  case True
  then show ?thesis using assms inside by (auto simp: append_eq_append_conv2)
next
  case False
  then show ?thesis using assms beyond by (auto simp: append_eq_append_conv2)
qed

section \<open>Disjoint bits of words\<close>

lemma unat_bound: "unat (w :: 'a::len word) < 2 ^ LENGTH('a)"
  by (rule unsigned_less)

lemma nat_or_push_bit: 
  fixes a b :: nat
  assumes "a < 2 ^ s" 
  shows "a OR push_bit s b = a + b * 2 ^ s"
proof -
  have "take_bit s a = a" using assms by (simp add: take_bit_nat_eq_self)
  then have low: "n < s" if "bit a n" for n
    using that by (metis bit_take_bit_iff)
  have "a AND push_bit s b = 0"
    by (rule bit_eqI) (auto simp: bit_and_iff bit_push_bit_iff dest: low)
  then show ?thesis by (simp add: disjunctive_add_eq_or [symmetric] push_bit_eq_mult)
qed

lemma unat_or_push_bit:
  fixes x :: "'a::len word" and b :: "'a::len word"
  assumes "unat x < 2 ^ s" and "unat b * 2 ^ s < 2 ^ LENGTH('a)"
  shows "unat (x OR push_bit s b) = unat x + unat b * 2 ^ s"
proof -
  have "unat (push_bit s b) = push_bit s (unat b)"
    unfolding unsigned_push_bit_eq using assms(2)
    by (simp add: push_bit_eq_mult take_bit_nat_eq_self)
  then show ?thesis using nat_or_push_bit [OF assms(1), of "unat b"]
    by (simp add: unsigned_or_eq)
qed

end
