(* ===== verification/Uvarint.thy ===== *)
theory Uvarint
  imports Prelude
begin

text \<open>
  The unsigned varints of \<open>encoding/binary\<close>, which the stream headers and frames of
  \<open>src/wire/wire.go\<close> are built from: the encoder \<open>AppendUvarint\<close> and the decoder
  \<open>ReadUvarint\<close> over 64-bit words, and a description of both by base-128 digits over the
  natural numbers. \<open>uvarint\<close> is the digit-level encoder; \<open>is_digits\<close> and \<open>digits_value\<close>
  describe any varint, minimal or not.
\<close>

section \<open>The library's encoder and decoder\<close>

function AppendUvarint :: "bytes \<Rightarrow> 64 word \<Rightarrow> bytes" where
  "AppendUvarint dst x =
     (if 0x80 \<le> x then AppendUvarint (dst @ [ucast x OR 0x80]) (drop_bit 7 x)
      else dst @ [ucast x])"
  by pat_completeness auto
termination
proof (relation "measure (\<lambda>(dst, x). unat x)")
  fix dst and x :: "64 word"
  assume "0x80 \<le> x"
  then have "unat (0x80 :: 64 word) \<le> unat x" by (rule word_le_nat_alt [THEN iffD1])
  then have "unat x div 128 < unat x" by simp
  then show "((dst @ [ucast x OR 0x80], drop_bit 7 x), dst, x) \<in> measure (\<lambda>(dst, x). unat x)"
    by (simp add: drop_bit_eq_div unat_div)
qed simp

declare AppendUvarint.simps [simp del]

definition MaxVarintLen64 :: nat where "MaxVarintLen64 = 10"

text \<open>The loop of \<open>ReadUvarint\<close> with its variables \<open>i\<close>, \<open>x\<close> and \<open>s\<close>.\<close>

abbreviation "errOverflow \<equiv> ErrNew ''binary: varint overflows a 64-bit integer''"

function ReadUvarint_loop ::
  "nat \<Rightarrow> 64 word \<Rightarrow> nat \<Rightarrow> reader \<Rightarrow> (goerr + 64 word) \<times> reader" where
  "ReadUvarint_loop i x s r =
     (if i < MaxVarintLen64 then
        (case readFull 1 r of
           (Inl e, r') \<Rightarrow> (Inl (if 0 < i \<and> e = EOF then ErrUnexpectedEOF else e), r')
         | (Inr bs, r') \<Rightarrow>
             (let b = hd bs in
              if b < 0x80 then
                (if i = MaxVarintLen64 - 1 \<and> 1 < b then (Inl errOverflow, r')
                 else (Inr (x OR push_bit s (ucast b)), r'))
              else ReadUvarint_loop (i + 1) (x OR push_bit s (ucast (b AND 0x7f))) (s + 7) r'))
      else (Inl errOverflow, r))"
  by pat_completeness auto
termination
  by (relation "measure (\<lambda>(i, x, s, r). MaxVarintLen64 - i)") auto

declare ReadUvarint_loop.simps [simp del]

definition ReadUvarint :: "reader \<Rightarrow> (goerr + 64 word) \<times> reader" where
  "ReadUvarint r = ReadUvarint_loop 0 0 0 r"

section \<open>Base-128 digits\<close>

fun uvarint :: "nat \<Rightarrow> bytes" where
  "uvarint n = (if n < 128 then [of_nat n] else of_nat (n mod 128 + 128) # uvarint (n div 128))"

declare uvarint.simps [simp del]

fun is_digits :: "bytes \<Rightarrow> bool" where
  "is_digits [] \<longleftrightarrow> False"
| "is_digits [b] \<longleftrightarrow> b < 0x80"
| "is_digits (b # c # bs) \<longleftrightarrow> 0x80 \<le> b \<and> is_digits (c # bs)"

fun digits_value :: "bytes \<Rightarrow> nat" where
  "digits_value [] = 0"
| "digits_value (b # bs) = unat b mod 128 + 128 * digits_value bs"

lemma byte_lt_iff: "(b :: byte) < 0x80 \<longleftrightarrow> unat b < 128"
  by (simp add: word_less_nat_alt)

lemma byte_ge_iff: "(0x80 :: byte) \<le> b \<longleftrightarrow> 128 \<le> unat b"
  by (simp add: word_le_nat_alt)

lemma unat_byte_lt: "unat (b :: byte) < 256"
  using unsigned_less [of b] by simp

lemma unat_of_nat_byte: "n < 256 \<Longrightarrow> unat (of_nat n :: byte) = n"
  by (simp add: unat_of_nat)

lemma high_byte_mod: "128 \<le> unat (b :: byte) \<Longrightarrow> unat b mod 128 = unat b - 128"
  using unat_byte_lt [of b] by (simp add: le_mod_geq)

lemma uvarint_nonempty [simp]: "uvarint n \<noteq> []"
  by (subst uvarint.simps) simp

lemma uvarint_is_digits: "is_digits (uvarint n)"
proof (induction n rule: uvarint.induct)
  case (1 n)
  show ?case
  proof (cases "n < 128")
    case True
    then show ?thesis by (simp add: uvarint.simps [of n] byte_lt_iff unat_of_nat_byte)
  next
    case False
    obtain c cs where c: "uvarint (n div 128) = c # cs"
      by (metis uvarint_nonempty neq_Nil_conv)
    have "unat (of_nat (n mod 128 + 128) :: byte) = n mod 128 + 128"
      by (rule unat_of_nat_byte) simp
    then show ?thesis using False "1.IH" c
      by (simp add: uvarint.simps [of n] byte_ge_iff del: of_nat_add)
  qed
qed

lemma uvarint_value: "digits_value (uvarint n) = n"
proof (induction n rule: uvarint.induct)
  case (1 n)
  show ?case
  proof (cases "n < 128")
    case True
    then show ?thesis by (simp add: uvarint.simps [of n] unat_of_nat_byte)
  next
    case False
    have "unat (of_nat (n mod 128 + 128) :: byte) = n mod 128 + 128"
      by (rule unat_of_nat_byte) simp
    then show ?thesis using False "1.IH"
      by (simp add: uvarint.simps [of n] del: of_nat_add)
  qed
qed


lemma is_digits_Cons: "is_digits (b # bs) \<longleftrightarrow> (if bs = [] then b < 0x80 else 0x80 \<le> b \<and> is_digits bs)"
  by (cases bs) auto

lemma digits_eqI:
  "is_digits bs \<Longrightarrow> is_digits cs \<Longrightarrow> length bs = length cs \<Longrightarrow> digits_value bs = digits_value cs \<Longrightarrow> bs = cs"
proof (induction bs arbitrary: cs)
  case Nil
  then show ?case by simp
next
  case (Cons b bs)
  obtain c cs' where cs: "cs = c # cs'" using Cons.prems(3) by (cases cs) auto
  have eq: "unat b mod 128 + 128 * digits_value bs = unat c mod 128 + 128 * digits_value cs'"
    using Cons.prems(4) cs by simp
  have "(unat b mod 128 + 128 * digits_value bs) mod 128 = (unat c mod 128 + 128 * digits_value cs') mod 128"
    by (simp only: eq)
  then have low: "unat b mod 128 = unat c mod 128" by simp
  with eq have high: "digits_value bs = digits_value cs'" by simp
  have bc: "b = c"
  proof (cases "bs = []")
    case True
    then have "unat b < 128" "unat c < 128" using Cons.prems cs
      by (auto simp: is_digits_Cons byte_lt_iff)
    with low show ?thesis by (simp add: unsigned_word_eqI)
  next
    case False
    then have "128 \<le> unat b" "128 \<le> unat c" using Cons.prems cs
      by (auto simp: is_digits_Cons byte_ge_iff split: if_splits)
    then have "unat b = unat c" using low by (simp add: high_byte_mod)
    then show ?thesis by (simp add: unsigned_word_eqI)
  qed
  have "bs = cs'"
  proof (cases "bs = []")
    case True
    then show ?thesis using Cons.prems(3) cs by simp
  next
    case False
    then show ?thesis
      using Cons.IH [of cs'] Cons.prems cs high by (auto simp: is_digits_Cons split: if_splits)
  qed
  with bc cs show ?case by simp
qed

lemma digits_value_lt: "digits_value bs < 128 ^ length bs"
proof (induction bs)
  case Nil
  then show ?case by simp
next
  case (Cons b bs)
  have "unat b mod 128 < 128" by simp
  moreover have "digits_value bs + 1 \<le> 128 ^ length bs" using Cons.IH by simp
  ultimately have "unat b mod 128 + 128 * digits_value bs < 128 * 128 ^ length bs" by linarith
  then show ?case by simp
qed

section \<open>The encoder and the decoder on digits\<close>

lemma nat_or_128: "n < 256 \<Longrightarrow> n OR 128 = n mod 128 + 128" for n :: nat
proof -
  assume n: "n < 256"
  have "n OR 128 = set_bit 7 n" by (simp add: set_bit_def or.commute push_bit_eq_mult)
  also have "\<dots> = n + of_bool (\<not> bit n 7) * 2 ^ 7" by (rule set_bit_eq)
  also have "\<dots> = n mod 128 + 128"
  proof (cases "n < 128")
    case True then show ?thesis by (simp add: bit_iff_odd)
  next
    case False
    then have "n div 128 = 1" "n mod 128 = n - 128" using n by (auto simp: le_mod_geq)
    then show ?thesis using False by (simp add: bit_iff_odd)
  qed
  finally show ?thesis .
qed

lemma unat_and_7f: "unat (b AND 0x7f) = unat b mod 128" for b :: byte
proof -
  have "b AND 0x7f = take_bit 7 b" by (simp add: take_bit_eq_mask mask_eq_exp_minus_1)
  then show ?thesis by (simp add: unsigned_take_bit_eq take_bit_eq_mod unat_mod)
qed

lemma unat_ucast_or_80: "unat ((ucast x :: byte) OR 0x80) = unat x mod 128 + 128" for x :: "64 word"
proof -
  have "unat (ucast x :: byte) = unat x mod 256" by (simp add: unsigned_ucast_eq take_bit_eq_mod)
  then have "unat ((ucast x :: byte) OR 0x80) = (unat x mod 256) OR 128"
    by (simp add: unsigned_or_eq)
  also have "\<dots> = unat x mod 256 mod 128 + 128" by (rule nat_or_128) simp
  also have "\<dots> = unat x mod 128 + 128" by (simp add: mod_mod_cancel)
  finally show ?thesis .
qed

lemma AppendUvarint_uvarint: "AppendUvarint dst x = dst @ uvarint (unat x)"
proof (induction dst x rule: AppendUvarint.induct)
  case (1 dst x)
  show ?case
  proof (cases "0x80 \<le> x")
    case True
    then have ge: "\<not> unat x < 128" by (simp add: word_le_nat_alt)
    have "(ucast x OR 0x80 :: byte) = of_nat (unat x mod 128 + 128)"
      by (simp flip: unat_ucast_or_80)
    moreover have "unat (drop_bit 7 x) = unat x div 128" by (simp add: drop_bit_eq_div unat_div)
    ultimately show ?thesis using True ge "1.IH"
      by (simp add: AppendUvarint.simps [of dst x] uvarint.simps [of "unat x"] del: of_nat_add)
  next
    case False
    then have "unat x < 128" by (simp add: word_le_nat_alt)
    moreover have "(ucast x :: byte) = of_nat (unat x)" by (rule unsigned_word_eqI) (simp add: unsigned_ucast_eq unat_of_nat take_bit_eq_mod)
    ultimately show ?thesis using False
      by (simp add: AppendUvarint.simps [of dst x] uvarint.simps [of "unat x"])
  qed
qed
lemma loop_step_last:
  fixes x :: "64 word" and b :: byte
  assumes "unat x < 2 ^ (7 * i)" and "unat x + unat b * 2 ^ (7 * i) < 2 ^ 64"
  shows "unat (x OR push_bit (7 * i) (ucast b)) = unat x + unat b * 2 ^ (7 * i)"
proof -
  have "unat (ucast b :: 64 word) = unat b"
    using unat_byte_lt [of b] by (simp add: unsigned_ucast_eq take_bit_nat_eq_self)
  then show ?thesis
    using unat_or_push_bit [OF assms(1), of "ucast b"] assms(2) by simp
qed

lemma loop_step_more:
  fixes x :: "64 word" and b :: byte
  assumes "unat x < 2 ^ (7 * i)" and "i < 9"
  shows "unat (x OR push_bit (7 * i) (ucast (b AND 0x7f))) = unat x + unat b mod 128 * 2 ^ (7 * i)"
    and "unat x + unat b mod 128 * 2 ^ (7 * i) < 2 ^ (7 * (i + 1))"
proof -
  have "unat x + unat b mod 128 * 2 ^ (7 * i) < 2 ^ (7 * i) + unat b mod 128 * 2 ^ (7 * i)"
    using assms(1) by simp
  also have "\<dots> = (unat b mod 128 + 1) * 2 ^ (7 * i)" by simp
  also have "\<dots> \<le> 128 * 2 ^ (7 * i)" by (rule mult_le_mono1) (simp add: Suc_leI)
  also have "\<dots> = 2 ^ (7 * (i + 1))" by (simp add: power_add)
  finally show lt: "unat x + unat b mod 128 * 2 ^ (7 * i) < 2 ^ (7 * (i + 1))" .
  have "(2::nat) ^ (7 * (i + 1)) \<le> 2 ^ 64" using assms(2) by (intro power_increasing) auto
  with lt show "unat (x OR push_bit (7 * i) (ucast (b AND 0x7f))) = unat x + unat b mod 128 * 2 ^ (7 * i)"
    using loop_step_last [OF assms(1), of "b AND 0x7f"] by (simp add: unat_and_7f)
qed

lemma ReadUvarint_loop_digits:
  "is_digits bs \<Longrightarrow> length bs + i \<le> 10 \<Longrightarrow> unat x < 2 ^ (7 * i) \<Longrightarrow>
   unat x + digits_value bs * 2 ^ (7 * i) < 2 ^ 64 \<Longrightarrow>
   ReadUvarint_loop i x (7 * i) \<lparr>rdata = bs @ rest, rend = e\<rparr> =
     (Inr (of_nat (unat x + digits_value bs * 2 ^ (7 * i))), \<lparr>rdata = rest, rend = e\<rparr>)"
proof (induction bs arbitrary: i x)
  case Nil
  then show ?case by simp
next
  case (Cons b bs)
  have i: "i < MaxVarintLen64" using Cons.prems(2) by (simp add: MaxVarintLen64_def)
  show ?case
  proof (cases "bs = []")
    case True
    then have b: "b < 0x80" "unat b < 128" using Cons.prems(1) by (auto simp: byte_lt_iff)
    have v: "unat (x OR push_bit (7 * i) (ucast b)) = unat x + unat b * 2 ^ (7 * i)"
      using loop_step_last [OF Cons.prems(3), of b] Cons.prems(4) b(2) True by simp
    have "\<not> (i = 9 \<and> 1 < b)"
    proof
      assume "i = 9 \<and> 1 < b"
      then have "2 \<le> unat b" by (simp add: word_less_nat_alt)
      then have "2 * 2 ^ 63 \<le> unat b * (2::nat) ^ 63" by (rule mult_le_mono1)
      with \<open>i = 9 \<and> 1 < b\<close> Cons.prems(4) True b(2) show False by simp
    qed
    moreover have "x OR push_bit (7 * i) (ucast b) = of_nat (unat x + unat b * 2 ^ (7 * i))"
      by (simp only: v [symmetric]) simp
    ultimately show ?thesis using True b i
      by (simp add: ReadUvarint_loop.simps [of i x "7 * i"] reader_simps MaxVarintLen64_def)
  next
    case False
    then have b: "\<not> b < 0x80" and bs: "is_digits bs"
      using Cons.prems(1) by (auto simp: is_digits_Cons)
    have i9: "i < 9" using Cons.prems(2) False by (cases bs) auto
    define y where "y = x OR push_bit (7 * i) (ucast (b AND 0x7f))"
    have y: "unat y = unat x + unat b mod 128 * 2 ^ (7 * i)" and ylt: "unat y < 2 ^ (7 * (i + 1))"
      unfolding y_def using loop_step_more [OF Cons.prems(3) i9, of b] by auto
    have tot: "unat y + digits_value bs * 2 ^ (7 * (i + 1)) = unat x + digits_value (b # bs) * 2 ^ (7 * i)"
      by (simp add: y power_add algebra_simps)
    have "ReadUvarint_loop (i + 1) y (7 * (i + 1)) \<lparr>rdata = bs @ rest, rend = e\<rparr> =
       (Inr (of_nat (unat y + digits_value bs * 2 ^ (7 * (i + 1)))), \<lparr>rdata = rest, rend = e\<rparr>)"
      by (rule Cons.IH) (use bs Cons.prems ylt tot in auto)
    moreover have "ReadUvarint_loop i x (7 * i) \<lparr>rdata = (b # bs) @ rest, rend = e\<rparr> =
       ReadUvarint_loop (i + 1) y (7 * (i + 1)) \<lparr>rdata = bs @ rest, rend = e\<rparr>"
      using b i by (simp add: ReadUvarint_loop.simps [of i x "7 * i"] reader_simps y_def add.commute)
    ultimately show ?thesis by (simp only: tot)
  qed
qed

lemma ReadUvarint_loop_InrD:
  "ReadUvarint_loop i x s r = (Inr v, r') \<Longrightarrow> s = 7 * i \<Longrightarrow> unat x < 2 ^ (7 * i) \<Longrightarrow>
   \<exists>bs. rdata r = bs @ rdata r' \<and> rend r' = rend r \<and> is_digits bs \<and> length bs + i \<le> 10 \<and>
     unat v = unat x + digits_value bs * 2 ^ (7 * i)"
proof (induction i x s r rule: ReadUvarint_loop.induct)
  case (1 i x s r)
  from "1.prems"(1) have i: "i < 10"
    by (simp add: ReadUvarint_loop.simps [of i x s r] MaxVarintLen64_def split: if_splits)
  from "1.prems"(1) i obtain b r1 where rd: "readFull 1 r = (Inr [b], r1)"
    by (cases "readFull 1 r"; cases "fst (readFull 1 r)")
       (auto simp: ReadUvarint_loop.simps [of i x s r] MaxVarintLen64_def length_Suc_conv dest!: readFull_InrD)
  then have r: "rdata r = b # rdata r1" "rend r1 = rend r" using readFull_InrD [OF rd] by auto
  show ?case
  proof (cases "b < 0x80")
    case True
    then have nb: "\<not> (i = 9 \<and> 1 < b)" and v: "v = x OR push_bit s (ucast b)" and r': "r' = r1"
      using "1.prems"(1) i rd by (auto simp: ReadUvarint_loop.simps [of i x s r] MaxVarintLen64_def split: if_splits)
    have b: "unat b < 128" using True by (simp add: byte_lt_iff)
    have "unat x + unat b * 2 ^ (7 * i) < 2 ^ 64"
    proof (cases "i = 9")
      case True
      then have "unat b \<le> 1" using nb by (simp add: word_less_nat_alt not_less)
      then have "unat b * 2 ^ 63 \<le> 1 * (2::nat) ^ 63" by (rule mult_le_mono1)
      then show ?thesis using "1.prems"(3) True by simp
    next
      case False
      then have "(2::nat) ^ (7 * (i + 1)) \<le> 2 ^ 64" using i by (intro power_increasing) auto
      then show ?thesis using loop_step_more(2) [OF "1.prems"(3), of b] False i b by simp
    qed
    then have "unat v = unat x + unat b * 2 ^ (7 * i)" unfolding v "1.prems"(2)
      by (rule loop_step_last [OF "1.prems"(3)])
    then show ?thesis using r r' True b i by (intro exI [of _ "[b]"]) auto
  next
    case False
    define y where "y = x OR push_bit s (ucast (b AND 0x7f))"
    have rec: "ReadUvarint_loop (i + 1) y (s + 7) r1 = (Inr v, r')"
      using "1.prems"(1) i rd False
      by (simp add: ReadUvarint_loop.simps [of i x s r] MaxVarintLen64_def y_def)
    then have i9: "i < 9" using i
      by (cases "i = 9") (auto simp: ReadUvarint_loop.simps [of "Suc 9"] ReadUvarint_loop.simps [of 10] MaxVarintLen64_def)
    have y: "unat y = unat x + unat b mod 128 * 2 ^ (7 * i)" and ylt: "unat y < 2 ^ (7 * (i + 1))"
      unfolding y_def "1.prems"(2) using loop_step_more [OF "1.prems"(3) i9, of b] by auto
    obtain bs where bs: "rdata r1 = bs @ rdata r'" "rend r' = rend r1" "is_digits bs" "length bs + (i + 1) \<le> 10"
      "unat v = unat y + digits_value bs * 2 ^ (7 * (i + 1))"
      using "1.IH" [of "Inr [b]" r1 "[b]" b] i rd False rec "1.prems"(2) ylt
      unfolding y_def MaxVarintLen64_def by auto
    then have "unat v = unat x + digits_value (b # bs) * 2 ^ (7 * i)"
      by (simp add: y power_add algebra_simps)
    moreover have "is_digits (b # bs)" using bs(3) False by (cases bs) auto
    ultimately show ?thesis using r bs by (intro exI [of _ "b # bs"]) auto
  qed
qed

lemma length_uvarint: "n < 128 ^ Suc k \<Longrightarrow> length (uvarint n) \<le> Suc k"
proof (induction k arbitrary: n)
  case 0
  then show ?case by (simp add: uvarint.simps [of n])
next
  case (Suc k)
  then have "n div 128 < 128 ^ Suc k" by (simp add: less_mult_imp_div_less mult.commute)
  then have "length (uvarint (n div 128)) \<le> Suc k" by (rule Suc.IH)
  then show ?case by (simp add: uvarint.simps [of n])
qed

lemma length_uvarint_word: "length (uvarint (unat (v :: 64 word))) \<le> 10"
proof -
  have "unat v < 2 ^ 64" using unsigned_less [of v] by simp
  then have "unat v < 128 ^ Suc 9" by simp
  then show ?thesis using length_uvarint [of "unat v" 9] by simp
qed

lemma ReadUvarint_uvarint:
  "ReadUvarint \<lparr>rdata = uvarint (unat v) @ rest, rend = e\<rparr> = (Inr v, \<lparr>rdata = rest, rend = e\<rparr>)"
proof -
  have "unat v < 2 ^ 64" using unsigned_less [of v] by simp
  then show ?thesis
    using ReadUvarint_loop_digits [OF uvarint_is_digits, of "unat v" 0 0 rest e] length_uvarint_word [of v]
    by (simp add: ReadUvarint_def uvarint_value)
qed

lemma ReadUvarint_InrD:
  "ReadUvarint r = (Inr v, r') \<Longrightarrow>
   \<exists>bs. rdata r = bs @ rdata r' \<and> rend r' = rend r \<and> is_digits bs \<and> digits_value bs = unat v"
  using ReadUvarint_loop_InrD [of 0 0 0 r v r'] by (auto simp: ReadUvarint_def)

text \<open>Among the varints of one value, the minimal one is the one as long as \<open>uvarint\<close>'s.\<close>

lemma uvarint_unique:
  "is_digits bs \<Longrightarrow> length bs = length (uvarint n) \<Longrightarrow> digits_value bs = n \<Longrightarrow> bs = uvarint n"
  by (rule digits_eqI) (auto simp: uvarint_is_digits uvarint_value)

end
