(* ===== verification/Wire.thy ===== *)
theory Wire
  imports Uvarint
begin

text \<open>
  \<open>src/wire/wire.go\<close>: outcome codes and their QUIC encoding, frames, and stream headers.
  A code is a value in one of two namespaces; a frame is a type, a length and a payload; a
  stream header is a family and a protocol number. All integers on the wire are minimal
  uvarints. The lemmas show that each format has exactly one encoding per value, that the
  readers consume exactly that encoding, and how they fail on anything else.
\<close>

unbundle bit_operations_syntax

section \<open>Outcome codes\<close>

record code =
  cvalue :: "64 word"
  cprotocol :: bool

definition Unspecified :: code where "Unspecified = \<lparr>cvalue = 0, cprotocol = False\<rparr>"
definition Refused :: code where "Refused = \<lparr>cvalue = 1, cprotocol = False\<rparr>"
definition Timeout :: code where "Timeout = \<lparr>cvalue = 2, cprotocol = False\<rparr>"
definition BadSelector :: code where "BadSelector = \<lparr>cvalue = 8, cprotocol = False\<rparr>"
definition UnsupportedSelector :: code where
  "UnsupportedSelector = \<lparr>cvalue = 9, cprotocol = False\<rparr>"
definition Closing :: code where "Closing = \<lparr>cvalue = 10, cprotocol = False\<rparr>"
definition ControlViolation :: code where
  "ControlViolation = \<lparr>cvalue = 11, cprotocol = False\<rparr>"
definition NoSharedProtocols :: code where
  "NoSharedProtocols = \<lparr>cvalue = 12, cprotocol = False\<rparr>"
definition Duplicate :: code where "Duplicate = \<lparr>cvalue = 13, cprotocol = False\<rparr>"

lemmas stack_code_defs =
  Unspecified_def Refused_def Timeout_def BadSelector_def UnsupportedSelector_def Closing_def
  ControlViolation_def NoSharedProtocols_def Duplicate_def

definition stackCodeNames :: "64 word \<rightharpoonup> string" where
  "stackCodeNames = map_of
     [(0, ''Unspecified''), (1, ''Refused''), (2, ''Timeout''),
      (8, ''BadSelector''), (9, ''UnsupportedSelector''), (10, ''Closing''),
      (11, ''ControlViolation''), (12, ''NoSharedProtocols''), (13, ''Duplicate'')]"

definition ProtocolCode :: "16 word \<Rightarrow> code" where
  "ProtocolCode v = \<lparr>cvalue = ucast v, cprotocol = True\<rparr>"

text \<open>\<open>Code.Wire\<close>.\<close>

definition Code_Wire :: "code \<Rightarrow> 64 word" where
  "Code_Wire c = (if cprotocol c then push_bit 1 (cvalue c) OR 1 else push_bit 1 (cvalue c))"

definition ParseCode :: "64 word \<Rightarrow> code" where
  "ParseCode raw =
     (let v = drop_bit 1 raw in
      if raw AND 1 \<noteq> 0 then \<lparr>cvalue = v, cprotocol = True\<rparr>
      else if stackCodeNames v = None then Unspecified
      else \<lparr>cvalue = v, cprotocol = False\<rparr>)"

text \<open>
  \<open>TimeoutOr\<close>: the first \<open>net.Error\<close> of the chain decides. The deadline errors of \<open>context\<close>,
  \<open>os\<close> and the QUIC streams are \<open>NetErr\<close>; the QUIC idle timeout is a \<open>net.Error\<close> too.
\<close>

fun as_net_error :: "goerr \<Rightarrow> bool option" where
  "as_net_error (NetErr t) = Some t"
| "as_net_error IdleTimeoutError = Some True"
| "as_net_error _ = None"

definition TimeoutOr :: "goerr \<Rightarrow> code \<Rightarrow> code" where
  "TimeoutOr e other = (if errors_AsType as_net_error e = Some True then Timeout else other)"

section \<open>Frames\<close>

abbreviation "ErrFrameTooLarge \<equiv> ErrNew ''frame exceeds maximum length''"
abbreviation "errFrameLength \<equiv> ErrNew ''frame type or length is not a minimal uvarint''"

definition AppendFrameHead :: "bytes \<Rightarrow> 64 word \<Rightarrow> nat \<Rightarrow> bytes" where
  "AppendFrameHead dst ty len = AppendUvarint (AppendUvarint dst ty) (of_nat len)"

definition AppendFrame :: "bytes \<Rightarrow> 64 word \<Rightarrow> bytes \<Rightarrow> bytes" where
  "AppendFrame dst ty payload = AppendFrameHead dst ty (length payload) @ payload"

definition readMinimalUvarint :: "reader \<Rightarrow> (goerr + 64 word) \<times> reader" where
  "readMinimalUvarint r =
     rthen (ReadUvarint r) (\<lambda>v r'.
       if length (rdata r) - length (rdata r') \<noteq> length (AppendUvarint [] v)
       then (Inl errFrameLength, r') else (Inr v, r'))"

definition ReadFrame :: "nat \<Rightarrow> reader \<Rightarrow> (goerr + 64 word \<times> bytes) \<times> reader" where
  "ReadFrame maxLen r =
     rthen (readMinimalUvarint r) (\<lambda>ty r1.
     rthen (noEOF (readMinimalUvarint r1)) (\<lambda>len r2.
       if maxLen < unat len then (Inl ErrFrameTooLarge, r2)
       else rthen (noEOF (readFull (unat len) r2)) (\<lambda>payload r3. (Inr (ty, payload), r3))))"

section \<open>Stream headers\<close>

record selector =
  sel_family :: "32 word"
  sel_protocol :: "32 word"

definition ReservedFamily :: "32 word" where "ReservedFamily = 19"
definition MaxHeaderLen :: nat where "MaxHeaderLen = 10"
definition maxFieldLen :: nat where "maxFieldLen = 5"

abbreviation "errInvalidHeader \<equiv> ErrNew ''invalid stream header''"

definition AppendSelector :: "bytes \<Rightarrow> selector \<Rightarrow> bytes" where
  "AppendSelector dst s = AppendUvarint (AppendUvarint dst (ucast (sel_family s))) (ucast (sel_protocol s))"

text \<open>The writer \<open>w\<close> is the error of a write of some bytes.\<close>

definition WriteSelector :: "(bytes \<Rightarrow> goerr option) \<Rightarrow> selector \<Rightarrow> goerr option" where
  "WriteSelector w s = w (AppendSelector [] s)"

text \<open>
  \<open>parseField\<close>: the loop runs over at most \<open>maxFieldLen\<close> bytes with its variables \<open>i\<close> and
  \<open>value\<close>; falling out of it is \<open>None\<close>. The result \<open>(0, 0)\<close> says that more bytes are needed.
\<close>

fun parseField_loop :: "nat \<Rightarrow> 64 word \<Rightarrow> bytes \<Rightarrow> (goerr + 32 word \<times> nat) option" where
  "parseField_loop i v [] = None"
| "parseField_loop i v (c # cs) =
     (let v' = v OR push_bit (7 * i) (ucast (c AND 0x7f)) in
      if c < 0x80 then
        (if 0 < i \<and> c = 0 then Some (Inl (Wrap ''field is not a minimal uvarint'' errInvalidHeader))
         else if 0xFFFFFFFF < v' then Some (Inl (Wrap ''field exceeds 32 bits'' errInvalidHeader))
         else Some (Inr (ucast v', i + 1)))
      else parseField_loop (i + 1) v' cs)"

definition parseField :: "bytes \<Rightarrow> goerr + 32 word \<times> nat" where
  "parseField b =
     (case parseField_loop 0 0 (take maxFieldLen b) of
        Some res \<Rightarrow> res
      | None \<Rightarrow> if maxFieldLen \<le> length b
                then Inl (Wrap ''field exceeds 32 bits'' errInvalidHeader)
                else Inr (0, 0))"

definition ParseSelector :: "bytes \<Rightarrow> goerr + selector \<times> nat" where
  "ParseSelector b =
     (let zero = \<lparr>sel_family = 0, sel_protocol = 0\<rparr> in
      case parseField b of
        Inl e \<Rightarrow> Inl e
      | Inr (family, n) \<Rightarrow>
          if n = 0 then Inr (zero, 0)
          else if family = ReservedFamily then Inl (Wrap ''family 19 is reserved'' errInvalidHeader)
          else (case parseField (drop n b) of
                  Inl e \<Rightarrow> Inl e
                | Inr (proto, m) \<Rightarrow>
                    if m = 0 then Inr (zero, 0)
                    else Inr (\<lparr>sel_family = family, sel_protocol = proto\<rparr>, n + m)))"

text \<open>
  \<open>ReadSelector\<close> reads up to \<open>MaxHeaderLen\<close> bytes one at a time; \<open>None\<close> is the panic after
  the loop.
\<close>

function ReadSelector_loop :: "bytes \<Rightarrow> reader \<Rightarrow> ((goerr + selector) \<times> reader) option" where
  "ReadSelector_loop head r =
     (if length head < MaxHeaderLen then
        (case readFull 1 r of
           (Inl e, r') \<Rightarrow> Some (Inl (if e = EOF \<and> head \<noteq> [] then ErrUnexpectedEOF else e), r')
         | (Inr bs, r') \<Rightarrow>
             (case ParseSelector (head @ [hd bs]) of
                Inl e \<Rightarrow> Some (Inl e, r')
              | Inr (s, n) \<Rightarrow> if n \<noteq> 0 then Some (Inr s, r') else ReadSelector_loop (head @ [hd bs]) r'))
      else None)"
  by pat_completeness auto
termination
  by (relation "measure (\<lambda>(head, r). MaxHeaderLen - length head)") auto

declare ReadSelector_loop.simps [simp del]

definition ReadSelector :: "reader \<Rightarrow> ((goerr + selector) \<times> reader) option" where
  "ReadSelector r = ReadSelector_loop [] r"

section \<open>Specification notions\<close>

text \<open>
  The codes that exist: protocol values of at most 63 bits and the named stack values. A
  minimal varint has no superfluous high zero digit.
\<close>

definition wf_code :: "code \<Rightarrow> bool" where
  "wf_code c \<longleftrightarrow> (if cprotocol c then unat (cvalue c) < 2 ^ 63 else stackCodeNames (cvalue c) \<noteq> None)"

definition minimal_digits :: "bytes \<Rightarrow> bool" where
  "minimal_digits bs \<longleftrightarrow> is_digits bs \<and> (length bs = 1 \<or> last bs \<noteq> 0)"

section \<open>Lemmas on frames\<close>

lemmas AppendFrame_eq = AppendFrame_def AppendFrameHead_def AppendUvarint_uvarint

lemma readMinimalUvarint_uvarint:
  "readMinimalUvarint \<lparr>rdata = uvarint (unat v) @ rest, rend = e\<rparr> = (Inr v, \<lparr>rdata = rest, rend = e\<rparr>)"
  by (simp add: readMinimalUvarint_def ReadUvarint_uvarint AppendUvarint_uvarint)

lemma readMinimalUvarint_InrD:
  assumes "readMinimalUvarint r = (Inr v, r')"
  shows "rdata r = uvarint (unat v) @ rdata r' \<and> rend r' = rend r"
proof -
  from assms have rd: "ReadUvarint r = (Inr v, r')"
    and len: "length (rdata r) - length (rdata r') = length (uvarint (unat v))"
    by (auto simp: readMinimalUvarint_def AppendUvarint_uvarint rthen_Inr split: if_splits)
  from ReadUvarint_InrD [OF rd] obtain bs where
    bs: "rdata r = bs @ rdata r'" "rend r' = rend r" "is_digits bs" "digits_value bs = unat v" by auto
  with len have "bs = uvarint (unat v)" by (intro uvarint_unique) auto
  with bs show ?thesis by simp
qed

lemma readMinimalUvarint_length:
  assumes "n < 2 ^ 63"
  shows "readMinimalUvarint \<lparr>rdata = uvarint n @ rest, rend = e\<rparr> = (Inr (of_nat n), \<lparr>rdata = rest, rend = e\<rparr>)"
  using readMinimalUvarint_uvarint [of "of_nat n"] assms
  by (simp add: unat_of_nat take_bit_nat_eq_self)

lemma ReadFrame_AppendFrame:
  assumes "length payload \<le> maxLen" and "maxLen < 2 ^ 63"
  shows "ReadFrame maxLen \<lparr>rdata = AppendFrame [] ty payload @ rest, rend = e\<rparr> =
    (Inr (ty, payload), \<lparr>rdata = rest, rend = e\<rparr>)"
proof -
  have len: "unat (of_nat (length payload) :: 64 word) = length payload"
    using assms by (simp add: unat_of_nat take_bit_nat_eq_self)
  show ?thesis using assms len
    by (simp add: ReadFrame_def AppendFrame_eq readMinimalUvarint_uvarint readMinimalUvarint_length readFull_append)
qed

lemma ReadFrame_InrD:
  assumes "ReadFrame maxLen r = (Inr (ty, payload), r')"
  shows "rdata r = AppendFrame [] ty payload @ rdata r' \<and> rend r' = rend r \<and> length payload \<le> maxLen"
proof -
  from assms obtain r1 len r2 where
    1: "readMinimalUvarint r = (Inr ty, r1)" and 2: "readMinimalUvarint r1 = (Inr len, r2)"
    and le: "unat len \<le> maxLen" and 3: "readFull (unat len) r2 = (Inr payload, r')"
    by (auto simp: ReadFrame_def rthen_Inr noEOF_Inr split: if_splits)
  from readFull_InrD [OF 3] have p: "rdata r2 = payload @ rdata r'" "length payload = unat len" "rend r' = rend r2"
    by auto
  have "unat (of_nat (length payload) :: 64 word) = length payload" by (simp add: p(2))
  moreover have "rdata r1 = uvarint (length payload) @ payload @ rdata r'" "rend r2 = rend r1"
    using readMinimalUvarint_InrD [OF 2] p(1,2) by auto
  ultimately show ?thesis using readMinimalUvarint_InrD [OF 1] p(2,3) le
    by (simp add: AppendFrame_eq)
qed

text \<open>
  A frame that is cut short: the end of the stream is an \<open>EOF\<close> only before its first byte, and any
  other error is returned as it is.
\<close>

definition cut_error :: "bool \<Rightarrow> goerr \<Rightarrow> goerr" where
  "cut_error started e = (if e = EOF \<and> started then ErrUnexpectedEOF else e)"

lemma ReadUvarint_loop_prefix:
  "is_digits (p @ q) \<Longrightarrow> q \<noteq> [] \<Longrightarrow> length (p @ q) + i \<le> 10 \<Longrightarrow>
   ReadUvarint_loop i x s \<lparr>rdata = p, rend = e\<rparr> = (Inl (cut_error (p \<noteq> [] \<or> 0 < i) e), \<lparr>rdata = [], rend = e\<rparr>)"
proof (induction p arbitrary: i x s)
  case Nil
  then have "i < 10" by (cases q) auto
  then show ?case by (simp add: ReadUvarint_loop.simps [of i] reader_simps MaxVarintLen64_def cut_error_def)
next
  case (Cons b p)
  then have "\<not> b < 0x80" "is_digits (p @ q)" "i < 10" by (auto simp: is_digits_Cons split: if_splits)
  then show ?case using Cons
    by (simp add: ReadUvarint_loop.simps [of i] reader_simps MaxVarintLen64_def)
qed

lemma readMinimalUvarint_prefix:
  assumes "uvarint (unat (v :: 64 word)) = p @ q" and "q \<noteq> []"
  shows "readMinimalUvarint \<lparr>rdata = p, rend = e\<rparr> = (Inl (cut_error (p \<noteq> []) e), \<lparr>rdata = [], rend = e\<rparr>)"
  using ReadUvarint_loop_prefix [of p q 0 0 0] uvarint_is_digits [of "unat v"] length_uvarint_word [of v] assms
  by (simp add: readMinimalUvarint_def ReadUvarint_def)

lemma ReadFrame_truncated_aux:
  assumes "length payload \<le> maxLen" and "maxLen < 2 ^ 63"
    and "AppendFrame [] ty payload = p @ q" and "q \<noteq> []"
  shows "fst (ReadFrame maxLen \<lparr>rdata = p, rend = e\<rparr>) = Inl (cut_error (p \<noteq> []) e)"
proof -
  let ?n = "of_nat (length payload) :: 64 word"
  have n: "unat ?n = length payload"
    using assms by (simp add: unat_of_nat take_bit_nat_eq_self)
  have "uvarint (unat ty) @ (uvarint (unat ?n) @ payload) = p @ q"
    using assms(3) by (simp add: AppendFrame_eq)
  then show ?thesis
  proof (cases rule: prefix_append_cases)
    case (inside q')
    then show ?thesis using readMinimalUvarint_prefix [of ty p q'] by (simp add: ReadFrame_def)
  next
    case (beyond p1)
    then have "p \<noteq> []" by (simp add: uvarint_nonempty)
    from beyond(2) show ?thesis
    proof (cases rule: prefix_append_cases)
      case (inside q')
      then show ?thesis using readMinimalUvarint_prefix [of ?n p1 q'] beyond(1) \<open>p \<noteq> []\<close>
        by (simp add: ReadFrame_def readMinimalUvarint_uvarint cut_error_def)
    next
      case p2: (beyond p2)
      have "length p2 < length payload" using p2 assms(4) by (cases q) auto
      then show ?thesis using beyond(1) p2(1) assms(1,2) n \<open>p \<noteq> []\<close>
        by (simp add: ReadFrame_def readMinimalUvarint_uvarint readMinimalUvarint_length readFull_def cut_error_def)
    qed
  qed
qed

section \<open>Lemmas on codes\<close>

lemma word_and_1: "(w :: 64 word) AND 1 \<noteq> 0 \<longleftrightarrow> odd w"
  by (simp add: and_one_eq odd_iff_mod_2_eq_one)

lemma drop_bit_1_lt: "unat (drop_bit 1 (w :: 64 word)) < 2 ^ 63"
proof -
  have "unat w < 2 ^ 64" using unsigned_less [of w] by simp
  then show ?thesis by (simp add: drop_bit_eq_div unat_div)
qed

lemma push_drop_bit_1: "push_bit 1 (drop_bit 1 w) = (if even w then w else w - 1)" for w :: "64 word"
proof -
  have "push_bit 1 (drop_bit 1 w) + take_bit 1 w = w" by (rule bits_ident)
  moreover have "take_bit 1 w = of_bool (odd w)" by (simp add: take_bit_eq_mod mod_2_eq_odd)
  ultimately show ?thesis by (auto simp: algebra_simps)
qed

lemma drop_push_bit_1: "unat v < 2 ^ 63 \<Longrightarrow> drop_bit 1 (push_bit 1 v) = v" for v :: "64 word"
proof (rule unsigned_word_eqI)
  assume "unat v < 2 ^ 63"
  then have "unat (push_bit 1 v) = unat v * 2"
    unfolding unsigned_push_bit_eq by (simp add: push_bit_eq_mult take_bit_nat_eq_self)
  then show "unat (drop_bit 1 (push_bit 1 v)) = unat v" 
    unfolding drop_bit_eq_div by (simp add: unat_div)
qed

lemma even_or_1: "even w \<Longrightarrow> w OR 1 = w + 1" for w :: "64 word"
  by (simp add: or_one_eq)

lemma named_lt: "stackCodeNames v \<noteq> None \<Longrightarrow> unat v < 2 ^ 63"
  by (auto simp: stackCodeNames_def split: if_splits)

lemma ParseCode_Wire: "wf_code c \<Longrightarrow> ParseCode (Code_Wire c) = c"
proof -
  assume wf: "wf_code c"
  then have lt: "unat (cvalue c) < 2 ^ 63" using named_lt [of "cvalue c"] by (simp add: wf_code_def split: if_splits)
  show ?thesis
  proof (cases "cprotocol c")
    case True
    have "drop_bit 1 (push_bit 1 (cvalue c) OR 1) = cvalue c"
      using drop_push_bit_1 [OF lt] by (simp add: drop_bit_or)
    then show ?thesis using True
      by (simp add: ParseCode_def Code_Wire_def word_and_1 even_or_iff Let_def)
  next
    case False
    then show ?thesis using wf lt drop_push_bit_1 [OF lt]
      by (auto simp: ParseCode_def Code_Wire_def word_and_1 wf_code_def Let_def)
  qed
qed

lemma ParseCode_wf: "wf_code (ParseCode raw)"
  using drop_bit_1_lt [of raw]
  by (auto simp: ParseCode_def wf_code_def Let_def Unspecified_def stackCodeNames_def)

lemma Wire_ParseCode:
  "Code_Wire (ParseCode raw) = (if odd raw \<or> stackCodeNames (drop_bit 1 raw) \<noteq> None then raw else 0)"
  using push_drop_bit_1 [of raw]
  by (auto simp: ParseCode_def Code_Wire_def word_and_1 even_or_1 Let_def Unspecified_def)

section \<open>Lemmas on stream headers\<close>

lemma minimal_uvarint: "minimal_digits (uvarint n)"
proof -
  have "length (uvarint n) = 1 \<or> last (uvarint n) \<noteq> 0"
  proof (induction n rule: uvarint.induct)
    case (1 n)
    show ?case
    proof (cases "n < 128")
      case True
      then show ?thesis by (simp add: uvarint.simps [of n])
    next
      case False
      have "last (uvarint (n div 128)) \<noteq> 0"
      proof (cases "n div 128 < 128")
        case True
        then have "(of_nat (n div 128) :: byte) \<noteq> 0"
          using False unat_of_nat_byte [of "n div 128"] by (auto simp flip: unat_eq_0 simp del: unat_of_nat)
        then show ?thesis using True by (simp add: uvarint.simps [of "n div 128"])
      next
        case big: False
        then have "length (uvarint (n div 128)) \<noteq> 1" by (simp add: uvarint.simps [of "n div 128"])
        then show ?thesis using "1.IH" False by blast
      qed
      then show ?thesis using False by (simp add: uvarint.simps [of n])
    qed
  qed
  then show ?thesis by (simp add: minimal_digits_def uvarint_is_digits)
qed

lemma minimal_digits_uvarint: "minimal_digits bs \<Longrightarrow> uvarint (digits_value bs) = bs"
proof (induction bs)
  case Nil
  then show ?case by (simp add: minimal_digits_def)
next
  case (Cons b bs)
  show ?case
  proof (cases "bs = []")
    case True
    then have "unat b < 128" using Cons.prems by (simp add: minimal_digits_def byte_lt_iff)
    then show ?thesis using True by (simp add: uvarint.simps [of "unat b"])
  next
    case False
    then have b: "128 \<le> unat b" and d: "is_digits bs" and l: "last bs \<noteq> 0"
      using Cons.prems by (auto simp: minimal_digits_def is_digits_Cons byte_ge_iff split: if_splits)
    have "digits_value bs \<noteq> 0" using d l
    proof (induction bs)
      case (Cons c cs)
      then show ?case
        by (cases "cs = []") (auto simp: is_digits_Cons byte_lt_iff unat_eq_0)
    qed simp
    moreover have "uvarint (digits_value bs) = bs" using Cons.IH d l by (simp add: minimal_digits_def)
    moreover have "of_nat (unat b mod 128 + 128) = b" using b by (simp add: high_byte_mod)
    ultimately show ?thesis
      by (simp add: uvarint.simps [of "unat b mod 128 + 128 * digits_value bs"] del: of_nat_add)
  qed
qed

lemma ucast_32: "unat v < 2 ^ 32 \<Longrightarrow> unat (ucast (v :: 64 word) :: 32 word) = unat v"
  by (simp add: unsigned_ucast_eq take_bit_nat_eq_self)

lemma not_gt_32: "\<not> (0xFFFFFFFF < (v :: 64 word)) \<longleftrightarrow> unat v < 2 ^ 32"
  by (auto simp: word_less_nat_alt not_less)

lemma parseField_loop_InrD:
  "parseField_loop i v cs = Some (Inr (w, k)) \<Longrightarrow> unat v < 2 ^ (7 * i) \<Longrightarrow> length cs + i \<le> 5 \<Longrightarrow>
   \<exists>bs rest. cs = bs @ rest \<and> is_digits bs \<and> k = i + length bs \<and> (k = 1 \<or> last bs \<noteq> 0) \<and>
     unat w = unat v + digits_value bs * 2 ^ (7 * i)"
proof (induction cs arbitrary: i v)
  case Nil
  then show ?case by simp
next
  case (Cons c cs)
  define y where "y = v OR push_bit (7 * i) (ucast (c AND 0x7f))"
  have i: "i < 9" using Cons.prems(3) by simp
  have y: "unat y = unat v + unat c mod 128 * 2 ^ (7 * i)" "unat y < 2 ^ (7 * (i + 1))"
    unfolding y_def using loop_step_more [OF Cons.prems(2) i, of c] by auto
  show ?case
  proof (cases "c < 0x80")
    case True
    then have c: "\<not> (0 < i \<and> c = 0)" "unat y < 2 ^ 32" "w = ucast y" "k = i + 1"
      using Cons.prems(1) not_gt_32 [of y] by (auto simp: y_def [symmetric] Let_def split: if_splits)
    then have "unat w = unat y" by (simp add: ucast_32)
    then show ?thesis using True y c(1,4)
      by (intro exI [of _ "[c]"] exI [of _ cs]) auto
  next
    case False
    then have "parseField_loop (i + 1) y cs = Some (Inr (w, k))"
      using Cons.prems(1) by (simp add: y_def [symmetric] Let_def)
    from Cons.IH [OF this y(2)] Cons.prems(3) obtain bs rest where
      bs: "cs = bs @ rest" "is_digits bs" "k = i + 1 + length bs" "k = 1 \<or> last bs \<noteq> 0"
        "unat w = unat y + digits_value bs * 2 ^ (7 * (i + 1))" by auto
    then have "unat w = unat v + digits_value (c # bs) * 2 ^ (7 * i)"
      using y(1) by (simp add: power_add algebra_simps)
    moreover have "bs \<noteq> []" using bs(2) by auto
    ultimately show ?thesis using bs False
      by (intro exI [of _ "c # bs"] exI [of _ rest]) (auto simp: is_digits_Cons)
  qed
qed

lemma parseField_loop_digits:
  "is_digits bs \<Longrightarrow> length bs + i \<le> 5 \<Longrightarrow> length bs + i = 1 \<or> last bs \<noteq> 0 \<Longrightarrow> unat v < 2 ^ (7 * i) \<Longrightarrow>
   unat v + digits_value bs * 2 ^ (7 * i) < 2 ^ 32 \<Longrightarrow>
   parseField_loop i v (bs @ rest) = Some (Inr (of_nat (unat v + digits_value bs * 2 ^ (7 * i)), i + length bs))"
proof (induction bs arbitrary: i v)
  case Nil
  then show ?case by simp
next
  case (Cons c cs)
  define y where "y = v OR push_bit (7 * i) (ucast (c AND 0x7f))"
  have i: "i < 9" using Cons.prems(2) by simp
  have y: "unat y = unat v + unat c mod 128 * 2 ^ (7 * i)" "unat y < 2 ^ (7 * (i + 1))"
    unfolding y_def using loop_step_more [OF Cons.prems(4) i, of c] by auto
  have tot: "unat y + digits_value cs * 2 ^ (7 * (i + 1)) = unat v + digits_value (c # cs) * 2 ^ (7 * i)"
    using y(1) by (simp add: power_add algebra_simps)
  show ?case
  proof (cases "cs = []")
    case True
    then have "c < 0x80" "\<not> (0 < i \<and> c = 0)" using Cons.prems by auto
    moreover have "unat y < 2 ^ 32" using tot Cons.prems(5) True by simp
    moreover from this have "(ucast y :: 32 word) = of_nat (unat y)"
      by (intro unsigned_word_eqI) (simp add: ucast_32 unat_of_nat take_bit_nat_eq_self)
    moreover have "unat y = unat v + digits_value (c # cs) * 2 ^ (7 * i)" using tot True by simp
    ultimately show ?thesis using True not_gt_32 [of y]
      by (simp add: y_def [symmetric] Let_def del: digits_value.simps of_nat_add of_nat_mult)
  next
    case False
    then have "\<not> c < 0x80" "is_digits cs" using Cons.prems(1) by (auto simp: is_digits_Cons)
    moreover from this have "parseField_loop (i + 1) y (cs @ rest) =
       Some (Inr (of_nat (unat y + digits_value cs * 2 ^ (7 * (i + 1))), i + 1 + length cs))"
      using Cons.prems False y(2) tot by (intro Cons.IH) auto
    ultimately show ?thesis unfolding tot
      by (simp add: y_def [symmetric] Let_def del: digits_value.simps)
  qed
qed

lemma parseField_loop_None: "parseField_loop i v cs = None \<longleftrightarrow> (\<forall>c \<in> set cs. 0x80 \<le> c)"
  by (induction i v cs rule: parseField_loop.induct) (auto simp: Let_def not_less)

lemma is_digits_butlast: "is_digits (p @ q) \<Longrightarrow> q \<noteq> [] \<Longrightarrow> c \<in> set p \<Longrightarrow> 0x80 \<le> c"
  by (induction p) (auto simp: is_digits_Cons split: if_splits)

lemma length_uvarint_32: "length (uvarint (unat (w :: 32 word))) \<le> 5"
proof -
  have "unat w < 2 ^ 32" using unsigned_less [of w] by simp
  then have "unat w < 128 ^ Suc 4" by simp
  then show ?thesis using length_uvarint [of "unat w" 4] by simp
qed

lemma parseField_uvarint:
  "parseField (uvarint (unat w) @ rest) = Inr (w, length (uvarint (unat w)))"
proof -
  have "unat w < 2 ^ 32" using unsigned_less [of w] by simp
  then show ?thesis
    using parseField_loop_digits [of "uvarint (unat w)" 0 0 "take (5 - length (uvarint (unat w))) rest"]
      minimal_uvarint [of "unat w"] length_uvarint_32 [of w]
    by (simp add: parseField_def minimal_digits_def uvarint_value maxFieldLen_def)
qed

lemma parseField_InrD:
  assumes "parseField b = Inr (w, n)" and "n \<noteq> 0"
  shows "\<exists>rest. b = uvarint (unat w) @ rest \<and> n = length (uvarint (unat w))"
proof -
  from assms have "parseField_loop 0 0 (take 5 b) = Some (Inr (w, n))"
    by (auto simp: parseField_def maxFieldLen_def split: option.splits if_splits)
  from parseField_loop_InrD [OF this] obtain bs rest where
    bs: "take 5 b = bs @ rest" "is_digits bs" "n = length bs" "n = 1 \<or> last bs \<noteq> 0" "unat w = digits_value bs"
    by auto
  then have "uvarint (unat w) = bs" using minimal_digits_uvarint [of bs] by (simp add: minimal_digits_def)
  moreover have "b = bs @ rest @ drop 5 b" using bs(1) by (metis append_assoc append_take_drop_id)
  ultimately show ?thesis using bs(3) by auto
qed

lemma parseField_prefix:
  assumes "uvarint (unat (w :: 32 word)) = p @ q" and "q \<noteq> []"
  shows "parseField p = Inr (0, 0)"
proof -
  have l: "length p < 5" using length_uvarint_32 [of w] assms by (cases q) auto
  have "parseField_loop 0 0 p = None"
    using is_digits_butlast [of p q] uvarint_is_digits [of "unat w"] assms by (simp add: parseField_loop_None)
  with l show ?thesis by (simp add: parseField_def maxFieldLen_def)
qed

lemma parseField_more: "parseField b = Inr (w, 0) \<Longrightarrow> length b < 5"
proof -
  assume p: "parseField b = Inr (w, 0)"
  have "parseField_loop 0 0 (take 5 b) \<noteq> Some (Inr (w, 0))"
  proof
    assume "parseField_loop 0 0 (take 5 b) = Some (Inr (w, 0))"
    from parseField_loop_InrD [OF this] show False by auto
  qed
  with p show ?thesis by (auto simp: parseField_def maxFieldLen_def split: option.splits if_splits)
qed

lemma AppendSelector_eq:
  "AppendSelector dst s = dst @ uvarint (unat (sel_family s)) @ uvarint (unat (sel_protocol s))"
  by (simp add: AppendSelector_def AppendUvarint_uvarint unsigned_ucast_eq take_bit_nat_eq_self unsigned_less
      order_less_trans [OF unsigned_less])

lemma length_AppendSelector: "length (AppendSelector [] s) \<le> MaxHeaderLen" "AppendSelector [] s \<noteq> []"
  using length_uvarint_32 [of "sel_family s"] length_uvarint_32 [of "sel_protocol s"]
  by (auto simp: AppendSelector_eq MaxHeaderLen_def uvarint_nonempty)

lemma ParseSelector_AppendSelector:
  "sel_family s \<noteq> ReservedFamily \<Longrightarrow>
   ParseSelector (AppendSelector [] s @ rest) = Inr (s, length (AppendSelector [] s))"
  by (simp add: ParseSelector_def AppendSelector_eq parseField_uvarint uvarint_nonempty Let_def)

lemma ParseSelector_InrD:
  assumes "ParseSelector b = Inr (s, n)" and "n \<noteq> 0"
  shows "sel_family s \<noteq> ReservedFamily \<and> n = length (AppendSelector [] s) \<and> (\<exists>rest. b = AppendSelector [] s @ rest)"
proof -
  from assms obtain f k p m where
    f: "parseField b = Inr (f, k)" "k \<noteq> 0" "f \<noteq> ReservedFamily" and
    p: "parseField (drop k b) = Inr (p, m)" "m \<noteq> 0" and
    s: "s = \<lparr>sel_family = f, sel_protocol = p\<rparr>" "n = k + m"
    by (auto simp: ParseSelector_def Let_def split: sum.splits prod.splits if_splits)
  from parseField_InrD [OF f(1,2)] parseField_InrD [OF p] f(3) s show ?thesis
    by (auto simp: AppendSelector_eq)
qed

lemma ParseSelector_more: "ParseSelector b = Inr (s, 0) \<Longrightarrow> length b < MaxHeaderLen"
proof -
  assume a: "ParseSelector b = Inr (s, 0)"
  show ?thesis
  proof (cases "parseField b")
    case (Inr fk)
    obtain f k where fk: "fk = (f, k)" by (cases fk)
    show ?thesis
    proof (cases "k = 0")
      case True
      then show ?thesis using parseField_more [of b f] Inr fk by (simp add: MaxHeaderLen_def)
    next
      case False
      then obtain p where "parseField (drop k b) = Inr (p, 0)"
        using a Inr fk by (auto simp: ParseSelector_def Let_def split: sum.splits prod.splits if_splits)
      then have "length (drop k b) < 5" by (rule parseField_more)
      moreover have "k \<le> 5" using parseField_InrD [of b f k] Inr fk False length_uvarint_32 [of f] by auto
      ultimately show ?thesis by (simp add: MaxHeaderLen_def)
    qed
  qed (use a in \<open>simp add: ParseSelector_def\<close>)
qed

lemma ParseSelector_prefix:
  assumes "sel_family s \<noteq> ReservedFamily" and "AppendSelector [] s = p @ q" and "q \<noteq> []"
  shows "ParseSelector p = Inr (\<lparr>sel_family = 0, sel_protocol = 0\<rparr>, 0)"
proof -
  from assms(2) have "uvarint (unat (sel_family s)) @ uvarint (unat (sel_protocol s)) = p @ q"
    by (simp add: AppendSelector_eq)
  then show ?thesis
  proof (cases rule: prefix_append_cases)
    case (inside x)
    with parseField_prefix [of "sel_family s" p x] show ?thesis by (simp add: ParseSelector_def)
  next
    case (beyond x)
    with parseField_prefix [of "sel_protocol s" x q] assms(1,3) show ?thesis
      by (simp add: ParseSelector_def parseField_uvarint uvarint_nonempty Let_def)
  qed
qed

lemma ReadSelector_loop_some: "length head < MaxHeaderLen \<Longrightarrow> ReadSelector_loop head r \<noteq> None"
proof (induction head r rule: ReadSelector_loop.induct)
  case (1 head r)
  show ?case
    using "1.IH" "1.prems"
    by (subst ReadSelector_loop.simps) (fastforce dest: ParseSelector_more split: prod.splits sum.splits)
qed

lemma ReadSelector_loop_InrD:
  assumes "ReadSelector_loop head r = Some (Inr s, r')" 
    and "\<And>p q. head = p @ q \<Longrightarrow> \<exists>z. ParseSelector p = Inr (z, 0)"
  shows "sel_family s \<noteq> ReservedFamily \<and> head @ rdata r = AppendSelector [] s @ rdata r' \<and> rend r' = rend r"
  using assms
proof (induction head r rule: ReadSelector_loop.induct)
  case (1 head r)
  from "1.prems"(1) obtain bs r1 where r1: "length head < MaxHeaderLen" "readFull 1 r = (Inr bs, r1)"
    by (auto simp: ReadSelector_loop.simps [of head] split: prod.splits sum.splits if_splits)
  from readFull_InrD [OF r1(2)] obtain c where c: "bs = [c]" "rdata r = c # rdata r1" "rend r1 = rend r"
    by (auto simp: length_Suc_conv)
  from "1.prems"(1) r1 c obtain s1 n where
    ps: "ParseSelector (head @ [c]) = Inr (s1, n)" and
    k: "if n \<noteq> 0 then s1 = s \<and> r1 = r' else ReadSelector_loop (head @ [c]) r1 = Some (Inr s, r')"
    by (auto simp: ReadSelector_loop.simps [of head] split: sum.splits if_splits)
  show ?case
  proof (cases "n = 0")
    case True
    have "\<exists>z. ParseSelector p = Inr (z, 0)" if "head @ [c] = p @ q" for p q
      using that ps True "1.prems"(2) by (cases q rule: rev_cases) auto
    with "1.IH" [of "Inr bs" r1 bs "(s1, n)" s1 n] True k ps r1 c show ?thesis by simp
  next
    case False
    from ParseSelector_InrD [OF ps False] obtain rest where
      rest: "sel_family s1 \<noteq> ReservedFamily" "head @ [c] = AppendSelector [] s1 @ rest" by auto
    have "rest = []"
    proof (rule ccontr)
      assume "rest \<noteq> []"
      with rest(2) have "head = AppendSelector [] s1 @ butlast rest"
        by (metis butlast_append butlast_snoc)
      with "1.prems"(2) [of "AppendSelector [] s1" "butlast rest"]
        ParseSelector_AppendSelector [OF rest(1), of "[]"] length_AppendSelector(2) [of s1]
      show False by auto
    qed
    with rest k False c show ?thesis by auto
  qed
qed

lemma ReadSelector_loop_AppendSelector:
  assumes "sel_family s \<noteq> ReservedFamily" and "AppendSelector [] s = head @ q" and "q \<noteq> []"
  shows "ReadSelector_loop head \<lparr>rdata = q @ rest, rend = e\<rparr> = Some (Inr s, \<lparr>rdata = rest, rend = e\<rparr>)"
  using assms
proof (induction q arbitrary: head)
  case (Cons c q)
  have l: "length head < MaxHeaderLen" using Cons.prems(2) length_AppendSelector(1) [of s] by simp
  show ?case
  proof (cases "q = []")
    case True
    then show ?thesis
      using l Cons.prems ParseSelector_AppendSelector [OF Cons.prems(1), of "[]"]
      by (simp add: ReadSelector_loop.simps [of head] reader_simps)
  next
    case False
    then have "ParseSelector (head @ [c]) = Inr (\<lparr>sel_family = 0, sel_protocol = 0\<rparr>, 0)"
      using Cons.prems by (intro ParseSelector_prefix [of s _ q]) auto
    then show ?thesis using l Cons.IH [of "head @ [c]"] Cons.prems False
      by (simp add: ReadSelector_loop.simps [of head] reader_simps)
  qed
qed simp

lemma ParseSelector_Nil: "ParseSelector [] = Inr (\<lparr>sel_family = 0, sel_protocol = 0\<rparr>, 0)"
  by (simp add: ParseSelector_def parseField_def maxFieldLen_def Let_def)

lemma ReadSelector_iff:
  "ReadSelector r = Some (Inr s, r') \<longleftrightarrow>
     sel_family s \<noteq> ReservedFamily \<and> rdata r = AppendSelector [] s @ rdata r' \<and> rend r' = rend r"
proof
  assume "ReadSelector r = Some (Inr s, r')"
  with ReadSelector_loop_InrD [of "[]" r s r'] ParseSelector_Nil show
    "sel_family s \<noteq> ReservedFamily \<and> rdata r = AppendSelector [] s @ rdata r' \<and> rend r' = rend r"
    by (simp add: ReadSelector_def)
next
  assume "sel_family s \<noteq> ReservedFamily \<and> rdata r = AppendSelector [] s @ rdata r' \<and> rend r' = rend r"
  with ReadSelector_loop_AppendSelector [of s "[]" "AppendSelector [] s" "rdata r'" "rend r"]
    length_AppendSelector(2) [of s]
  show "ReadSelector r = Some (Inr s, r')" by (cases r; cases r') (simp add: ReadSelector_def)
qed

lemma ReadSelector_no_panic: "ReadSelector r \<noteq> None"
  by (simp add: ReadSelector_def ReadSelector_loop_some MaxHeaderLen_def)

section \<open>Properties\<close>

text \<open>
  C23 (frames): reading a frame succeeds exactly on the one encoding \<open>AppendFrame\<close> gives of the
  frame, with a payload within the limit, and leaves the reader right after that encoding.
\<close>
theorem ReadFrame_iff:
  assumes "maxLen < 2 ^ 63"
  shows "ReadFrame maxLen r = (Inr (ty, payload), r') \<longleftrightarrow>
     length payload \<le> maxLen \<and> rdata r = AppendFrame [] ty payload @ rdata r' \<and> rend r' = rend r"
  using ReadFrame_AppendFrame [OF _ assms, of payload ty "rdata r'" "rend r'"] ReadFrame_InrD
  by (metis (full_types) reader.surjective old.unit.exhaust)

theorem ReadFrame_iff_witness:
  "ReadFrame 16 \<lparr>rdata = [3, 2, 7, 8, 99], rend = EOF\<rparr> = (Inr (3, [7, 8]), \<lparr>rdata = [99], rend = EOF\<rparr>)"
  by (subst ReadFrame_iff) (simp_all add: AppendFrame_eq uvarint.simps [of 3] uvarint.simps [of 2] numeral_2_eq_2 [symmetric])

text \<open>
  C26 (truncated frames): when the stream ends inside a frame the reader reports
  \<open>io.ErrUnexpectedEOF\<close>, and it reports a clean \<open>io.EOF\<close> only when not one byte of the frame
  has arrived.
\<close>
theorem ReadFrame_truncated:
  assumes "length payload \<le> maxLen" and "maxLen < 2 ^ 63"
    and "AppendFrame [] ty payload = p @ q" and "q \<noteq> []"
  shows "fst (ReadFrame maxLen \<lparr>rdata = p, rend = EOF\<rparr>) = Inl (if p = [] then EOF else ErrUnexpectedEOF)"
  using ReadFrame_truncated_aux [OF assms, of EOF] by (simp add: cut_error_def)

theorem ReadFrame_truncated_witness:
  "fst (ReadFrame 16 \<lparr>rdata = [3, 2, 7], rend = EOF\<rparr>) = Inl ErrUnexpectedEOF"
  using ReadFrame_truncated [of "[7, 8]" 16 3 "[3, 2, 7]" "[8]"]
  by (simp add: AppendFrame_eq uvarint.simps [of 3] uvarint.simps [of 2])

text \<open>
  C27 (codes): every received QUIC code decodes to a code that has a name, each such code is
  encoded by exactly the number it decodes from, and an unknown stack number becomes
  \<open>Unspecified\<close>, whose number is 0.
\<close>
theorem Code_roundtrip:
  "wf_code (ParseCode raw) \<and>
   Code_Wire (ParseCode raw) = (if odd raw \<or> stackCodeNames (drop_bit 1 raw) \<noteq> None then raw else 0) \<and>
   (wf_code c \<longrightarrow> ParseCode (Code_Wire c) = c)"
  using ParseCode_wf Wire_ParseCode ParseCode_Wire by blast

theorem Code_roundtrip_witness:
  "wf_code Closing \<and> ParseCode (Code_Wire Closing) = Closing"
  using Code_roundtrip [of 20 Closing] by (simp add: wf_code_def Closing_def stackCodeNames_def)

text \<open>
  C25 (stream headers): reading a stream header never reaches the panic after its loop, and it
  succeeds exactly on the encoding \<open>AppendSelector\<close> gives of a selector whose family is not
  reserved, consuming exactly those bytes.
\<close>
theorem ReadSelector_spec:
  "ReadSelector r \<noteq> None \<and>
   (ReadSelector r = Some (Inr s, r') \<longleftrightarrow>
     sel_family s \<noteq> ReservedFamily \<and> rdata r = AppendSelector [] s @ rdata r' \<and> rend r' = rend r)"
  using ReadSelector_no_panic ReadSelector_iff by blast

end
