(* ===== verification/Control.thy ===== *)
theory Control
  imports Wire
begin

text \<open>
  \<open>src/control/control.go\<close>: the HELLO and GOAWAY frames of the control stream. The protobuf
  runtime is a parameter: \<open>marshal\<close> and \<open>unmarshal\<close> stand for \<open>proto.Marshal\<close> and
  \<open>proto.Unmarshal\<close> on the two messages of \<open>control.proto\<close>, and the round-trip hypothesis
  \<open>proto_roundtrip\<close> is what the protobuf documentation promises. The lemmas show that the
  family check accepts exactly the lists the format allows, that HELLO and GOAWAY survive the
  round trip and that a reader that accepts has read exactly one header and one frame.
\<close>

section \<open>Messages\<close>

record hello_msg =
  families :: "32 word list"
  hello_record :: bytes
  hello_unknown :: bytes

record goaway_msg =
  goaway_code :: "64 word"
  goaway_unknown :: bytes

record peerHello =
  peer_families :: "32 word list"
  peer_record :: bytes

definition ControlFamily :: "32 word" where "ControlFamily = 0"

definition ControlSelector :: selector where
  "ControlSelector = \<lparr>sel_family = ControlFamily, sel_protocol = 0\<rparr>"

definition MaxFamilies :: nat where "MaxFamilies = 1024"
definition maxControlFrame :: nat where "maxControlFrame = 16384"
definition helloFrame :: "64 word" where "helloFrame = 0"
definition goAwayFrame :: "64 word" where "goAwayFrame = 1"

abbreviation "errInvalidFamilies \<equiv> ErrNew ''invalid family list''"
abbreviation "errUnexpectedControlFrame \<equiv> ErrNew ''control frame type not allowed here''"
abbreviation "errUnknownControlField \<equiv> ErrNew ''control message has unknown fields''"
abbreviation "errNotControlStream \<equiv> ErrNew ''first unidirectional stream is not the control stream''"

section \<open>Operations\<close>

text \<open>The loop of \<open>ValidateFamilies\<close>, with the previous element for \<open>families[i-1]\<close>.\<close>

fun ValidateFamilies_loop :: "32 word option \<Rightarrow> 32 word list \<Rightarrow> goerr option" where
  "ValidateFamilies_loop prev [] = None"
| "ValidateFamilies_loop prev (family # fs) =
     (if family = ControlFamily \<or> family = ReservedFamily
      then Some (Wrap ''family is never announced'' errInvalidFamilies)
      else if (case prev of None \<Rightarrow> False | Some p \<Rightarrow> family \<le> p)
      then Some (Wrap ''families must be strictly ascending'' errInvalidFamilies)
      else ValidateFamilies_loop (Some family) fs)"

definition ValidateFamilies :: "32 word list \<Rightarrow> goerr option" where
  "ValidateFamilies fs =
     (if MaxFamilies < length fs then Some (Wrap ''maximum is 1024'' errInvalidFamilies)
      else ValidateFamilies_loop None fs)"

definition HelloBytes ::
  "(hello_msg \<Rightarrow> goerr + bytes) \<Rightarrow> 32 word list \<Rightarrow> bytes \<Rightarrow> goerr + bytes" where
  "HelloBytes marshal fs rec =
     (case marshal \<lparr>families = fs, hello_record = rec, hello_unknown = []\<rparr> of
        Inl e \<Rightarrow> Inl e
      | Inr raw \<Rightarrow>
          if maxControlFrame < length raw then Inl ErrFrameTooLarge
          else Inr (AppendFrame (AppendSelector [] ControlSelector) helloFrame raw))"

definition readControlFrame ::
  "(bytes \<Rightarrow> goerr + 'm) \<Rightarrow> ('m \<Rightarrow> bytes) \<Rightarrow> reader \<Rightarrow> 64 word \<Rightarrow> (goerr + 'm) \<times> reader" where
  "readControlFrame unmarshal getUnknown r want =
     rthen (ReadFrame maxControlFrame r) (\<lambda>(ty, raw) r'.
       (if ty \<noteq> want then Inl errUnexpectedControlFrame
        else case unmarshal raw of
               Inl e \<Rightarrow> Inl e
             | Inr msg \<Rightarrow> if getUnknown msg \<noteq> [] then Inl errUnknownControlField else Inr msg, r'))"

definition ReadHello ::
  "(bytes \<Rightarrow> goerr + hello_msg) \<Rightarrow> reader \<Rightarrow> ((goerr + peerHello) \<times> reader) option" where
  "ReadHello unmarshal r =
     (case ReadSelector r of
        None \<Rightarrow> None
      | Some (Inl e, r1) \<Rightarrow> Some (Inl e, r1)
      | Some (Inr sel, r1) \<Rightarrow>
          if sel \<noteq> ControlSelector then Some (Inl errNotControlStream, r1)
          else Some (rthen (readControlFrame unmarshal hello_unknown r1 helloFrame) (\<lambda>msg r2.
            (let h = \<lparr>peer_families = families msg, peer_record = hello_record msg\<rparr> in
             case ValidateFamilies (peer_families h) of
               Some e \<Rightarrow> Inl e
             | None \<Rightarrow> Inr h, r2))))"

definition GoAwayBytes :: "(goaway_msg \<Rightarrow> goerr + bytes) \<Rightarrow> code \<Rightarrow> bytes" where
  "GoAwayBytes marshal c =
     (case marshal \<lparr>goaway_code = drop_bit 1 (Code_Wire c), goaway_unknown = []\<rparr> of
        Inl e \<Rightarrow> []
      | Inr raw \<Rightarrow> AppendFrame [] goAwayFrame raw)"

definition ReadGoAway :: "(bytes \<Rightarrow> goerr + goaway_msg) \<Rightarrow> reader \<Rightarrow> (goerr + code) \<times> reader" where
  "ReadGoAway unmarshal r =
     rthen (readControlFrame unmarshal goaway_unknown r goAwayFrame) (\<lambda>msg r'.
       (if goaway_code msg \<le> 0x7FFFFFFFFFFFFFFF then Inr (ParseCode (push_bit 1 (goaway_code msg)))
        else Inr Unspecified, r'))"

section \<open>Specification notions\<close>

text \<open>
  What the protobuf runtime documents: a marshalled message unmarshals to itself, without
  unknown fields.
\<close>

definition proto_roundtrip :: "('m \<Rightarrow> goerr + bytes) \<Rightarrow> (bytes \<Rightarrow> goerr + 'm) \<Rightarrow> bool" where
  "proto_roundtrip marshal unmarshal \<longleftrightarrow> (\<forall>msg raw. marshal msg = Inr raw \<longrightarrow> unmarshal raw = Inr msg)"

definition announceable :: "32 word list \<Rightarrow> bool" where
  "announceable fs \<longleftrightarrow> sorted_wrt (<) fs \<and> ControlFamily \<notin> set fs \<and> ReservedFamily \<notin> set fs \<and> length fs \<le> 1024"

text \<open>
  The proto3 encoding on a part of the messages, to show that the hypotheses can hold: HELLO
  with fewer than 128 families below 128, packed, and without a record; GOAWAY with any code.
\<close>

definition hello_pack :: "hello_msg \<Rightarrow> goerr + bytes" where
  "hello_pack msg =
     (if hello_record msg = [] \<and> hello_unknown msg = [] \<and> length (families msg) < 128 \<and>
         (\<forall>f \<in> set (families msg). f < 128)
      then Inr (0x0a # of_nat (length (families msg)) # map ucast (families msg))
      else Inl (ErrNew ''outside the fragment''))"

fun hello_unpack :: "bytes \<Rightarrow> goerr + hello_msg" where
  "hello_unpack (tag # n # bs) =
     (if tag = 0x0a \<and> n = of_nat (length bs)
      then Inr \<lparr>families = map ucast bs, hello_record = [], hello_unknown = []\<rparr>
      else Inl (ErrNew ''outside the fragment''))"
| "hello_unpack _ = Inl (ErrNew ''outside the fragment'')"

definition goaway_pack :: "goaway_msg \<Rightarrow> goerr + bytes" where
  "goaway_pack msg =
     (if goaway_unknown msg \<noteq> [] then Inl (ErrNew ''outside the fragment'')
      else if goaway_code msg = 0 then Inr [] else Inr (0x08 # AppendUvarint [] (goaway_code msg)))"

fun goaway_unpack :: "bytes \<Rightarrow> goerr + goaway_msg" where
  "goaway_unpack [] = Inr \<lparr>goaway_code = 0, goaway_unknown = []\<rparr>"
| "goaway_unpack (tag # bs) =
     (if tag \<noteq> 0x08 then Inl (ErrNew ''outside the fragment'')
      else case ReadUvarint \<lparr>rdata = bs, rend = EOF\<rparr> of
             (Inl e, _) \<Rightarrow> Inl e
           | (Inr v, _) \<Rightarrow> Inr \<lparr>goaway_code = v, goaway_unknown = []\<rparr>)"

section \<open>Lemmas\<close>

lemma ValidateFamilies_loop_None:
  "ValidateFamilies_loop prev fs = None \<longleftrightarrow>
     sorted_wrt (<) fs \<and> ControlFamily \<notin> set fs \<and> ReservedFamily \<notin> set fs \<and>
     (\<forall>p. prev = Some p \<longrightarrow> (\<forall>f \<in> set fs. p < f))"
  by (induction prev fs rule: ValidateFamilies_loop.induct)
    (auto split: option.splits intro: order.strict_trans)

lemma ValidateFamilies_None: "ValidateFamilies fs = None \<longleftrightarrow> announceable fs"
  by (auto simp: ValidateFamilies_def MaxFamilies_def announceable_def ValidateFamilies_loop_None)

lemma AppendFrame_append: "AppendFrame (xs @ ys) ty p = xs @ AppendFrame ys ty p"
  by (simp add: AppendFrame_eq)

lemma readControlFrame_InrD:
  assumes "readControlFrame unmarshal getUnknown r want = (Inr msg, r')"
  shows "\<exists>raw. unmarshal raw = Inr msg \<and> getUnknown msg = [] \<and> length raw \<le> maxControlFrame \<and>
     rdata r = AppendFrame [] want raw @ rdata r' \<and> rend r' = rend r"
  using assms ReadFrame_InrD [of maxControlFrame r]
  by (fastforce simp: readControlFrame_def rthen_Inr split: if_splits sum.splits)

lemma readControlFrame_AppendFrame:
  assumes "length raw \<le> maxControlFrame" and "unmarshal raw = Inr msg" and "getUnknown msg = []"
  shows "readControlFrame unmarshal getUnknown \<lparr>rdata = AppendFrame [] want raw @ rest, rend = e\<rparr> want =
    (Inr msg, \<lparr>rdata = rest, rend = e\<rparr>)"
  using assms by (simp add: readControlFrame_def ReadFrame_AppendFrame maxControlFrame_def)

lemma ControlSelector_family: "sel_family ControlSelector \<noteq> ReservedFamily"
  by (simp add: ControlSelector_def ControlFamily_def ReservedFamily_def)

lemma ReadSelector_Control:
  "ReadSelector \<lparr>rdata = AppendSelector [] ControlSelector @ rest, rend = e\<rparr> =
     Some (Inr ControlSelector, \<lparr>rdata = rest, rend = e\<rparr>)"
  by (simp add: ReadSelector_iff ControlSelector_family)

lemma ReadGoAway_code:
  "(if v \<le> 0x7FFFFFFFFFFFFFFF then ParseCode (push_bit 1 v) else Unspecified) =
   (if stackCodeNames v = None then Unspecified else \<lparr>cvalue = v, cprotocol = False\<rparr>)"
proof (cases "v \<le> 0x7FFFFFFFFFFFFFFF")
  case True
  then have "unat v < 2 ^ 63" by (simp add: word_le_nat_alt)
  then have "drop_bit 1 (push_bit 1 v) = v" by (rule drop_push_bit_1)
  with True show ?thesis by (simp add: ParseCode_def word_and_1 Let_def)
next
  case False
  have "stackCodeNames v = None"
  proof (rule ccontr)
    assume "stackCodeNames v \<noteq> None"
    then have "v \<le> 0x7FFFFFFFFFFFFFFF" by (auto simp: stackCodeNames_def split: if_splits)
    with False show False ..
  qed
  with False show ?thesis by simp
qed

lemma hello_pack_roundtrip: "proto_roundtrip hello_pack hello_unpack"
proof -
  have "map (ucast \<circ> (ucast :: 32 word \<Rightarrow> byte)) fs = fs" if "\<forall>f \<in> set fs. f < 128" for fs :: "32 word list"
  proof (rule map_idI)
    fix f assume "f \<in> set fs"
    with that have "unat f < 128" by (simp add: word_less_nat_alt)
    then have "unat (((ucast :: byte \<Rightarrow> 32 word) \<circ> ucast) f) = unat f"
      by (simp add: unsigned_ucast_eq unsigned_take_bit_eq take_bit_nat_eq_self)
    then show "(ucast \<circ> (ucast :: 32 word \<Rightarrow> byte)) f = f" by (rule unsigned_word_eqI)
  qed
  then show ?thesis by (auto simp: proto_roundtrip_def hello_pack_def split: if_splits)
qed

lemma goaway_pack_roundtrip: "proto_roundtrip goaway_pack goaway_unpack"
  using ReadUvarint_uvarint [where rest = "[]"]
  by (auto simp: proto_roundtrip_def goaway_pack_def AppendUvarint_uvarint split: if_splits)

lemma goaway_pack_total: "\<exists>raw. goaway_pack \<lparr>goaway_code = v, goaway_unknown = []\<rparr> = Inr raw \<and> length raw \<le> 11"
  using length_uvarint_word [of v] by (auto simp: goaway_pack_def AppendUvarint_uvarint)

lemma wf_code_stack:
  "wf_code (if stackCodeNames v = None then Unspecified else \<lparr>cvalue = v, cprotocol = False\<rparr>)"
  "\<not> cprotocol (if stackCodeNames v = None then Unspecified else \<lparr>cvalue = v, cprotocol = False\<rparr>)"
  by (simp_all add: wf_code_def Unspecified_def) (simp add: stackCodeNames_def)

section \<open>Properties\<close>

text \<open>
  C28 (HELLO round trip): the bytes \<open>HelloBytes\<close> writes for an announceable family list are
  read back by \<open>ReadHello\<close> as the same families and record, and nothing after them is
  consumed.
\<close>
theorem Hello_roundtrip:
  assumes "proto_roundtrip marshal unmarshal" and "ValidateFamilies fs = None"
    and "HelloBytes marshal fs rec = Inr b"
  shows "ReadHello unmarshal \<lparr>rdata = b @ rest, rend = e\<rparr> =
    Some (Inr \<lparr>peer_families = fs, peer_record = rec\<rparr>, \<lparr>rdata = rest, rend = e\<rparr>)"
proof -
  let ?msg = "\<lparr>families = fs, hello_record = rec, hello_unknown = []\<rparr>"
  from assms(3) obtain raw where raw: "marshal ?msg = Inr raw" "length raw \<le> maxControlFrame"
    and b: "b = AppendSelector [] ControlSelector @ AppendFrame [] helloFrame raw"
    using AppendFrame_append [of "AppendSelector [] ControlSelector" "[]"]
    by (auto simp: HelloBytes_def split: sum.splits if_splits)
  have "unmarshal raw = Inr ?msg" using raw(1) assms(1) by (simp add: proto_roundtrip_def)
  with raw(2) assms(2) show ?thesis
    by (simp add: b ReadHello_def ReadSelector_Control readControlFrame_AppendFrame)
qed

theorem Hello_roundtrip_witness:
  "ReadHello hello_unpack \<lparr>rdata = [0, 0, 0, 4, 10, 2, 1, 5] @ [9], rend = EOF\<rparr> =
    Some (Inr \<lparr>peer_families = [1, 5], peer_record = []\<rparr>, \<lparr>rdata = [9], rend = EOF\<rparr>)"
proof (rule Hello_roundtrip [OF hello_pack_roundtrip])
  show "ValidateFamilies [1, 5] = None"
    by (simp add: ValidateFamilies_def MaxFamilies_def ControlFamily_def ReservedFamily_def word_le_nat_alt)
  show "HelloBytes hello_pack [1, 5] [] = Inr [0, 0, 0, 4, 10, 2, 1, 5]"
    by (simp add: HelloBytes_def hello_pack_def maxControlFrame_def AppendFrame_eq AppendSelector_eq
      ControlSelector_def ControlFamily_def helloFrame_def uvarint.simps [of 0] uvarint.simps [of 4])
qed

text \<open>
  C29 (HELLO acceptance): \<open>ReadHello\<close> always returns, and a HELLO it accepts announces a strictly
  ascending list of at most 1024 families without the control and the reserved family, was
  sent on the control stream in one frame within the limit, and carries no unknown field; the
  reader stands right after that frame.
\<close>
theorem ReadHello_accepts:
  "ReadHello unmarshal r \<noteq> None \<and>
   (ReadHello unmarshal r = Some (Inr h, r') \<longrightarrow>
     announceable (peer_families h) \<and> rend r' = rend r \<and>
     (\<exists>raw. length raw \<le> maxControlFrame \<and>
       unmarshal raw = Inr \<lparr>families = peer_families h, hello_record = peer_record h, hello_unknown = []\<rparr> \<and>
       rdata r = AppendSelector [] ControlSelector @ AppendFrame [] helloFrame raw @ rdata r'))"
proof (intro conjI impI)
  show "ReadHello unmarshal r \<noteq> None"
    using ReadSelector_no_panic [of r] by (auto simp: ReadHello_def split: option.splits sum.splits)
next
  assume "ReadHello unmarshal r = Some (Inr h, r')"
  then obtain r1 msg where sel: "ReadSelector r = Some (Inr ControlSelector, r1)"
    and fr: "readControlFrame unmarshal hello_unknown r1 helloFrame = (Inr msg, r')"
    and h: "h = \<lparr>peer_families = families msg, peer_record = hello_record msg\<rparr>" "ValidateFamilies (families msg) = None"
    by (auto simp: ReadHello_def rthen_Inr Let_def split: option.splits sum.splits if_splits)
  from sel have "rdata r = AppendSelector [] ControlSelector @ rdata r1" "rend r1 = rend r"
    by (simp_all add: ReadSelector_iff)
  moreover from readControlFrame_InrD [OF fr] obtain raw where
    "unmarshal raw = Inr msg" "hello_unknown msg = []" "length raw \<le> maxControlFrame"
    "rdata r1 = AppendFrame [] helloFrame raw @ rdata r'" "rend r' = rend r1" by auto
  moreover from this have "msg = \<lparr>families = families msg, hello_record = hello_record msg, hello_unknown = []\<rparr>"
    by (cases msg) simp
  ultimately show "announceable (peer_families h)" "rend r' = rend r"
    "\<exists>raw. length raw \<le> maxControlFrame \<and>
       unmarshal raw = Inr \<lparr>families = peer_families h, hello_record = peer_record h, hello_unknown = []\<rparr> \<and>
       rdata r = AppendSelector [] ControlSelector @ AppendFrame [] helloFrame raw @ rdata r'"
    using h by (auto simp: ValidateFamilies_None)
qed

text \<open>
  C30 (GOAWAY): a GOAWAY written for a named stack code is read back as that code, and whatever
  number a GOAWAY carries, what is read is a stack code that has a name.
\<close>
theorem GoAway_roundtrip:
  assumes "proto_roundtrip marshal unmarshal"
    and "\<And>v. \<exists>raw. marshal \<lparr>goaway_code = v, goaway_unknown = []\<rparr> = Inr raw \<and> length raw \<le> 11"
    and "\<not> cprotocol c" and "wf_code c"
  shows "ReadGoAway unmarshal \<lparr>rdata = GoAwayBytes marshal c @ rest, rend = e\<rparr> =
      (Inr c, \<lparr>rdata = rest, rend = e\<rparr>) \<and>
    (\<forall>r c' r'. ReadGoAway unmarshal r = (Inr c', r') \<longrightarrow> \<not> cprotocol c' \<and> wf_code c')"
proof (intro conjI allI impI)
  have v: "drop_bit 1 (Code_Wire c) = cvalue c" and n: "stackCodeNames (cvalue c) \<noteq> None"
    using assms(3,4) drop_push_bit_1 [OF named_lt, of "cvalue c"] by (auto simp: Code_Wire_def wf_code_def)
  obtain raw where raw: "marshal \<lparr>goaway_code = cvalue c, goaway_unknown = []\<rparr> = Inr raw" "length raw \<le> 11"
    using assms(2) by blast
  then have "unmarshal raw = Inr \<lparr>goaway_code = cvalue c, goaway_unknown = []\<rparr>"
    using assms(1) by (simp add: proto_roundtrip_def)
  with raw have "readControlFrame unmarshal goaway_unknown
      \<lparr>rdata = AppendFrame [] goAwayFrame raw @ rest, rend = e\<rparr> goAwayFrame =
    (Inr \<lparr>goaway_code = cvalue c, goaway_unknown = []\<rparr>, \<lparr>rdata = rest, rend = e\<rparr>)"
    by (intro readControlFrame_AppendFrame) (auto simp: maxControlFrame_def)
  moreover have "(if cvalue c \<le> 0x7FFFFFFFFFFFFFFF then ParseCode (push_bit 1 (cvalue c)) else Unspecified) = c"
    using ReadGoAway_code [of "cvalue c"] n assms(3) by simp
  ultimately show "ReadGoAway unmarshal \<lparr>rdata = GoAwayBytes marshal c @ rest, rend = e\<rparr> =
      (Inr c, \<lparr>rdata = rest, rend = e\<rparr>)"
    using v raw(1) by (simp add: ReadGoAway_def GoAwayBytes_def split: if_splits)
next
  fix r c' r' assume "ReadGoAway unmarshal r = (Inr c', r')"
  then obtain msg :: goaway_msg where "(if goaway_code msg \<le> 0x7FFFFFFFFFFFFFFF then ParseCode (push_bit 1 (goaway_code msg))
      else Unspecified) = c'"
    unfolding ReadGoAway_def rthen_Inr if_distrib [of Inr, symmetric] prod.inject sum.inject by blast
  then show "\<not> cprotocol c'" "wf_code c'"
    unfolding ReadGoAway_code using wf_code_stack by blast+
qed

theorem GoAway_roundtrip_witness:
  "ReadGoAway goaway_unpack \<lparr>rdata = GoAwayBytes goaway_pack Closing @ [7], rend = EOF\<rparr> =
     (Inr Closing, \<lparr>rdata = [7], rend = EOF\<rparr>)"
  using GoAway_roundtrip [OF goaway_pack_roundtrip goaway_pack_total, of Closing "[7]" EOF]
  by (simp add: wf_code_def Closing_def stackCodeNames_def)

theorem ReadHello_accepts_witness:
  "ReadHello hello_unpack \<lparr>rdata = [0, 0, 0, 3, 10, 1, 5], rend = EOF\<rparr> =
     Some (Inr \<lparr>peer_families = [5], peer_record = []\<rparr>, \<lparr>rdata = [], rend = EOF\<rparr>) \<and> announceable [5]"
proof -
  let ?h = "\<lparr>peer_families = [5], peer_record = []\<rparr>" and ?r = "\<lparr>rdata = [0, 0, 0, 3, 10, 1, 5], rend = EOF\<rparr>"
  have "AppendSelector [] ControlSelector = [0, 0]" "AppendFrame [] helloFrame [10, 1, 5] = [0, 3, 10, 1, 5]"
    by (simp_all add: AppendFrame_eq AppendSelector_eq ControlSelector_def ControlFamily_def helloFrame_def
      uvarint.simps [of 0] uvarint.simps [of 3])
  then have "ReadHello hello_unpack ?r = Some (Inr ?h, \<lparr>rdata = [], rend = EOF\<rparr>)"
    using ReadSelector_Control [of "[0, 3, 10, 1, 5]" EOF]
      readControlFrame_AppendFrame [of "[10, 1, 5]" hello_unpack _ hello_unknown helloFrame "[]" EOF]
    by (simp add: ReadHello_def maxControlFrame_def ValidateFamilies_def MaxFamilies_def ControlFamily_def ReservedFamily_def)
  with ReadHello_accepts [of hello_unpack ?r ?h "\<lparr>rdata = [], rend = EOF\<rparr>"] show ?thesis by simp
qed

end
