(* ===== verification/RLP.thy ===== *)
theory RLP
  imports Prelude
begin

text \<open>
  \<open>src/enr/rlp.go\<close>: the RLP codec of node records. The decoder returns items that keep their
  raw bytes. The lemmas show that the decoder accepts exactly the encodings the encoder
  produces: for every input there is at most one tree, and it is found iff the input starts
  with that tree's canonical encoding.
\<close>

unbundle bit_operations_syntax

section \<open>Items\<close>

datatype rlpKind = RlpString | RlpList

datatype rlpItem = RlpItem (ikind: rlpKind) (ipayload: bytes) (iraw: bytes) (ichildren: "rlpItem list")

section \<open>Decoding\<close>

definition decodeLongLength :: "bytes \<Rightarrow> nat \<Rightarrow> goerr + nat \<times> nat" where
  "decodeLongLength input lengthBytes =
     (if 8 < lengthBytes \<or> length input < 1 + lengthBytes then Inl (ErrNew ''invalid RLP length prefix'')
      else let encoded = take lengthBytes (drop 1 input) in
        if encoded ! 0 = 0 then Inl (ErrNew ''non-canonical RLP length prefix'')
        else let len = foldl (\<lambda>len b. push_bit 8 len OR ucast b) (0 :: 64 word) encoded in
          if of_nat (length input) < len then Inl (ErrNew ''RLP length exceeds input'')
          else Inr (unat len, 1 + lengthBytes))"

lemma decodeLongLength_offset:
  "decodeLongLength input k = Inr (len, offset) \<Longrightarrow> offset = 1 + k \<and> offset \<le> length input"
  by (auto simp: decodeLongLength_def Let_def split: if_splits)

text \<open>
  \<open>decodeRLP\<close> and the loop of \<open>decodeRLPList\<close>, which collects the children of \<open>remaining\<close>;
  \<open>decodeRLPList\<close> itself wraps them into the list item.
\<close>

function decodeRLP :: "bytes \<Rightarrow> goerr + rlpItem \<times> bytes"
  and decodeRLPList_loop :: "bytes \<Rightarrow> goerr + rlpItem list" where
  "decodeRLP input =
     (if input = [] then Inl (ErrNew ''truncated RLP item'')
      else let prefix = input ! 0 in
        if prefix < 0x80 then Inr (RlpItem RlpString (take 1 input) (take 1 input) [], drop 1 input)
        else if prefix \<le> 0xb7 then
          (let len = unat (prefix - 0x80) in
           if length input < 1 + len then Inl (ErrNew ''truncated RLP string'')
           else let payload = take len (drop 1 input) in
             if len = 1 \<and> payload ! 0 < 0x80 then Inl (ErrNew ''non-canonical RLP string'')
             else Inr (RlpItem RlpString payload (take (1 + len) input) [], drop (1 + len) input))
        else if prefix \<le> 0xbf then
          (case decodeLongLength input (unat (prefix - 0xb7)) of
             Inl e \<Rightarrow> Inl e
           | Inr (len, offset) \<Rightarrow>
               if len < 56 then Inl (ErrNew ''non-canonical long RLP string'')
               else if length input - offset < len then Inl (ErrNew ''truncated RLP string'')
               else Inr (RlpItem RlpString (take len (drop offset input)) (take (offset + len) input) [],
                         drop (offset + len) input))
        else if prefix \<le> 0xf7 then
          (let len = unat (prefix - 0xc0) in
           if length input < 1 + len then Inl (ErrNew ''truncated RLP list'')
           else case decodeRLPList_loop (take len (drop 1 input)) of
                  Inl e \<Rightarrow> Inl e
                | Inr children \<Rightarrow>
                    Inr (RlpItem RlpList (take len (drop 1 input)) (take (1 + len) input) children,
                         drop (1 + len) input))
        else
          (case decodeLongLength input (unat (prefix - 0xf7)) of
             Inl e \<Rightarrow> Inl e
           | Inr (len, offset) \<Rightarrow>
               if len < 56 then Inl (ErrNew ''non-canonical long RLP list'')
               else if length input - offset < len then Inl (ErrNew ''truncated RLP list'')
               else case decodeRLPList_loop (take len (drop offset input)) of
                      Inl e \<Rightarrow> Inl e
                    | Inr children \<Rightarrow>
                        Inr (RlpItem RlpList (take len (drop offset input)) (take (offset + len) input) children,
                             drop (offset + len) input)))"
| "decodeRLPList_loop remaining =
     (if remaining = [] then Inr []
      else case decodeRLP remaining of
             Inl e \<Rightarrow> Inl e
           | Inr (child, rest) \<Rightarrow>
               (case decodeRLPList_loop rest of
                  Inl e \<Rightarrow> Inl e
                | Inr children \<Rightarrow> Inr (child # children)))"
  by pat_completeness auto

termination
proof -
  have shorter: "length rest < length input"
    if "decodeRLP_decodeRLPList_loop_dom (Inl input)" "decodeRLP input = Inr (item, rest)" for input item rest
    using that by (auto simp: decodeRLP.psimps Let_def dest!: decodeLongLength_offset split: if_splits sum.splits)
  show ?thesis
    by (relation "measure (case_sum (\<lambda>input. 2 * length input) (\<lambda>remaining. 2 * length remaining + 1))")
      (auto dest!: decodeLongLength_offset shorter)
qed

declare decodeRLP.simps [simp del] decodeRLPList_loop.simps [simp del]

lemma decodeRLP_Nil: "decodeRLP [] = Inl (ErrNew ''truncated RLP item'')"
  by (simp add: decodeRLP.simps)

lemma decodeRLP_less: "decodeRLP input = Inr (item, rest) \<Longrightarrow> length rest < length input"
  by (auto simp: decodeRLP.simps Let_def dest!: decodeLongLength_offset split: if_splits sum.splits)


text \<open>
  \<open>decodeUint\<close>, at the width of its result; the bound \<open>size\<close> is the number of bytes of that
  width.
\<close>

definition decodeUint :: "rlpItem \<Rightarrow> goerr + 'a::len word" where
  "decodeUint item =
     (if ikind item \<noteq> RlpString then Inl (ErrNew ''RLP integer is not a string'')
      else if LENGTH('a) div 8 < length (ipayload item) then Inl (ErrNew ''RLP integer exceeds its width'')
      else if 0 < length (ipayload item) \<and> ipayload item ! 0 = 0
      then Inl (ErrNew ''RLP integer has a leading zero'')
      else Inr (ucast (foldl (\<lambda>v b. push_bit 8 v OR ucast b) (0 :: 64 word) (ipayload item))))"

definition decodeSingleRLP :: "bytes \<Rightarrow> goerr + rlpItem" where
  "decodeSingleRLP raw =
     (case decodeRLP raw of
        Inl e \<Rightarrow> Inl e
      | Inr (item, rest) \<Rightarrow> if rest \<noteq> [] then Inl (ErrNew ''trailing bytes after RLP item'') else Inr item)"

definition decodeBytes :: "bytes \<Rightarrow> goerr + bytes" where
  "decodeBytes raw =
     (case decodeSingleRLP raw of
        Inl e \<Rightarrow> Inl e
      | Inr item \<Rightarrow> if ikind item \<noteq> RlpString then Inl (ErrNew ''RLP item is not a byte string'')
                    else Inr (ipayload item))"

section \<open>Encoding\<close>

text \<open>\<open>binary.BigEndian.PutUint64\<close>, and the loop that drops leading zero bytes but the last.\<close>

definition PutUint64 :: "64 word \<Rightarrow> bytes" where
  "PutUint64 v = map (\<lambda>i. ucast (drop_bit (8 * (7 - i)) v)) [0..<8]"

fun stripZeros :: "bytes \<Rightarrow> bytes" where
  "stripZeros (b # c # bs) = (if b = 0 then stripZeros (c # bs) else b # c # bs)"
| "stripZeros bs = bs"

definition encodeLongItem :: "byte \<Rightarrow> bytes \<Rightarrow> bytes" where
  "encodeLongItem offset payload =
     (let lengthBytes = stripZeros (PutUint64 (of_nat (length payload))) in
      (offset + of_nat (length lengthBytes)) # lengthBytes @ payload)"

definition encodeBytes :: "bytes \<Rightarrow> bytes" where
  "encodeBytes payload =
     (if length payload = 1 \<and> payload ! 0 < 0x80 then [payload ! 0]
      else if length payload \<le> 55 then (0x80 + of_nat (length payload)) # payload
      else encodeLongItem 0xb7 payload)"

definition encodeRLPList :: "bytes \<Rightarrow> bytes" where
  "encodeRLPList payload =
     (if length payload \<le> 55 then (0xc0 + of_nat (length payload)) # payload
      else encodeLongItem 0xf7 payload)"

definition encodeUint :: "'a::len word \<Rightarrow> bytes" where
  "encodeUint v =
     (if v = 0 then encodeBytes []
      else encodeBytes (dropWhile (\<lambda>b. b = 0) (PutUint64 (ucast v))))"

section \<open>Trees and their canonical encoding\<close>

datatype rlp = Str bytes | Lst "rlp list"

fun enc :: "rlp \<Rightarrow> bytes" where
  "enc (Str p) = encodeBytes p"
| "enc (Lst ts) = encodeRLPList (concat (map enc ts))"

fun item_of :: "rlp \<Rightarrow> rlpItem" where
  "item_of (Str p) = RlpItem RlpString p (encodeBytes p) []"
| "item_of (Lst ts) =
     RlpItem RlpList (concat (map enc ts)) (encodeRLPList (concat (map enc ts))) (map item_of ts)"

text \<open>The value of a big-endian byte string.\<close>

definition be_value :: "bytes \<Rightarrow> nat" where
  "be_value bs = foldl (\<lambda>n b. 256 * n + unat b) 0 bs"

text \<open>The shortest big-endian form of a number, and the payload of an integer item.\<close>

definition min_be :: "nat \<Rightarrow> bytes" where
  "min_be n = stripZeros (PutUint64 (of_nat n))"

definition uint_payload :: "nat \<Rightarrow> bytes" where
  "uint_payload n = (if n = 0 then [] else min_be n)"

section \<open>Big-endian integers\<close>

lemma be_value_snoc [simp]: "be_value (bs @ [b]) = 256 * be_value bs + unat b"
  by (simp add: be_value_def)

lemma be_value_Nil [simp]: "be_value [] = 0"
  by (simp add: be_value_def)

lemma unat_byte_less: "unat (b :: byte) < 256"
  using unsigned_less [of b] by simp

lemma be_value_lt: "be_value bs < 256 ^ length bs"
proof (induction bs rule: rev_induct)
  case (snoc b bs)
  then show ?case using unat_byte_less [of b] by simp
qed simp

lemma be_value_Cons: "be_value (b # bs) = unat b * 256 ^ length bs + be_value bs"
proof (induction bs rule: rev_induct)
  case (snoc c bs)
  then show ?case by (simp add: algebra_simps flip: append_Cons)
qed (simp add: be_value_def)

lemma be_value_ge: "bs \<noteq> [] \<Longrightarrow> hd bs \<noteq> 0 \<Longrightarrow> 256 ^ (length bs - 1) \<le> be_value bs"
proof (cases bs)
  case (Cons b cs)
  assume "hd bs \<noteq> 0"
  with Cons have "1 \<le> unat b" by (metis One_nat_def Suc_leI list.sel(1) neq0_conv unat_eq_0)
  then have "1 * 256 ^ length cs \<le> unat b * 256 ^ length cs" by (rule mult_le_mono1)
  also have "\<dots> \<le> be_value bs" using Cons by (simp add: be_value_Cons)
  finally show ?thesis using Cons by simp
qed simp

lemma be_value_inj: "length xs = length ys \<Longrightarrow> be_value xs = be_value ys \<Longrightarrow> xs = ys"
proof (induction xs arbitrary: ys rule: rev_induct)
  case (snoc x xs)
  then obtain y zs where ys: "ys = zs @ [y]" by (cases ys rule: rev_cases) auto
  with snoc.prems have "256 * be_value xs + unat x = 256 * be_value zs + unat y" by simp
  then have "(256 * be_value xs + unat x) div 256 = (256 * be_value zs + unat y) div 256"
    "(256 * be_value xs + unat x) mod 256 = (256 * be_value zs + unat y) mod 256" by simp_all
  then have "be_value xs = be_value zs" "unat x = unat y"
    using unat_byte_less [of x] unat_byte_less [of y] by simp_all
  with snoc ys show ?case by (auto intro: unsigned_word_eqI)
qed simp

lemma be_value_unique:
  assumes "xs \<noteq> []" "ys \<noteq> []" "hd xs \<noteq> 0" "hd ys \<noteq> 0" "be_value xs = be_value ys"
  shows "xs = ys"
proof -
  have a: "256 ^ (length xs - 1) < (256 :: nat) ^ length ys" "256 ^ (length ys - 1) < (256 :: nat) ^ length xs"
    using be_value_ge [of xs] be_value_ge [of ys] be_value_lt [of xs] be_value_lt [of ys] assms by linarith+
  then have "length xs - 1 < length ys" "length ys - 1 < length xs"
    by (auto dest: power_less_imp_less_exp [rotated])
  with assms have "length xs = length ys" by (cases xs; cases ys) auto
  then show ?thesis using assms(5) by (rule be_value_inj)
qed

lemma fold_be_value:
  "length bs \<le> 8 \<Longrightarrow> unat (foldl (\<lambda>v b. push_bit 8 v OR ucast b) (0 :: 64 word) bs) = be_value bs"
proof (induction bs rule: rev_induct)
  case (snoc b bs)
  let ?v = "foldl (\<lambda>v b. push_bit 8 v OR ucast b) (0 :: 64 word) bs"
  have v: "unat ?v = be_value bs" using snoc by simp
  have "be_value bs < 256 ^ length bs" by (rule be_value_lt)
  also have "(256 :: nat) ^ length bs \<le> 256 ^ 7" using snoc.prems by (intro power_increasing) auto
  finally have lt: "unat ?v < 2 ^ 56" using v by simp
  have b: "unat (ucast b :: 64 word) = unat b"
    using unat_byte_less [of b] by (simp add: unsigned_ucast_eq take_bit_nat_eq_self)
  have "unat (ucast b OR push_bit 8 ?v) = unat (ucast b :: 64 word) + unat ?v * 2 ^ 8"
    using lt b unat_byte_less [of b] by (intro unat_or_push_bit) simp_all
  then show ?case using v b by (simp add: or.commute)
qed simp


lemma be_value_map_div:
  "be_value (map (\<lambda>i. of_nat (n div 256 ^ (k - 1 - i))) [0..<k]) = n mod 256 ^ k"
proof (induction k arbitrary: n)
  case (Suc k)
  have m: "map (\<lambda>i. of_nat (n div 256 ^ (Suc k - 1 - i)) :: byte) [0..<k] =
        map (\<lambda>i. of_nat (n div 256 div 256 ^ (k - 1 - i))) [0..<k]"
  proof (rule map_cong [OF refl])
    fix i assume "i \<in> set [0..<k]"
    then have "Suc k - 1 - i = Suc (k - 1 - i)" by auto
    then show "(of_nat (n div 256 ^ (Suc k - 1 - i)) :: byte) = of_nat (n div 256 div 256 ^ (k - 1 - i))"
      by (simp add: div_mult2_eq)
  qed
  have "be_value (map (\<lambda>i. of_nat (n div 256 ^ (Suc k - 1 - i))) [0..<Suc k]) = 256 * (n div 256 mod 256 ^ k) + n mod 256"
    using Suc.IH [of "n div 256"] by (simp only: upt_Suc_append le0 map_append be_value_snoc list.map m)
      (simp add: unat_of_nat take_bit_eq_mod)
  then show ?case using mod_mult2_eq [of n 256 "256 ^ k"] by simp
qed simp

lemma PutUint64_div: "PutUint64 v = map (\<lambda>i. of_nat (unat v div 256 ^ (8 - 1 - i))) [0..<8]"
  unfolding PutUint64_def
proof (rule map_cong [OF refl])
  fix i :: nat
  have "(256 :: nat) ^ (8 - 1 - i) = 2 ^ (8 * (7 - i))" by (simp add: power_mult)
  moreover have "take_bit 64 (unat v) = unat v" using unat_bound [of v] by (simp add: take_bit_nat_eq_self)
  ultimately have "unat (drop_bit (8 * (7 - i)) v) = unat v div 256 ^ (8 - 1 - i)"
    unfolding unsigned_drop_bit_eq by (simp add: drop_bit_eq_div)
  then show "(ucast (drop_bit (8 * (7 - i)) v) :: byte) = of_nat (unat v div 256 ^ (8 - 1 - i))"
    by (metis unsigned_of_nat unsigned_of_nat ucast_id of_nat_unat)
qed

lemma be_value_PutUint64: "be_value (PutUint64 v) = unat v" "length (PutUint64 v) = 8"
proof -
  have "unat v < 2 ^ 64" using unsigned_less [of v] by simp
  then show "be_value (PutUint64 v) = unat v" "length (PutUint64 v) = 8"
    using be_value_map_div [of "unat v" 8] by (simp_all add: PutUint64_div)
qed

lemma be_value_stripZeros: "be_value (stripZeros bs) = be_value bs"
  by (induction bs rule: stripZeros.induct) (auto simp: be_value_Cons)

lemma stripZeros_dropWhile: "be_value bs \<noteq> 0 \<Longrightarrow> stripZeros bs = dropWhile (\<lambda>b. b = 0) bs"
  by (induction bs rule: stripZeros.induct) (auto simp: be_value_Cons)

lemma stripZeros_hd: "be_value bs \<noteq> 0 \<Longrightarrow> stripZeros bs \<noteq> [] \<and> hd (stripZeros bs) \<noteq> 0"
  by (induction bs rule: stripZeros.induct) (auto simp: be_value_Cons)

lemma length_stripZeros: "length (stripZeros bs) \<le> length bs"
  by (induction bs rule: stripZeros.induct) auto

lemma min_be:
  assumes "0 < n" "n < 2 ^ 64"
  shows "be_value (min_be n) = n" "min_be n \<noteq> []" "hd (min_be n) \<noteq> 0" "length (min_be n) \<le> 8"
proof -
  have "unat (of_nat n :: 64 word) = n" using assms by (simp add: unat_of_nat take_bit_nat_eq_self)
  then show "be_value (min_be n) = n" "min_be n \<noteq> []" "hd (min_be n) \<noteq> 0" "length (min_be n) \<le> 8"
    using stripZeros_hd [of "PutUint64 (of_nat n)"] length_stripZeros [of "PutUint64 (of_nat n)"] assms(1)
    by (simp_all add: min_be_def be_value_stripZeros be_value_PutUint64)
qed

lemma min_be_unique:
  assumes "bs \<noteq> []" "hd bs \<noteq> 0" "length bs \<le> 8"
  shows "min_be (be_value bs) = bs"
proof -
  have "be_value bs < 256 ^ length bs" by (rule be_value_lt)
  also have "(256 :: nat) ^ length bs \<le> 256 ^ 8" using assms by (intro power_increasing) auto
  finally have "be_value bs < 2 ^ 64" by simp
  moreover have "0 < be_value bs"
    using be_value_ge [OF assms(1,2)] by (rule less_le_trans [rotated]) simp
  ultimately show ?thesis using min_be [of "be_value bs"] assms by (intro be_value_unique) auto
qed

section \<open>Lengths\<close>

lemma decodeLongLength_iff:
  assumes "length input < 2 ^ 63" "0 < k" "k \<le> 8"
  shows "decodeLongLength input k = Inr (n, offset) \<longleftrightarrow>
    offset = 1 + k \<and> n \<le> length input \<and> 0 < n \<and> length (min_be n) = k \<and> (\<exists>rest. drop 1 input = min_be n @ rest)"
    (is "?L \<longleftrightarrow> ?R")
proof
  assume L: ?L
  let ?e = "take k (drop 1 input)"
  let ?v = "foldl (\<lambda>len b. push_bit 8 len OR ucast b) (0 :: 64 word) ?e"
  have e: "length ?e = k" "?e ! 0 \<noteq> 0" "\<not> of_nat (length input) < ?v" "n = unat ?v" "offset = 1 + k"
    using L assms by (auto simp: decodeLongLength_def Let_def split: if_splits)
  have n: "n = be_value ?e" using fold_be_value [of ?e] e(1,4) assms(3) by simp
  have ne: "?e \<noteq> []" using e(1) assms(2) by (metis length_greater_0_conv)
  have mb: "min_be n = ?e" unfolding n using e(1,2) assms(3) ne by (intro min_be_unique) (auto simp: hd_conv_nth)
  have "n \<le> length input"
    using e(3,4) assms(1) by (simp add: word_less_nat_alt unat_of_nat take_bit_nat_eq_self)
  moreover have "0 < n"
    using be_value_ge [of ?e] ne e(2) n by (metis gr0I hd_conv_nth le_zero_eq power_not_zero zero_neq_numeral)
  moreover have "drop 1 input = min_be n @ drop k (drop 1 input)" unfolding mb by (rule append_take_drop_id [symmetric])
  ultimately show ?R using mb e(1,5) by auto
next
  assume R: ?R
  then obtain rest where i: "drop 1 input = min_be n @ rest" by blast
  have n: "be_value (min_be n) = n" "min_be n \<noteq> []" "hd (min_be n) \<noteq> 0" using min_be [of n] R assms(1) by auto
  have t: "take k (drop 1 input) = min_be n" using i R by simp
  have "length (drop 1 input) \<ge> k" using i R by simp
  moreover have "unat (foldl (\<lambda>len b. push_bit 8 len OR ucast b) (0 :: 64 word) (min_be n)) = n"
    using fold_be_value [of "min_be n"] n(1) R assms(3) by simp
  ultimately show ?L unfolding decodeLongLength_def t using assms R n
    by (auto simp: Let_def hd_conv_nth word_less_nat_alt unat_of_nat take_bit_nat_eq_self)
qed


text \<open>The five shapes of an encoded item, by its first byte.\<close>

lemma encodeBytes_long: "55 < length p \<Longrightarrow>
  encodeBytes p = (0xb7 + of_nat (length (min_be (length p)))) # min_be (length p) @ p"
  by (simp add: encodeBytes_def encodeLongItem_def min_be_def Let_def)

lemma encodeRLPList_long: "55 < length p \<Longrightarrow>
  encodeRLPList p = (0xf7 + of_nat (length (min_be (length p)))) # min_be (length p) @ p"
  by (simp add: encodeRLPList_def encodeLongItem_def min_be_def Let_def)

lemma byte_plus: "n < 256 - unat a \<Longrightarrow> unat (a + of_nat n :: byte) = unat a + n"
proof -
  assume n: "n < 256 - unat a"
  then have "unat (of_nat n :: byte) = n" by (simp add: unat_of_nat take_bit_nat_eq_self)
  with n show ?thesis by (simp add: unat_plus_simple [THEN iffD1] word_le_nat_alt unat_word_ariths)
qed

lemma byte_minus: "a \<le> b \<Longrightarrow> unat (b - a :: byte) = unat b - unat a"
  by (simp add: unat_sub word_le_nat_alt)


lemma prefix_minus: "a + of_nat (unat (x - a)) = (x :: byte)"
  by simp

lemmas byte_order = word_le_nat_alt word_less_nat_alt

lemma decodeRLP_prefix1: "x < 0x80 \<Longrightarrow> decodeRLP (x # xs) = Inr (RlpItem RlpString [x] [x] [], xs)"
  by (simp add: decodeRLP.simps)

lemma decodeRLP_prefix2:
  assumes "0x80 \<le> x" "x \<le> 0xb7"
  shows "decodeRLP (x # xs) = Inr (item, rest) \<longleftrightarrow>
    (\<exists>p. xs = p @ rest \<and> length p = unat (x - 0x80) \<and> \<not> (length p = 1 \<and> p ! 0 < 0x80) \<and>
       item = RlpItem RlpString p (x # p) [])"
    (is "_ \<longleftrightarrow> ?R")
proof -
  let ?n = "unat (x - 0x80)"
  have "\<not> x < 0x80" using assms by simp
  then have "decodeRLP (x # xs) =
    (if length xs < ?n then Inl (ErrNew ''truncated RLP string'')
     else if ?n = 1 \<and> take ?n xs ! 0 < 0x80 then Inl (ErrNew ''non-canonical RLP string'')
     else Inr (RlpItem RlpString (take ?n xs) (x # take ?n xs) [], drop ?n xs))"
    using assms by (auto simp: decodeRLP.simps [of "x # xs"] Let_def)
  also have "\<dots> = Inr (item, rest) \<longleftrightarrow> ?R"
    by (auto intro: exI [of _ "take ?n xs"])
  finally show ?thesis .
qed

lemma decodeRLP_prefix3:
  assumes "0xb7 < x" "x \<le> 0xbf" "length (x # xs) < 2 ^ 63"
  shows "decodeRLP (x # xs) = Inr (item, rest) \<longleftrightarrow>
    (\<exists>p. xs = min_be (length p) @ p @ rest \<and> 56 \<le> length p \<and> length (min_be (length p)) = unat (x - 0xb7) \<and>
       item = RlpItem RlpString p (x # min_be (length p) @ p) [])"
    (is "_ \<longleftrightarrow> ?R")
proof -
  let ?k = "unat (x - 0xb7)"
  have x: "\<not> x < 0x80" "\<not> x \<le> 0xb7" using assms by (auto simp: byte_order)
  have k: "0 < ?k" "?k \<le> 8" using assms by (auto simp: byte_order byte_minus)
  have "decodeRLP (x # xs) = Inr (item, rest) \<longleftrightarrow>
    (\<exists>n off. decodeLongLength (x # xs) ?k = Inr (n, off) \<and> 56 \<le> n \<and> n \<le> length (x # xs) - off \<and>
      item = RlpItem RlpString (take n (drop off (x # xs))) (take (off + n) (x # xs)) [] \<and>
      rest = drop (off + n) (x # xs))"
    using assms x by (auto simp: decodeRLP.simps [of "x # xs"] Let_def split: sum.splits if_splits)
  also have "\<dots> \<longleftrightarrow> ?R"
  proof -
    have "?R" if "decodeLongLength (x # xs) ?k = Inr (n, off)" "56 \<le> n" "n \<le> length (x # xs) - off"
      "item = RlpItem RlpString (take n (drop off (x # xs))) (take (off + n) (x # xs)) []"
      "rest = drop (off + n) (x # xs)" for n off
      using that k assms(3)
      by (auto simp: decodeLongLength_iff intro!: exI [of _ "take n (drop (length (min_be n)) xs)"])
    moreover have "decodeLongLength (x # min_be (length p) @ p @ rest) ?k = Inr (length p, 1 + ?k)"
      if "xs = min_be (length p) @ p @ rest" "56 \<le> length p" "length (min_be (length p)) = ?k" for p
      using that k assms(3) by (subst decodeLongLength_iff) auto
    ultimately show ?thesis by fastforce
  qed
  finally show ?thesis .
qed

lemma decodeRLP_prefix4:
  assumes "0xbf < x" "x \<le> 0xf7"
  shows "decodeRLP (x # xs) = Inr (item, rest) \<longleftrightarrow>
    (\<exists>p cs. xs = p @ rest \<and> length p = unat (x - 0xc0) \<and> decodeRLPList_loop p = Inr cs \<and>
       item = RlpItem RlpList p (x # p) cs)"
    (is "_ \<longleftrightarrow> ?R")
proof -
  let ?n = "unat (x - 0xc0)"
  have "\<not> x < 0x80" "\<not> x \<le> 0xb7" "\<not> x \<le> 0xbf" using assms by (auto simp: byte_order)
  then have "decodeRLP (x # xs) =
    (if length xs < ?n then Inl (ErrNew ''truncated RLP list'')
     else case decodeRLPList_loop (take ?n xs) of
            Inl e \<Rightarrow> Inl e
          | Inr cs \<Rightarrow> Inr (RlpItem RlpList (take ?n xs) (x # take ?n xs) cs, drop ?n xs))"
    using assms by (simp add: decodeRLP.simps [of "x # xs"] Let_def split: sum.split)
  also have "\<dots> = Inr (item, rest) \<longleftrightarrow> ?R"
    by (auto split: sum.splits intro!: exI [of _ "take ?n xs"])
  finally show ?thesis .
qed

lemma decodeRLP_prefix5:
  assumes "0xf7 < x" "length (x # xs) < 2 ^ 63"
  shows "decodeRLP (x # xs) = Inr (item, rest) \<longleftrightarrow>
    (\<exists>p cs. xs = min_be (length p) @ p @ rest \<and> 56 \<le> length p \<and> length (min_be (length p)) = unat (x - 0xf7) \<and>
       decodeRLPList_loop p = Inr cs \<and> item = RlpItem RlpList p (x # min_be (length p) @ p) cs)"
    (is "_ \<longleftrightarrow> ?R")
proof -
  let ?k = "unat (x - 0xf7)"
  have x: "\<not> x < 0x80" "\<not> x \<le> 0xb7" "\<not> x \<le> 0xbf" "\<not> x \<le> 0xf7" using assms by (auto simp: byte_order)
  have k: "0 < ?k" "?k \<le> 8" using assms unat_bound [of x] by (auto simp: byte_order byte_minus)
  have "decodeRLP (x # xs) = Inr (item, rest) \<longleftrightarrow>
    (\<exists>n off cs. decodeLongLength (x # xs) ?k = Inr (n, off) \<and> 56 \<le> n \<and> n \<le> length (x # xs) - off \<and>
      decodeRLPList_loop (take n (drop off (x # xs))) = Inr cs \<and>
      item = RlpItem RlpList (take n (drop off (x # xs))) (take (off + n) (x # xs)) cs \<and>
      rest = drop (off + n) (x # xs))"
    using assms x by (auto simp: decodeRLP.simps [of "x # xs"] Let_def split: sum.splits if_splits)
  also have "\<dots> \<longleftrightarrow> ?R"
  proof -
    have "?R" if "decodeLongLength (x # xs) ?k = Inr (n, off)" "56 \<le> n" "n \<le> length (x # xs) - off"
      "decodeRLPList_loop (take n (drop off (x # xs))) = Inr cs"
      "item = RlpItem RlpList (take n (drop off (x # xs))) (take (off + n) (x # xs)) cs"
      "rest = drop (off + n) (x # xs)" for n off cs
      using that k assms(2)
      by (auto simp: decodeLongLength_iff intro!: exI [of _ "take n (drop (length (min_be n)) xs)"])
    moreover have "decodeLongLength (x # min_be (length p) @ p @ rest) ?k = Inr (length p, 1 + ?k)"
      if "xs = min_be (length p) @ p @ rest" "56 \<le> length p" "length (min_be (length p)) = ?k" for p
      using that k assms(2) by (subst decodeLongLength_iff) auto
    ultimately show ?thesis by fastforce
  qed
  finally show ?thesis .
qed

section \<open>Strings and lists\<close>

lemma min_be_56:
  assumes "55 < n" "n < 2 ^ 63"
  shows "0 < length (min_be n)" "length (min_be n) \<le> 8"
  using min_be [of n] assms by auto

lemma decodeRLP_encodeBytes:
  assumes "length (encodeBytes p @ rest) < 2 ^ 63"
  shows "decodeRLP (encodeBytes p @ rest) = Inr (RlpItem RlpString p (encodeBytes p) [], rest)"
proof -
  consider (one) "length p = 1" "p ! 0 < 0x80"
    | (short) "\<not> (length p = 1 \<and> p ! 0 < 0x80)" "length p \<le> 55"
    | (long) "55 < length p" by linarith
  then show ?thesis
  proof cases
    case one
    then obtain b where "p = [b]" by (auto simp: length_Suc_conv)
    with one show ?thesis by (simp add: encodeBytes_def decodeRLP_prefix1)
  next
    case short
    let ?x = "0x80 + of_nat (length p) :: byte"
    have x: "unat ?x = 128 + length p" using short byte_plus [of "length p" "0x80"] by simp
    then have "0x80 \<le> ?x" "?x \<le> 0xb7" using short by (auto simp: byte_order)
    moreover have "unat (?x - 0x80) = length p" using short by (simp add: unat_of_nat take_bit_nat_eq_self)
    ultimately show ?thesis using short
      by (auto simp: encodeBytes_def decodeRLP_prefix2 simp del: add_diff_cancel_left')
  next
    case long
    let ?m = "min_be (length p)"
    let ?x = "0xb7 + of_nat (length ?m) :: byte"
    have lp: "length p < 2 ^ 63" using assms by (simp add: encodeBytes_long [OF long])
    note m = min_be_56 [OF long lp]
    have x: "unat ?x = 183 + length ?m" using m byte_plus [of "length ?m" "0xb7"] by simp
    then have "0xb7 < ?x" "?x \<le> 0xbf" using m by (auto simp: byte_order)
    moreover have "unat (?x - 0xb7) = length ?m" using m by (simp add: unat_of_nat take_bit_nat_eq_self)
    ultimately show ?thesis using long assms
      by (auto simp: encodeBytes_long decodeRLP_prefix3 simp del: add_diff_cancel_left')
  qed
qed

lemma decodeRLP_encodeRLPList:
  assumes "length (encodeRLPList p @ rest) < 2 ^ 63" and "decodeRLPList_loop p = Inr cs"
  shows "decodeRLP (encodeRLPList p @ rest) = Inr (RlpItem RlpList p (encodeRLPList p) cs, rest)"
proof (cases "length p \<le> 55")
  case True
  let ?x = "0xc0 + of_nat (length p) :: byte"
  have x: "unat ?x = 192 + length p" using True byte_plus [of "length p" "0xc0"] by simp
  then have "0xbf < ?x" "?x \<le> 0xf7" using True by (auto simp: byte_order)
  moreover have "unat (?x - 0xc0) = length p" using True by (simp add: unat_of_nat take_bit_nat_eq_self)
  ultimately show ?thesis using True assms(2)
    by (auto simp: encodeRLPList_def decodeRLP_prefix4 simp del: add_diff_cancel_left')
next
  case False
  then have long: "55 < length p" by simp
  let ?m = "min_be (length p)"
  let ?x = "0xf7 + of_nat (length ?m) :: byte"
  have lp: "length p < 2 ^ 63" using assms by (simp add: encodeRLPList_long [OF long])
  note m = min_be_56 [OF long lp]
  have x: "unat ?x = 247 + length ?m" using m byte_plus [of "length ?m" "0xf7"] by simp
  then have "0xf7 < ?x" using m by (auto simp: byte_order)
  moreover have "unat (?x - 0xf7) = length ?m" using m by (simp add: unat_of_nat take_bit_nat_eq_self)
  ultimately show ?thesis using long assms
    by (auto simp: encodeRLPList_long decodeRLP_prefix5 simp del: add_diff_cancel_left')
qed

lemma decodeRLP_InrE:
  assumes "decodeRLP input = Inr (item, rest)" and "length input < 2 ^ 63"
  obtains (string) p where "input = encodeBytes p @ rest" "item = RlpItem RlpString p (encodeBytes p) []"
    | (list) p cs where "input = encodeRLPList p @ rest" "decodeRLPList_loop p = Inr cs"
        "item = RlpItem RlpList p (encodeRLPList p) cs" "length p < length input"
proof -
  obtain x xs where input: "input = x # xs" using assms(1) by (cases input) (auto simp: decodeRLP.simps)
  have undo: "a + of_nat (unat (x - a)) = x" for a
    by simp
  consider "x < 0x80" | "0x80 \<le> x" "x \<le> 0xb7" | "0xb7 < x" "x \<le> 0xbf" | "0xbf < x" "x \<le> 0xf7" | "0xf7 < x"
    by fastforce
  then show ?thesis
  proof cases
    case 1
    with assms(1) show ?thesis by (intro string [of "[x]"]) (auto simp: input decodeRLP_prefix1 encodeBytes_def)
  next
    case 2
    then obtain p where p: "xs = p @ rest" "length p = unat (x - 0x80)" "\<not> (length p = 1 \<and> p ! 0 < 0x80)"
      "item = RlpItem RlpString p (x # p) []" using assms(1) unfolding input by (auto simp: decodeRLP_prefix2)
    moreover have "length p \<le> 55" using 2 p(2) by (simp add: byte_minus byte_order)
    ultimately have "encodeBytes p = x # p" using undo [of "0x80"] by (auto simp: encodeBytes_def)
    with p show ?thesis by (intro string [of p]) (simp_all add: input)
  next
    case 3
    then obtain p where p: "xs = min_be (length p) @ p @ rest" "56 \<le> length p"
      "length (min_be (length p)) = unat (x - 0xb7)" "item = RlpItem RlpString p (x # min_be (length p) @ p) []"
      using assms unfolding input by (auto simp: decodeRLP_prefix3)
    then have "encodeBytes p = x # min_be (length p) @ p" using undo [of "0xb7"] by (simp add: encodeBytes_long)
    with p show ?thesis by (intro string [of p]) (simp_all add: input)
  next
    case 4
    then obtain p cs where p: "xs = p @ rest" "length p = unat (x - 0xc0)" "decodeRLPList_loop p = Inr cs"
      "item = RlpItem RlpList p (x # p) cs" using assms(1) unfolding input by (auto simp: decodeRLP_prefix4)
    moreover have "length p \<le> 55" using 4 p(2) by (simp add: byte_minus byte_order)
    ultimately have "encodeRLPList p = x # p" using undo [of "0xc0"] by (simp add: encodeRLPList_def)
    with p show ?thesis by (intro list [of p cs]) (simp_all add: input)
  next
    case 5
    then obtain p cs where p: "xs = min_be (length p) @ p @ rest" "56 \<le> length p"
      "length (min_be (length p)) = unat (x - 0xf7)" "decodeRLPList_loop p = Inr cs"
      "item = RlpItem RlpList p (x # min_be (length p) @ p) cs"
      using assms unfolding input by (auto simp: decodeRLP_prefix5)
    then have "encodeRLPList p = x # min_be (length p) @ p" using undo [of "0xf7"] by (simp add: encodeRLPList_long)
    with p show ?thesis by (intro list [of p cs]) (simp_all add: input)
  qed
qed


section \<open>Trees\<close>

lemma decodeRLPList_loop_complete:
  assumes "\<And>t rest. t \<in> set ts \<Longrightarrow> length (enc t @ rest) < 2 ^ 63 \<Longrightarrow> decodeRLP (enc t @ rest) = Inr (item_of t, rest)"
    and "length (concat (map enc ts)) < 2 ^ 63"
  shows "decodeRLPList_loop (concat (map enc ts)) = Inr (map item_of ts)"
  using assms
proof (induction ts)
  case Nil
  then show ?case by (simp add: decodeRLPList_loop.simps)
next
  case (Cons t ts)
  have d: "decodeRLP (enc t @ concat (map enc ts)) = Inr (item_of t, concat (map enc ts))"
    using Cons.prems(2) by (intro Cons.prems(1)) auto
  then have "enc t @ concat (map enc ts) \<noteq> []" using decodeRLP_Nil by (metis sum.distinct(1))
  moreover have "decodeRLPList_loop (concat (map enc ts)) = Inr (map item_of ts)"
    using Cons.prems by (intro Cons.IH) auto
  ultimately show ?case using d by (simp add: decodeRLPList_loop.simps [of "enc t @ _"])
qed

lemma length_encodeRLPList: "length p < length (encodeRLPList p)"
  by (simp add: encodeRLPList_def encodeLongItem_def Let_def)

lemma decodeRLP_enc: "length (enc t @ rest) < 2 ^ 63 \<Longrightarrow> decodeRLP (enc t @ rest) = Inr (item_of t, rest)"
proof (induction t arbitrary: rest)
  case (Str p)
  then show ?case by (simp add: decodeRLP_encodeBytes)
next
  case (Lst ts)
  have "length (concat (map enc ts)) < 2 ^ 63"
    using Lst.prems length_encodeRLPList [of "concat (map enc ts)"] by simp
  then have "decodeRLPList_loop (concat (map enc ts)) = Inr (map item_of ts)"
    by (intro decodeRLPList_loop_complete Lst.IH)
  then show ?case using Lst.prems decodeRLP_encodeRLPList by simp
qed

lemma decodeRLPList_loop_sound:
  assumes "\<And>input item rest. length input \<le> length p \<Longrightarrow> decodeRLP input = Inr (item, rest) \<Longrightarrow>
      \<exists>t. input = enc t @ rest \<and> item = item_of t"
    and "decodeRLPList_loop p = Inr cs"
  shows "\<exists>ts. p = concat (map enc ts) \<and> cs = map item_of ts"
  using assms
proof (induction p arbitrary: cs rule: length_induct)
  case (1 p)
  show ?case
  proof (cases "p = []")
    case True
    with "1.prems"(2) show ?thesis by (intro exI [of _ "[]"]) (simp add: decodeRLPList_loop.simps)
  next
    case False
    with "1.prems"(2) obtain child rest ds where
      d: "decodeRLP p = Inr (child, rest)" "decodeRLPList_loop rest = Inr ds" "cs = child # ds"
      by (auto simp: decodeRLPList_loop.simps [of p] split: sum.splits)
    from "1.prems"(1) [OF _ d(1)] obtain t where t: "p = enc t @ rest" "child = item_of t" by auto
    have lt: "length rest < length p" using d(1) by (rule decodeRLP_less)
    then have "\<exists>ts. rest = concat (map enc ts) \<and> ds = map item_of ts"
      using "1.IH" "1.prems"(1) d(2) by (meson dual_order.trans less_imp_le_nat)
    then obtain ts where "rest = concat (map enc ts)" "ds = map item_of ts" by blast
    with t d(3) show ?thesis by (intro exI [of _ "t # ts"]) simp
  qed
qed

lemma decodeRLP_sound:
  "decodeRLP input = Inr (item, rest) \<Longrightarrow> length input < 2 ^ 63 \<Longrightarrow> \<exists>t. input = enc t @ rest \<and> item = item_of t"
proof (induction input arbitrary: item rest rule: length_induct)
  case (1 input)
  from "1.prems" show ?case
  proof (cases rule: decodeRLP_InrE)
    case (string p)
    then show ?thesis by (intro exI [of _ "Str p"]) simp
  next
    case (list p cs)
    have "\<exists>ts. p = concat (map enc ts) \<and> cs = map item_of ts"
    proof (rule decodeRLPList_loop_sound [OF _ list(2)])
      fix i :: bytes and it r assume "length i \<le> length p" "decodeRLP i = Inr (it, r)"
      with list(4) "1.prems"(2) "1.IH" show "\<exists>t. i = enc t @ r \<and> it = item_of t" by simp
    qed
    then obtain ts where "p = concat (map enc ts)" "cs = map item_of ts" by blast
    with list show ?thesis by (intro exI [of _ "Lst ts"]) simp
  qed
qed

lemma iraw_item_of [simp]: "iraw (item_of t) = enc t"
  by (cases t) simp_all

lemma decodeSingleRLP_iff:
  "length raw < 2 ^ 63 \<Longrightarrow> decodeSingleRLP raw = Inr item \<longleftrightarrow> (\<exists>t. raw = enc t \<and> item = item_of t)"
  using decodeRLP_sound [of raw item "[]"] decodeRLP_enc [of _ "[]"]
  by (fastforce simp: decodeSingleRLP_def split: sum.splits if_splits)

lemma decodeBytes_item:
  "decodeBytes raw = Inr p \<longleftrightarrow> (\<exists>item. decodeSingleRLP raw = Inr item \<and> ikind item = RlpString \<and> ipayload item = p)"
  by (auto simp: decodeBytes_def split: sum.splits)

lemma decodeBytes_iff: "length raw < 2 ^ 63 \<Longrightarrow> decodeBytes raw = Inr p \<longleftrightarrow> raw = encodeBytes p"
proof -
  assume raw: "length raw < 2 ^ 63"
  have "decodeBytes raw = Inr p \<longleftrightarrow> (\<exists>t. raw = enc t \<and> ikind (item_of t) = RlpString \<and> ipayload (item_of t) = p)"
    using raw by (auto simp: decodeBytes_item decodeSingleRLP_iff)
  also have "\<dots> \<longleftrightarrow> raw = encodeBytes p"
  proof -
    have "ikind (item_of t) = RlpString \<and> ipayload (item_of t) = p \<longleftrightarrow> t = Str p" for t by (cases t) auto
    then show ?thesis by auto
  qed
  finally show ?thesis .
qed

section \<open>Integers\<close>

lemma encodeUint_eq:
  fixes v :: "'a::len word"
  assumes "LENGTH('a) \<le> 64"
  shows "encodeUint v = encodeBytes (uint_payload (unat v))"
proof (cases "v = 0")
  case True
  then show ?thesis by (simp add: encodeUint_def uint_payload_def)
next
  case False
  have "unat v < 2 ^ LENGTH('a)" by (rule unat_bound)
  also have "(2 :: nat) ^ LENGTH('a) \<le> 2 ^ 64" using assms by (intro power_increasing) auto
  finally have "unat (ucast v :: 64 word) = unat v" by (simp add: unsigned_ucast_eq take_bit_nat_eq_self)
  then have "(ucast v :: 64 word) = of_nat (unat v)" "be_value (PutUint64 (ucast v)) = unat v"
    by (simp_all add: be_value_PutUint64)
  moreover have "unat v \<noteq> 0" using False by (simp add: unat_eq_0)
  ultimately show ?thesis using False stripZeros_dropWhile [of "PutUint64 (ucast v)"]
    by (simp add: encodeUint_def uint_payload_def min_be_def)
qed

lemma uint_payload_be_value:
  "length p \<le> 8 \<Longrightarrow> (0 < length p \<longrightarrow> p ! 0 \<noteq> 0) \<Longrightarrow> uint_payload (be_value p) = p"
proof (cases "p = []")
  case False
  assume a: "length p \<le> 8" "0 < length p \<longrightarrow> p ! 0 \<noteq> 0"
  with False have h: "hd p \<noteq> 0" by (simp add: hd_conv_nth)
  have "be_value p \<noteq> 0" using be_value_ge [OF False h] by (metis le_zero_eq power_not_zero zero_neq_numeral)
  with min_be_unique [OF False h a(1)] show ?thesis by (simp add: uint_payload_def)
qed (simp add: uint_payload_def)

lemma length_min_be:
  assumes "0 < n" "n < 256 ^ k" "k \<le> 8"
  shows "length (min_be n) \<le> k"
proof (rule ccontr)
  assume "\<not> length (min_be n) \<le> k"
  then have k: "k \<le> length (min_be n) - 1" by simp
  have "(256 :: nat) ^ k \<le> 256 ^ 8" using assms(3) by (intro power_increasing) auto
  then have "n < 2 ^ 64" using assms(2) by simp
  then have "256 ^ (length (min_be n) - 1) \<le> n" using be_value_ge [of "min_be n"] min_be [of n] assms(1) by auto
  moreover have "(256 :: nat) ^ k \<le> 256 ^ (length (min_be n) - 1)" using k by (intro power_increasing) auto
  ultimately show False using assms(2) by linarith
qed

lemma decodeUint_iff:
  fixes v :: "'a::len word"
  assumes "LENGTH('a) = 8 * k" "k \<le> 8"
  shows "decodeUint item = Inr v \<longleftrightarrow> ikind item = RlpString \<and> ipayload item = uint_payload (unat v)"
proof
  assume d: "decodeUint item = Inr v"
  let ?p = "ipayload item"
  let ?v = "foldl (\<lambda>v b. push_bit 8 v OR ucast b) (0 :: 64 word) ?p"
  have p: "ikind item = RlpString" "length ?p \<le> k" "0 < length ?p \<longrightarrow> ?p ! 0 \<noteq> 0" "v = ucast ?v"
    using d assms(1) by (auto simp: decodeUint_def split: if_splits)
  have v: "unat ?v = be_value ?p" using fold_be_value [of ?p] p(2) assms(2) by simp
  have "be_value ?p < 256 ^ length ?p" by (rule be_value_lt)
  also have "(256 :: nat) ^ length ?p \<le> 256 ^ k" using p(2) by (intro power_increasing) auto
  also have "(256 :: nat) ^ k = 2 ^ LENGTH('a)" using assms(1) by (simp add: power_mult)
  finally have "unat v = be_value ?p" using v p(4) by (simp add: unsigned_ucast_eq take_bit_nat_eq_self)
  then show "ikind item = RlpString \<and> ?p = uint_payload (unat v)"
    using uint_payload_be_value [of ?p] p assms(2) by simp
next
  assume i: "ikind item = RlpString \<and> ipayload item = uint_payload (unat v)"
  have vk: "unat v < 256 ^ k" using unat_bound [of v] assms(1) by (simp add: power_mult)
  have "(256 :: nat) ^ k \<le> 256 ^ 8" using assms(2) by (intro power_increasing) auto
  with vk have v64: "unat v < 2 ^ 64" by simp
  have p: "length (ipayload item) \<le> k" "0 < length (ipayload item) \<longrightarrow> ipayload item ! 0 \<noteq> 0" "be_value (ipayload item) = unat v"
    using i length_min_be [OF _ vk assms(2)] min_be [OF _ v64] by (auto simp: uint_payload_def hd_conv_nth)
  then have "unat (foldl (\<lambda>v b. push_bit 8 v OR ucast b) (0 :: 64 word) (ipayload item)) = unat v"
    using fold_be_value [of "ipayload item"] assms(2) by simp
  then have "ucast (foldl (\<lambda>v b. push_bit 8 v OR ucast b) (0 :: 64 word) (ipayload item)) = v"
    using unat_bound [of v] by (intro unsigned_word_eqI [where ?'a = nat]) (simp add: unsigned_ucast_eq take_bit_nat_eq_self)
  then show "decodeUint item = Inr v" using p i assms(1) by (auto simp: decodeUint_def)
qed


section \<open>Properties\<close>

text \<open>
  C19 (canonical RLP): on every input the decoder terminates, and it returns an item and a rest
  exactly when the input is the encoder's output for one tree followed by that rest; the item
  then carries that tree's kind, payload, raw bytes and children. So no two encodings of one
  tree are accepted.
\<close>
theorem decodeRLP_iff:
  assumes "length input < 2 ^ 63"
  shows "decodeRLP input = Inr (item, rest) \<longleftrightarrow> (\<exists>t. input = enc t @ rest \<and> item = item_of t)"
  using decodeRLP_sound [of input item rest] decodeRLP_enc [of _ rest] assms by auto

theorem decodeRLP_iff_witness:
  "decodeRLP [0xc2, 0x05, 0x80, 0xff] =
     Inr (RlpItem RlpList [5, 0x80] [0xc2, 5, 0x80] [RlpItem RlpString [5] [5] [], RlpItem RlpString [] [0x80] []], [0xff])"
  by (subst decodeRLP_iff) (auto simp: encodeBytes_def encodeRLPList_def intro!: exI [of _ "Lst [Str [5], Str []]"])

text \<open>
  C32 (RLP strings and integers): a byte string decodes from exactly its own encoding, and an
  unsigned integer of a width of whole bytes up to 64 bits decodes from exactly the item that
  \<open>encodeUint\<close> encodes: no leading zero and no wider value passes.
\<close>
theorem decodeUint_encodeUint:
  fixes v :: "'a::len word"
  assumes "LENGTH('a) = 8 * k" "k \<le> 8" "length raw < 2 ^ 63"
  shows "(decodeBytes raw = Inr p \<longleftrightarrow> raw = encodeBytes p) \<and>
    ((\<exists>item. decodeSingleRLP raw = Inr item \<and> decodeUint item = Inr v) \<longleftrightarrow> raw = encodeUint v)"
proof (intro conjI)
  show "decodeBytes raw = Inr p \<longleftrightarrow> raw = encodeBytes p" by (rule decodeBytes_iff [OF assms(3)])
  have "(\<exists>item. decodeSingleRLP raw = Inr item \<and> decodeUint item = Inr v) \<longleftrightarrow>
    decodeBytes raw = Inr (uint_payload (unat v))"
    by (simp add: decodeBytes_item decodeUint_iff [OF assms(1,2)])
  also have "\<dots> \<longleftrightarrow> raw = encodeUint v"
    using assms by (simp add: decodeBytes_iff encodeUint_eq)
  finally show "(\<exists>item. decodeSingleRLP raw = Inr item \<and> decodeUint item = Inr v) \<longleftrightarrow> raw = encodeUint v" .
qed

theorem decodeUint_encodeUint_witness:
  "decodeBytes (encodeUint (0x1234 :: 16 word)) = Inr [0x12, 0x34] \<and>
   (\<exists>item. decodeSingleRLP (encodeUint (0x1234 :: 16 word)) = Inr item \<and> decodeUint item = Inr (0x1234 :: 16 word))"
proof -
  have e: "encodeUint (0x1234 :: 16 word) = [0x82, 0x12, 0x34]" by code_simp
  have "encodeBytes [0x12, 0x34] = [0x82, 0x12, 0x34]" by code_simp
  then show ?thesis
    using decodeUint_encodeUint [of 2 "encodeUint (0x1234 :: 16 word)" "[0x12, 0x34]" "0x1234 :: 16 word"] e by simp
qed

end
