(* ===== verification/Identity.thy ===== *)
theory Identity
  imports Uvarint Sha256
begin

text \<open>
  \<open>src/identity/identity.go\<close>: secp256k1 identity keys, their libp2p encoding and peer IDs. The
  curve library and the protobuf wire library are parameters, each a record of the functions
  the code calls; \<open>protowire_ok\<close> and \<open>secp_ok\<close> state what their documentation promises. The
  lemmas show the round trip of public keys, that a peer ID determines its key, that parsing a
  peer's key always returns, and that one key has more than one accepted encoding.
\<close>

section \<open>The libraries\<close>

text \<open>\<open>google.golang.org/protobuf/encoding/protowire\<close>; a negative length is a parse error.\<close>

record protowire =
  ConsumeTag :: "bytes \<Rightarrow> nat \<times> nat \<times> int"
  ConsumeVarint :: "bytes \<Rightarrow> 64 word \<times> int"
  ConsumeBytes :: "bytes \<Rightarrow> bytes \<times> int"
  ConsumeFieldValue :: "nat \<Rightarrow> nat \<Rightarrow> bytes \<Rightarrow> int"
  ParseError :: "int \<Rightarrow> goerr"
  AppendTag :: "bytes \<Rightarrow> nat \<Rightarrow> nat \<Rightarrow> bytes"
  AppendVarint :: "bytes \<Rightarrow> 64 word \<Rightarrow> bytes"
  AppendBytes :: "bytes \<Rightarrow> bytes \<Rightarrow> bytes"

abbreviation (input) VarintType :: nat where "VarintType \<equiv> 0"
abbreviation (input) BytesType :: nat where "BytesType \<equiv> 2"

text \<open>
  \<open>github.com/decred/dcrd/dcrec/secp256k1/v4\<close> and its \<open>ecdsa\<close> package: private keys \<open>'sk\<close>,
  public keys \<open>'pk\<close>, scalars \<open>'n\<close>.
\<close>

record ('sk, 'pk, 'n) secp256k1 =
  PrivKeyFromBytes :: "bytes \<Rightarrow> 'sk"
  Serialize :: "'sk \<Rightarrow> bytes"
  KeyIsZero :: "'sk \<Rightarrow> bool"
  SecretPubKey :: "'sk \<Rightarrow> 'pk"
  SecpParsePubKey :: "bytes \<Rightarrow> goerr + 'pk"
  SerializeCompressed :: "'pk \<Rightarrow> bytes"
  EcdsaSign :: "'sk \<Rightarrow> bytes \<Rightarrow> 'n \<times> 'n"
  SignCompact :: "'sk \<Rightarrow> bytes \<Rightarrow> bytes"
  SerializeDER :: "'n \<times> 'n \<Rightarrow> bytes"
  ParseDERSignature :: "bytes \<Rightarrow> goerr + 'n \<times> 'n"
  SetByteSlice :: "bytes \<Rightarrow> 'n \<times> bool"
  ScalarIsZero :: "'n \<Rightarrow> bool"
  IsOverHalfOrder :: "'n \<Rightarrow> bool"
  EcdsaVerify :: "'n \<times> 'n \<Rightarrow> bytes \<Rightarrow> 'pk \<Rightarrow> bool"

section \<open>Keys\<close>

definition secp256k1KeyType :: "64 word" where "secp256k1KeyType = 2"

abbreviation "ErrInvalidKey \<equiv> ErrNew ''invalid secp256k1 key''"
abbreviation "ErrUnsupportedKey \<equiv> ErrNew ''unsupported key type: secp256k1 required''"

definition ParsePrivKey :: "('sk, 'pk, 'n) secp256k1 \<Rightarrow> bytes \<Rightarrow> goerr + 'sk" where
  "ParsePrivKey lib secret =
     (let key = PrivKeyFromBytes lib secret in
      if Serialize lib key \<noteq> secret \<or> KeyIsZero lib key then Inl ErrInvalidKey else Inr key)"

definition PrivKey_Bytes :: "('sk, 'pk, 'n) secp256k1 \<Rightarrow> 'sk \<Rightarrow> bytes" where
  "PrivKey_Bytes lib k = Serialize lib k"

definition PrivKey_Public :: "('sk, 'pk, 'n) secp256k1 \<Rightarrow> 'sk \<Rightarrow> 'pk" where
  "PrivKey_Public lib k = SecretPubKey lib k"

definition PrivKey_Sign :: "('sk, 'pk, 'n) secp256k1 \<Rightarrow> 'sk \<Rightarrow> bytes \<Rightarrow> bytes" where
  "PrivKey_Sign lib k message = SerializeDER lib (EcdsaSign lib k (Sum256 message))"

text \<open>\<open>SignHash\<close> drops the recovery byte of the compact signature.\<close>

definition SignHash :: "('sk, 'pk, 'n) secp256k1 \<Rightarrow> 'sk \<Rightarrow> bytes \<Rightarrow> bytes" where
  "SignHash lib k hash = drop 1 (SignCompact lib k hash)"

definition ParsePubKey :: "('sk, 'pk, 'n) secp256k1 \<Rightarrow> bytes \<Rightarrow> goerr + 'pk" where
  "ParsePubKey lib compressed =
     (if length compressed \<noteq> 33 then Inl (Wrap ''compressed key has the wrong length'' ErrInvalidKey)
      else case SecpParsePubKey lib compressed of
             Inl e \<Rightarrow> Inl (Join [ErrInvalidKey, e])
           | Inr key \<Rightarrow> Inr key)"

definition PubKey_Bytes :: "('sk, 'pk, 'n) secp256k1 \<Rightarrow> 'pk \<Rightarrow> bytes" where
  "PubKey_Bytes lib k = SerializeCompressed lib k"

definition PubKey_Marshal :: "protowire \<Rightarrow> ('sk, 'pk, 'n) secp256k1 \<Rightarrow> 'pk \<Rightarrow> bytes" where
  "PubKey_Marshal pw lib k =
     (let wire = AppendTag pw [] 1 VarintType;
          wire = AppendVarint pw wire secp256k1KeyType;
          wire = AppendTag pw wire 2 BytesType
      in AppendBytes pw wire (PubKey_Bytes lib k))"

definition PubKey_PeerID :: "protowire \<Rightarrow> ('sk, 'pk, 'n) secp256k1 \<Rightarrow> 'pk \<Rightarrow> bytes" where
  "PubKey_PeerID pw lib k =
     (let raw = PubKey_Marshal pw lib k in AppendVarint pw [0] (of_nat (length raw)) @ raw)"

text \<open>
  The loop of \<open>UnmarshalPubKey\<close> on the rest of the message, with its variables \<open>keyType\<close> and
  \<open>keyData\<close> (\<open>None\<close> is nil). Each iteration of a correct library consumes at least one byte,
  so the length of the message bounds the iterations; \<open>None\<close> is a loop that has not ended
  within that bound.
\<close>

definition UnmarshalPubKey_field ::
  "protowire \<Rightarrow> nat \<Rightarrow> nat \<Rightarrow> 64 word \<Rightarrow> bytes option \<Rightarrow> bytes \<Rightarrow> 64 word \<times> bytes option \<times> int" where
  "UnmarshalPubKey_field pw number wireType keyType keyData wire =
     (if number = 1 \<and> wireType = VarintType then
        (case ConsumeVarint pw wire of (v, n) \<Rightarrow> (v, keyData, n))
      else if number = 2 \<and> wireType = BytesType then
        (case ConsumeBytes pw wire of (b, n) \<Rightarrow> (keyType, if n < 0 then None else Some b, n))
      else (keyType, keyData, ConsumeFieldValue pw number wireType wire))"

fun UnmarshalPubKey_loop ::
  "protowire \<Rightarrow> nat \<Rightarrow> 64 word \<Rightarrow> bytes option \<Rightarrow> bytes \<Rightarrow> (goerr + 64 word \<times> bytes option) option" where
  "UnmarshalPubKey_loop pw fuel keyType keyData wire =
     (if wire = [] then Some (Inr (keyType, keyData))
      else case fuel of 0 \<Rightarrow> None | Suc fuel' \<Rightarrow>
        (case ConsumeTag pw wire of (number, wireType, n) \<Rightarrow>
           if n < 0 then Some (Inl (Wrap ''malformed public key'' (ParseError pw n)))
           else
             let wire' = drop (nat n) wire in
             case UnmarshalPubKey_field pw number wireType keyType keyData wire' of (keyType', keyData', m) \<Rightarrow>
               if m < 0 then Some (Inl (Wrap ''malformed public key'' (ParseError pw m)))
               else UnmarshalPubKey_loop pw fuel' keyType' keyData' (drop (nat m) wire')))"

declare UnmarshalPubKey_loop.simps [simp del]

definition UnmarshalPubKey :: "protowire \<Rightarrow> ('sk, 'pk, 'n) secp256k1 \<Rightarrow> bytes \<Rightarrow> (goerr + 'pk) option" where
  "UnmarshalPubKey pw lib wire =
     (case UnmarshalPubKey_loop pw (length wire) 0 None wire of
        None \<Rightarrow> None
      | Some (Inl e) \<Rightarrow> Some (Inl e)
      | Some (Inr (keyType, keyData)) \<Rightarrow>
          (case keyData of
             None \<Rightarrow> Some (Inl ErrUnsupportedKey)
           | Some kd \<Rightarrow> if keyType \<noteq> secp256k1KeyType then Some (Inl ErrUnsupportedKey)
                        else Some (ParsePubKey lib kd)))"

definition PubKey_Verify :: "('sk, 'pk, 'n) secp256k1 \<Rightarrow> 'pk \<Rightarrow> bytes \<Rightarrow> bytes \<Rightarrow> bool" where
  "PubKey_Verify lib k message signature =
     (case ParseDERSignature lib signature of
        Inl e \<Rightarrow> False
      | Inr sig \<Rightarrow> EcdsaVerify lib sig (Sum256 message) k)"

definition VerifyHash :: "('sk, 'pk, 'n) secp256k1 \<Rightarrow> 'pk \<Rightarrow> bytes \<Rightarrow> bytes \<Rightarrow> bool" where
  "VerifyHash lib k hash signature =
     (if length signature \<noteq> 64 then False
      else let (r, rover) = SetByteSlice lib (take 32 signature);
               (s, sover) = SetByteSlice lib (drop 32 signature)
           in if rover \<or> ScalarIsZero lib r \<or> sover \<or> ScalarIsZero lib s \<or> IsOverHalfOrder lib s then False
              else EcdsaVerify lib (r, s) hash k)"

section \<open>What the libraries document\<close>

definition protowire_ok :: "protowire \<Rightarrow> bool" where
  "protowire_ok pw \<longleftrightarrow>
     (\<forall>dst num ty. AppendTag pw dst num ty = dst @ AppendTag pw [] num ty) \<and>
     (\<forall>dst v. AppendVarint pw dst v = dst @ AppendVarint pw [] v) \<and>
     (\<forall>dst b. AppendBytes pw dst b = dst @ AppendBytes pw [] b) \<and>
     (\<forall>num ty. AppendTag pw [] num ty \<noteq> []) \<and>
     (\<forall>v. length (AppendVarint pw [] v) \<le> 10) \<and>
     (\<forall>num \<in> {1..15}. \<forall>ty < 6. \<forall>rest.
        ConsumeTag pw (AppendTag pw [] num ty @ rest) = (num, ty, int (length (AppendTag pw [] num ty)))) \<and>
     (\<forall>v rest. ConsumeVarint pw (AppendVarint pw [] v @ rest) = (v, int (length (AppendVarint pw [] v)))) \<and>
     (\<forall>b rest. length b < 2 ^ 31 \<longrightarrow>
        ConsumeBytes pw (AppendBytes pw [] b @ rest) = (b, int (length (AppendBytes pw [] b)))) \<and>
     (\<forall>wire. wire \<noteq> [] \<longrightarrow> snd (snd (ConsumeTag pw wire)) \<noteq> 0)"

definition secp_ok :: "('sk, 'pk, 'n) secp256k1 \<Rightarrow> bool" where
  "secp_ok lib \<longleftrightarrow>
     (\<forall>k. length (SerializeCompressed lib k) = 33 \<and> SecpParsePubKey lib (SerializeCompressed lib k) = Inr k) \<and>
     (\<forall>b k. length b = 33 \<longrightarrow> SecpParsePubKey lib b = Inr k \<longrightarrow> SerializeCompressed lib k = b)"

text \<open>A second encoding of a public key, with its two fields swapped.\<close>

definition reordered :: "protowire \<Rightarrow> ('sk, 'pk, 'n) secp256k1 \<Rightarrow> 'pk \<Rightarrow> bytes" where
  "reordered pw lib k =
     AppendTag pw [] 2 BytesType @ AppendBytes pw [] (PubKey_Bytes lib k) @
     AppendTag pw [] 1 VarintType @ AppendVarint pw [] secp256k1KeyType"

text \<open>
  Instances that satisfy the hypotheses: varints, tags and byte strings as the wire format
  defines them, and a group with two public keys.
\<close>

definition consumed :: "bytes \<Rightarrow> (goerr + 64 word) \<times> reader \<Rightarrow> 64 word \<times> int" where
  "consumed b res =
     (case res of (Inl e, r) \<Rightarrow> (0, -1) | (Inr v, r) \<Rightarrow> (v, int (length b) - int (length (rdata r))))"

definition std_protowire :: protowire where
  "std_protowire =
     \<lparr>ConsumeTag = (\<lambda>b. case consumed b (ReadUvarint \<lparr>rdata = b, rend = EOF\<rparr>) of
                          (v, n) \<Rightarrow> (unat v div 8, unat v mod 8, n)),
      ConsumeVarint = (\<lambda>b. consumed b (ReadUvarint \<lparr>rdata = b, rend = EOF\<rparr>)),
      ConsumeBytes = (\<lambda>b. case consumed b (ReadUvarint \<lparr>rdata = b, rend = EOF\<rparr>) of
                            (v, n) \<Rightarrow> if n < 0 \<or> length (drop (nat n) b) < unat v then ([], -1)
                                      else (take (unat v) (drop (nat n) b), n + int (unat v))),
      ConsumeFieldValue = (\<lambda>num ty b. if ty = VarintType
         then snd (consumed b (ReadUvarint \<lparr>rdata = b, rend = EOF\<rparr>)) else -1),
      ParseError = (\<lambda>n. ErrUnexpectedEOF),
      AppendTag = (\<lambda>dst num ty. AppendUvarint dst (of_nat (num * 8 + ty))),
      AppendVarint = AppendUvarint,
      AppendBytes = (\<lambda>dst b. AppendUvarint dst (of_nat (length b)) @ b)\<rparr>"

definition two_keys :: "(bool, bool, nat) secp256k1" where
  "two_keys =
     \<lparr>PrivKeyFromBytes = (\<lambda>b. b = replicate 32 1),
      Serialize = (\<lambda>k. replicate 32 (if k then 1 else 2)),
      KeyIsZero = (\<lambda>k. False),
      SecretPubKey = (\<lambda>k. k),
      SecpParsePubKey = (\<lambda>b. if b = replicate 33 2 then Inr False else if b = replicate 33 3 then Inr True
                              else Inl (ErrNew ''not on the curve'')),
      SerializeCompressed = (\<lambda>k. replicate 33 (if k then 3 else 2)),
      EcdsaSign = (\<lambda>k h. (1, if k then 1 else 2)),
      SignCompact = (\<lambda>k h. 31 # replicate 32 1 @ replicate 32 (if k then 1 else 2)),
      SerializeDER = (\<lambda>rs. [of_nat (snd rs)]),
      ParseDERSignature = (\<lambda>b. if length b = 1 then Inr (1, unat (hd b)) else Inl (ErrNew ''malformed signature'')),
      SetByteSlice = (\<lambda>b. (unat (hd b), False)),
      ScalarIsZero = (\<lambda>n. n = 0),
      IsOverHalfOrder = (\<lambda>n. 2 < n),
      EcdsaVerify = (\<lambda>(r, s) h k. s = (if k then 1 else 2))\<rparr>"

section \<open>Lemmas\<close>

lemma ParsePubKey_Bytes: "secp_ok lib \<Longrightarrow> ParsePubKey lib b = Inr k \<longleftrightarrow> b = PubKey_Bytes lib k"
proof -
  assume ok: "secp_ok lib"
  have 1: "length (SerializeCompressed lib k) = 33" "SecpParsePubKey lib (SerializeCompressed lib k) = Inr k"
    using ok unfolding secp_ok_def by blast+
  have 2: "SerializeCompressed lib k = b" if "length b = 33" "SecpParsePubKey lib b = Inr k"
    using ok that unfolding secp_ok_def by blast
  show ?thesis
  proof
    assume "ParsePubKey lib b = Inr k"
    then have "length b = 33" "SecpParsePubKey lib b = Inr k"
      by (auto simp: ParsePubKey_def split: if_splits sum.splits)
    then show "b = PubKey_Bytes lib k" using 2 by (simp add: PubKey_Bytes_def)
  qed (simp add: PubKey_Bytes_def ParsePubKey_def 1)
qed

lemma PubKey_Bytes_inj: "secp_ok lib \<Longrightarrow> PubKey_Bytes lib k = PubKey_Bytes lib k' \<longleftrightarrow> k = k'"
  using ParsePubKey_Bytes [of lib "PubKey_Bytes lib k"] by (metis sum.inject(2))

lemma UnmarshalPubKey_loop_Nil [simp]:
  "UnmarshalPubKey_loop pw fuel keyType keyData [] = Some (Inr (keyType, keyData))"
  by (subst UnmarshalPubKey_loop.simps) simp

lemma UnmarshalPubKey_loop_terminates:
  assumes "protowire_ok pw" and "length wire \<le> fuel"
  shows "UnmarshalPubKey_loop pw fuel keyType keyData wire \<noteq> None"
  using assms(2)
proof (induction fuel arbitrary: keyType keyData wire)
  case 0
  then show ?case by simp
next
  case (Suc fuel)
  show ?case
  proof (cases "wire = []")
    case False
    obtain num ty n where c: "ConsumeTag pw wire = (num, ty, n)" by (cases "ConsumeTag pw wire") auto
    have "n \<noteq> 0" using assms(1) False c unfolding protowire_ok_def by (metis snd_conv)
    then have "length (drop m (drop (nat n) wire)) \<le> fuel" if "\<not> n < 0" for m using Suc.prems that by simp
    then show ?thesis using False c Suc.IH
      by (subst UnmarshalPubKey_loop.simps) (simp add: Let_def split: prod.split)
  qed simp
qed

lemma protowire_laws:
  assumes "protowire_ok pw"
  shows "AppendTag pw dst num ty = dst @ AppendTag pw [] num ty"
    "AppendVarint pw dst v = dst @ AppendVarint pw [] v"
    "AppendBytes pw dst b = dst @ AppendBytes pw [] b"
    "AppendTag pw [] num ty \<noteq> []" "length (AppendVarint pw [] v) \<le> 10"
    "num \<in> {1..15} \<Longrightarrow> ty < 6 \<Longrightarrow>
      ConsumeTag pw (AppendTag pw [] num ty @ rest) = (num, ty, int (length (AppendTag pw [] num ty)))"
    "ConsumeVarint pw (AppendVarint pw [] v @ rest) = (v, int (length (AppendVarint pw [] v)))"
    "length b < 2 ^ 31 \<Longrightarrow> ConsumeBytes pw (AppendBytes pw [] b @ rest) = (b, int (length (AppendBytes pw [] b)))"
proof -
  note ok = assms [unfolded protowire_ok_def]
  show "AppendTag pw dst num ty = dst @ AppendTag pw [] num ty"
    using ok [THEN conjunct1] by blast
  note ok = ok [THEN conjunct2]
  show "AppendVarint pw dst v = dst @ AppendVarint pw [] v"
    using ok [THEN conjunct1] by blast
  note ok = ok [THEN conjunct2]
  show "AppendBytes pw dst b = dst @ AppendBytes pw [] b"
    using ok [THEN conjunct1] by blast
  note ok = ok [THEN conjunct2]
  show "AppendTag pw [] num ty \<noteq> []"
    using ok [THEN conjunct1] by blast
  note ok = ok [THEN conjunct2]
  show "length (AppendVarint pw [] v) \<le> 10"
    using ok [THEN conjunct1] by blast
  note ok = ok [THEN conjunct2]
  show "num \<in> {1..15} \<Longrightarrow> ty < 6 \<Longrightarrow>
      ConsumeTag pw (AppendTag pw [] num ty @ rest) = (num, ty, int (length (AppendTag pw [] num ty)))"
    using ok [THEN conjunct1] by blast
  note ok = ok [THEN conjunct2]
  show "ConsumeVarint pw (AppendVarint pw [] v @ rest) = (v, int (length (AppendVarint pw [] v)))"
    using ok [THEN conjunct1] by blast
  note ok = ok [THEN conjunct2]
  show "length b < 2 ^ 31 \<Longrightarrow> ConsumeBytes pw (AppendBytes pw [] b @ rest) = (b, int (length (AppendBytes pw [] b)))"
    using ok [THEN conjunct1] by blast
qed

lemma loop_type_field:
  assumes "protowire_ok pw"
  shows "UnmarshalPubKey_loop pw (Suc fuel) keyType keyData (AppendTag pw [] 1 VarintType @ AppendVarint pw [] v @ rest) =
    UnmarshalPubKey_loop pw fuel v keyData rest"
  using protowire_laws(4,6,7) [OF assms]
  by (subst UnmarshalPubKey_loop.simps) (simp add: UnmarshalPubKey_field_def)

lemma loop_data_field:
  assumes "protowire_ok pw" "length b < 2 ^ 31"
  shows "UnmarshalPubKey_loop pw (Suc fuel) keyType keyData (AppendTag pw [] 2 BytesType @ AppendBytes pw [] b @ rest) =
    UnmarshalPubKey_loop pw fuel keyType (Some b) rest"
  using protowire_laws(4,6,8) [OF assms(1)] assms(2)
  by (subst UnmarshalPubKey_loop.simps) (simp add: UnmarshalPubKey_field_def)


lemma loop_fuel:
  assumes "UnmarshalPubKey_loop pw fuel keyType keyData wire = Some res" and "fuel \<le> fuel'"
  shows "UnmarshalPubKey_loop pw fuel' keyType keyData wire = Some res"
  using assms
proof (induction fuel arbitrary: fuel' keyType keyData wire)
  case 0
  then show ?case by (cases "wire = []") (simp_all add: UnmarshalPubKey_loop.simps [of pw 0])
next
  case (Suc fuel)
  then obtain fuel1 where "fuel' = Suc fuel1" "fuel \<le> fuel1" by (cases fuel') auto
  moreover obtain num ty n where c: "ConsumeTag pw wire = (num, ty, n)" by (cases "ConsumeTag pw wire") auto
  moreover obtain kt kd m where "UnmarshalPubKey_field pw num ty keyType keyData (drop (nat n) wire) = (kt, kd, m)"
    by (cases "UnmarshalPubKey_field pw num ty keyType keyData (drop (nat n) wire)") auto
  ultimately show ?case using Suc.prems(1) Suc.IH [of kt kd "drop (nat m) (drop (nat n) wire)" fuel1]
    by (simp add: UnmarshalPubKey_loop.simps [of pw "Suc fuel"] UnmarshalPubKey_loop.simps [of pw "Suc fuel1"] Let_def
        split: if_splits)
qed

lemma PubKey_Marshal_eq:
  assumes "protowire_ok pw"
  shows "PubKey_Marshal pw lib k =
    AppendTag pw [] 1 VarintType @ AppendVarint pw [] secp256k1KeyType @
    AppendTag pw [] 2 BytesType @ AppendBytes pw [] (PubKey_Bytes lib k)"
  unfolding PubKey_Marshal_def Let_def
  using protowire_laws(2) [OF assms, of "AppendTag pw [] 1 VarintType" secp256k1KeyType]
    protowire_laws(1) [OF assms, of "AppendTag pw [] 1 VarintType @ AppendVarint pw [] secp256k1KeyType" 2 BytesType]
    protowire_laws(3) [OF assms, of "AppendTag pw [] 1 VarintType @ AppendVarint pw [] secp256k1KeyType @
      AppendTag pw [] 2 BytesType" "PubKey_Bytes lib k"]
  by simp

lemma PubKey_Bytes_length: "secp_ok lib \<Longrightarrow> length (PubKey_Bytes lib k) = 33"
  by (simp add: secp_ok_def PubKey_Bytes_def)

lemma UnmarshalPubKey_fuel:
  assumes "UnmarshalPubKey_loop pw (Suc (Suc 0)) 0 None wire = Some (Inr (secp256k1KeyType, Some kd))" and "Suc (Suc 0) \<le> length wire"
  shows "UnmarshalPubKey pw lib wire = Some (ParsePubKey lib kd)"
  using loop_fuel [OF assms] by (simp add: UnmarshalPubKey_def)

lemma UnmarshalPubKey_both:
  assumes "protowire_ok pw" "secp_ok lib"
  shows "UnmarshalPubKey pw lib (PubKey_Marshal pw lib k) = Some (Inr k)"
    and "UnmarshalPubKey pw lib (reordered pw lib k) = Some (Inr k)"
proof -
  let ?b = "PubKey_Bytes lib k"
  have p: "ParsePubKey lib ?b = Inr k" using assms(2) by (simp add: ParsePubKey_Bytes)
  have b: "length ?b < 2 ^ 31" using assms(2) by (simp add: PubKey_Bytes_length)
  have t: "1 \<le> length (AppendTag pw [] n ty)" for n ty using protowire_laws(4) [OF assms(1)] by (simp add: Suc_le_eq)
  have l: "Suc (Suc 0) \<le> length (PubKey_Marshal pw lib k)" "Suc (Suc 0) \<le> length (reordered pw lib k)"
    using t [of 1 0] t [of 2 2] by (simp_all only: PubKey_Marshal_eq [OF assms(1)] reordered_def length_append)
  have "UnmarshalPubKey_loop pw (Suc (Suc 0)) 0 None (PubKey_Marshal pw lib k) = Some (Inr (secp256k1KeyType, Some ?b))"
    unfolding PubKey_Marshal_eq [OF assms(1)] loop_type_field [OF assms(1)]
    using loop_data_field [OF assms(1) b, of 0 secp256k1KeyType None "[]"] by simp
  from UnmarshalPubKey_fuel [OF this l(1), of lib] p
  show "UnmarshalPubKey pw lib (PubKey_Marshal pw lib k) = Some (Inr k)" by simp
  have "UnmarshalPubKey_loop pw (Suc (Suc 0)) 0 None (reordered pw lib k) = Some (Inr (secp256k1KeyType, Some ?b))"
    unfolding reordered_def loop_data_field [OF assms(1) b]
    using loop_type_field [OF assms(1), of 0 0 "Some ?b" secp256k1KeyType "[]"] by simp
  from UnmarshalPubKey_fuel [OF this l(2), of lib] p
  show "UnmarshalPubKey pw lib (reordered pw lib k) = Some (Inr k)" by simp
qed

lemma reordered_neq:
  assumes "protowire_ok pw"
  shows "reordered pw lib k \<noteq> PubKey_Marshal pw lib k"
proof
  assume eq: "reordered pw lib k = PubKey_Marshal pw lib k"
  have "fst (ConsumeTag pw (reordered pw lib k)) = 2" "fst (ConsumeTag pw (PubKey_Marshal pw lib k)) = 1"
    unfolding reordered_def PubKey_Marshal_eq [OF assms]
    using protowire_laws(6) [OF assms, of 2 2] protowire_laws(6) [OF assms, of 1 0] by simp_all
  with eq show False by simp
qed

lemma PubKey_PeerID_eq:
  assumes "protowire_ok pw"
  shows "PubKey_PeerID pw lib k =
    0 # AppendVarint pw [] (of_nat (length (PubKey_Marshal pw lib k))) @ PubKey_Marshal pw lib k"
  using protowire_laws(2) [OF assms, of "[0]"] by (simp add: PubKey_PeerID_def Let_def)

lemma PubKey_PeerID_inj:
  assumes "protowire_ok pw" "secp_ok lib" "PubKey_PeerID pw lib k = PubKey_PeerID pw lib k'"
  shows "k = k'"
proof -
  let ?m = "PubKey_Marshal pw lib k" and ?m' = "PubKey_Marshal pw lib k'"
  let ?v = "AppendVarint pw [] (of_nat (length ?m))" and ?v' = "AppendVarint pw [] (of_nat (length ?m'))"
  have eq: "?v @ ?m = ?v' @ ?m'" using assms(3) by (simp add: PubKey_PeerID_eq [OF assms(1)])
  have "int (length ?v) = snd (ConsumeVarint pw (?v @ ?m))"
    by (simp only: protowire_laws(7) [OF assms(1)] snd_conv)
  also have "\<dots> = snd (ConsumeVarint pw (?v' @ ?m'))" by (simp only: eq)
  also have "\<dots> = int (length ?v')" by (simp only: protowire_laws(7) [OF assms(1)] snd_conv)
  finally have m: "?m = ?m'" using eq by (simp add: append_eq_append_conv)
  have "Some (Inr k) = UnmarshalPubKey pw lib ?m" by (simp only: UnmarshalPubKey_both(1) [OF assms(1,2)])
  also have "\<dots> = Some (Inr k')" by (simp only: m UnmarshalPubKey_both(1) [OF assms(1,2)])
  finally show ?thesis by simp
qed

lemma UnmarshalPubKey_returns: "protowire_ok pw \<Longrightarrow> UnmarshalPubKey pw lib wire \<noteq> None"
  using UnmarshalPubKey_loop_terminates [of pw wire "length wire" 0 None]
  by (auto simp: UnmarshalPubKey_def split: option.splits sum.splits)

lemma consumed_uvarint:
  "consumed (uvarint (unat v) @ rest) (ReadUvarint \<lparr>rdata = uvarint (unat v) @ rest, rend = EOF\<rparr>) =
     (v, int (length (uvarint (unat v))))"
  by (simp add: consumed_def ReadUvarint_uvarint)

lemma consumed_progress: "b \<noteq> [] \<Longrightarrow> snd (consumed b (ReadUvarint \<lparr>rdata = b, rend = EOF\<rparr>)) \<noteq> 0"
proof -
  assume b: "b \<noteq> []"
  obtain x r where rd: "ReadUvarint \<lparr>rdata = b, rend = EOF\<rparr> = (x, r)" by (cases "ReadUvarint \<lparr>rdata = b, rend = EOF\<rparr>")
  show ?thesis
  proof (cases x)
    case (Inr v)
    with ReadUvarint_InrD rd obtain bs where "b = bs @ rdata r" "is_digits bs" by fastforce
    moreover from this(2) have "bs \<noteq> []" by auto
    ultimately show ?thesis using rd Inr by (simp add: consumed_def)
  qed (simp add: consumed_def rd)
qed

lemma std_protowire_simps:
  "AppendTag std_protowire dst num ty = dst @ uvarint (unat (of_nat (num * 8 + ty) :: 64 word))"
  "AppendVarint std_protowire dst v = dst @ uvarint (unat v)"
  "AppendBytes std_protowire dst b = dst @ uvarint (unat (of_nat (length b) :: 64 word)) @ b"
  "ConsumeTag std_protowire (uvarint (unat v) @ rest) = (unat v div 8, unat v mod 8, int (length (uvarint (unat v))))"
  "ConsumeVarint std_protowire (uvarint (unat v) @ rest) = (v, int (length (uvarint (unat v))))"
  by (simp_all add: std_protowire_def AppendUvarint_uvarint consumed_uvarint)

lemma std_protowire_ok: "protowire_ok std_protowire"
  unfolding protowire_ok_def
proof (intro conjI allI ballI impI)
  fix num ty :: nat and rest assume num: "num \<in> {1..15}" "ty < 6"
  then have "unat (of_nat (num * 8 + ty) :: 64 word) = num * 8 + ty"
    by (simp add: unat_of_nat take_bit_nat_eq_self del: of_nat_add of_nat_mult)
  then have "unat (of_nat (num * 8 + ty) :: 64 word) div 8 = num" "unat (of_nat (num * 8 + ty) :: 64 word) mod 8 = ty"
    using num by simp_all
  then show "ConsumeTag std_protowire (AppendTag std_protowire [] num ty @ rest) =
      (num, ty, int (length (AppendTag std_protowire [] num ty)))"
    unfolding std_protowire_simps append_Nil by simp
next
  fix b rest :: bytes assume "length b < 2 ^ 31"
  then have "unat (of_nat (length b) :: 64 word) = length b" by (simp add: unat_of_nat take_bit_nat_eq_self)
  then show "ConsumeBytes std_protowire (AppendBytes std_protowire [] b @ rest) =
      (b, int (length (AppendBytes std_protowire [] b)))"
    using consumed_uvarint [of "of_nat (length b)" "b @ rest"] by (simp add: std_protowire_def AppendUvarint_uvarint)
next
  fix wire :: bytes assume "wire \<noteq> []"
  then show "snd (snd (ConsumeTag std_protowire wire)) \<noteq> 0"
    using consumed_progress [of wire] by (simp add: std_protowire_def split_beta)
next
  fix v show "length (AppendVarint std_protowire [] v) \<le> 10"
    using length_uvarint_word [of v] by (simp add: std_protowire_simps)
qed (simp_all only: std_protowire_simps append_Nil append_assoc uvarint_nonempty not_False_eq_True)

lemma two_keys_ok: "secp_ok two_keys"
  by (auto simp: secp_ok_def two_keys_def split: if_splits)

section \<open>Properties\<close>

text \<open>
  C31 (identity keys): a public key is recovered from its libp2p encoding, two keys have the same
  peer ID only if they are the same key, and parsing any bytes as a public key returns.
\<close>
theorem PubKey_roundtrip:
  assumes "protowire_ok pw" and "secp_ok lib"
  shows "UnmarshalPubKey pw lib (PubKey_Marshal pw lib k) = Some (Inr k) \<and>
    (PubKey_PeerID pw lib k = PubKey_PeerID pw lib k' \<longleftrightarrow> k = k') \<and> UnmarshalPubKey pw lib wire \<noteq> None"
  using UnmarshalPubKey_both(1) [OF assms] PubKey_PeerID_inj [OF assms] UnmarshalPubKey_returns [OF assms(1)]
  by blast

theorem PubKey_roundtrip_witness:
  "UnmarshalPubKey std_protowire two_keys (PubKey_Marshal std_protowire two_keys True) = Some (Inr True) \<and>
   PubKey_PeerID std_protowire two_keys True \<noteq> PubKey_PeerID std_protowire two_keys False"
  using PubKey_roundtrip [OF std_protowire_ok two_keys_ok, of True False] by simp

text \<open>
  C38 (several encodings): a public key has accepted encodings besides the one
  \<open>PubKey.Marshal\<close> writes: the same two fields in the other order are accepted as the same key.
\<close>
theorem UnmarshalPubKey_two_encodings:
  assumes "protowire_ok pw" and "secp_ok lib"
  shows "\<exists>wire. wire \<noteq> PubKey_Marshal pw lib k \<and> UnmarshalPubKey pw lib wire = Some (Inr k)"
  by (intro exI conjI) (rule reordered_neq [OF assms(1)], rule UnmarshalPubKey_both(2) [OF assms])

theorem UnmarshalPubKey_two_encodings_witness:
  "\<exists>wire. wire \<noteq> PubKey_Marshal std_protowire two_keys True \<and>
     UnmarshalPubKey std_protowire two_keys wire = Some (Inr True)"
  by (rule UnmarshalPubKey_two_encodings [OF std_protowire_ok two_keys_ok])

end
