(* ===== verification/ENR.thy ===== *)
theory ENR
  imports RLP Identity "HOL-Library.List_Lexorder"
begin

text \<open>
  \<open>src/enr/enr.go\<close> and \<open>src/enr/entry.go\<close>: node records and their entries. Keys and strings are
  byte strings, a record's entries a map from keys to raw RLP. The hash \<open>keccak\<close> and the curve
  library are parameters. The lemmas show exactly which bytes \<open>Decode\<close> accepts, that \<open>Sign\<close>
  produces a record with the entries it was given, and what the endpoints of a record can be.
\<close>

section \<open>Addresses\<close>

text \<open>
  \<open>netip.Addr\<close>: the zero value, an IPv4 address, or an IPv6 address with a zone (empty for
  none).
\<close>

datatype Addr = AddrZero | Addr4 bytes | Addr6 bytes string

fun Addr_Is4 :: "Addr \<Rightarrow> bool" where
  "Addr_Is4 (Addr4 _) = True"
| "Addr_Is4 _ = False"

fun Addr_Is6 :: "Addr \<Rightarrow> bool" where
  "Addr_Is6 (Addr6 _ _) = True"
| "Addr_Is6 _ = False"

fun Addr_Is4In6 :: "Addr \<Rightarrow> bool" where
  "Addr_Is4In6 (Addr6 b _) = (take 12 b = replicate 10 0 @ [0xff, 0xff])"
| "Addr_Is4In6 _ = False"

fun Addr_Unmap :: "Addr \<Rightarrow> Addr" where
  "Addr_Unmap (Addr6 b z) = (if Addr_Is4In6 (Addr6 b z) then Addr4 (drop 12 b) else Addr6 b z)"
| "Addr_Unmap a = a"

definition Addr_IsUnspecified :: "Addr \<Rightarrow> bool" where
  "Addr_IsUnspecified a = (a = Addr4 (replicate 4 0) \<or> a = Addr6 (replicate 16 0) [])"

fun Addr_IsMulticast :: "Addr \<Rightarrow> bool" where
  "Addr_IsMulticast AddrZero = False"
| "Addr_IsMulticast (Addr4 b) = (b ! 0 AND 0xf0 = 0xe0)"
| "Addr_IsMulticast (Addr6 b z) =
     (if Addr_Is4In6 (Addr6 b z) then b ! 12 AND 0xf0 = 0xe0 else b ! 0 = 0xff)"

fun Addr_AsSlice :: "Addr \<Rightarrow> bytes" where
  "Addr_AsSlice AddrZero = []"
| "Addr_AsSlice (Addr4 b) = b"
| "Addr_AsSlice (Addr6 b z) = b"

definition AddrFromSlice :: "bytes \<Rightarrow> Addr" where
  "AddrFromSlice b = (if length b = 4 then Addr4 b else if length b = 16 then Addr6 b [] else AddrZero)"

text \<open>Every \<open>netip.Addr\<close> has four or sixteen bytes.\<close>

fun addr_ok :: "Addr \<Rightarrow> bool" where
  "addr_ok AddrZero = True"
| "addr_ok (Addr4 b) = (length b = 4)"
| "addr_ok (Addr6 b z) = (length b = 16)"

section \<open>Entries\<close>

definition checkIP :: "Addr \<Rightarrow> nat \<Rightarrow> goerr option" where
  "checkIP addr sz =
     (if addr = AddrZero then Some (ErrNew ''invalid address'')
      else if sz = 4 \<and> \<not> Addr_Is4 addr \<or> sz = 16 \<and> (\<not> Addr_Is6 addr \<or> Addr_Is4In6 addr)
      then Some (ErrNew ''address has the wrong size'')
      else if Addr_IsUnspecified addr \<or> Addr_IsMulticast addr
      then Some (ErrNew ''address is unspecified or multicast'')
      else None)"

definition marshalIP :: "Addr \<Rightarrow> nat \<Rightarrow> goerr + bytes" where
  "marshalIP addr sz =
     (case checkIP addr sz of Some e \<Rightarrow> Inl e | None \<Rightarrow> Inr (encodeBytes (Addr_AsSlice addr)))"

definition unmarshalIP :: "bytes \<Rightarrow> nat \<Rightarrow> goerr + Addr" where
  "unmarshalIP raw sz =
     (case decodeBytes raw of
        Inl e \<Rightarrow> Inl e
      | Inr payload \<Rightarrow>
          if length payload \<noteq> sz then Inl (ErrNew ''address has the wrong length'')
          else let addr = AddrFromSlice payload in
               case checkIP addr sz of Some e \<Rightarrow> Inl e | None \<Rightarrow> Inr addr)"

definition marshalPort :: "16 word \<Rightarrow> goerr + bytes" where
  "marshalPort port = (if port = 0 then Inl (ErrNew ''port 0'') else Inr (encodeUint port))"

definition unmarshalPort :: "bytes \<Rightarrow> goerr + 16 word" where
  "unmarshalPort raw =
     (case decodeSingleRLP raw of
        Inl e \<Rightarrow> Inl e
      | Inr item \<Rightarrow>
          (case decodeUint item of
             Inl e \<Rightarrow> Inl e
           | Inr port \<Rightarrow> if port = 0 then Inl (ErrNew ''port 0'') else Inr port))"

text \<open>
  The entry types of the package, and \<open>EntryApp\<close> for an application's own type, given by its
  key and the outcome of its \<open>MarshalValue\<close>.
\<close>

datatype 'pk Entry =
    EntryIP Addr
  | EntryIP6 Addr
  | EntryQUIC "16 word"
  | EntryQUIC6 "16 word"
  | EntryID bytes
  | EntrySecp256k1 'pk
  | EntryApp bytes "goerr + bytes"

definition gostr :: "string \<Rightarrow> bytes" where
  "gostr s = map of_char s"

fun Entry_Key :: "'pk Entry \<Rightarrow> bytes" where
  "Entry_Key (EntryIP _) = gostr ''ip''"
| "Entry_Key (EntryIP6 _) = gostr ''ip6''"
| "Entry_Key (EntryQUIC _) = gostr ''quic''"
| "Entry_Key (EntryQUIC6 _) = gostr ''quic6''"
| "Entry_Key (EntryID _) = gostr ''id''"
| "Entry_Key (EntrySecp256k1 _) = gostr ''secp256k1''"
| "Entry_Key (EntryApp k _) = k"

fun MarshalValue :: "('sk, 'pk, 'n) secp256k1 \<Rightarrow> 'pk Entry \<Rightarrow> goerr + bytes" where
  "MarshalValue lib (EntryIP a) = marshalIP (Addr_Unmap a) 4"
| "MarshalValue lib (EntryIP6 a) = marshalIP a 16"
| "MarshalValue lib (EntryQUIC p) = marshalPort p"
| "MarshalValue lib (EntryQUIC6 p) = marshalPort p"
| "MarshalValue lib (EntryID s) = Inr (encodeBytes s)"
| "MarshalValue lib (EntrySecp256k1 pk) = Inr (encodeBytes (PubKey_Bytes lib pk))"
| "MarshalValue lib (EntryApp k v) = v"

text \<open>\<open>EntrySecp256k1.UnmarshalValue\<close>; the one of \<open>EntryID\<close> is \<open>decodeBytes\<close>.\<close>

definition unmarshalSecp256k1 :: "('sk, 'pk, 'n) secp256k1 \<Rightarrow> bytes \<Rightarrow> goerr + 'pk" where
  "unmarshalSecp256k1 lib raw =
     (case decodeBytes raw of Inl e \<Rightarrow> Inl e | Inr compressed \<Rightarrow> ParsePubKey lib compressed)"

section \<open>Records\<close>

definition maxRecordSize :: nat where "maxRecordSize = 300"

abbreviation "ErrMissing \<equiv> ErrNew ''ENR key is missing''"

record 'pk Record =
  rec_raw :: bytes
  rec_seq :: "64 word"
  rec_pub :: "'pk option"
  rec_entries :: "bytes \<rightharpoonup> bytes"

text \<open>\<open>Record.Get\<close>, with the key and \<open>UnmarshalValue\<close> of the entry type.\<close>

definition Record_Get :: "bytes \<Rightarrow> (bytes \<Rightarrow> goerr + 'e) \<Rightarrow> 'pk Record \<Rightarrow> goerr + 'e" where
  "Record_Get key unmarshal r =
     (case rec_entries r key of
        None \<Rightarrow> Inl (Wrap ''missing'' ErrMissing)
      | Some raw \<Rightarrow>
          (case unmarshal raw of Inl e \<Rightarrow> Inl (Wrap ''ENR key'' e) | Inr v \<Rightarrow> Inr v))"

text \<open>The loop of \<open>Decode\<close> over the pairs; \<open>previous\<close> is \<open>None\<close> before the first pair.\<close>

fun Decode_entries :: "bytes option \<Rightarrow> rlpItem list \<Rightarrow> (bytes \<rightharpoonup> bytes) \<Rightarrow> goerr + (bytes \<rightharpoonup> bytes)" where
  "Decode_entries previous (key # val # rest) entries =
     (if ikind key \<noteq> RlpString then Inl (ErrNew ''ENR key must be an RLP byte string'')
      else if (case previous of None \<Rightarrow> False | Some p \<Rightarrow> \<not> p < ipayload key)
      then Inl (ErrNew ''ENR keys must be strictly ascending'')
      else Decode_entries (Some (ipayload key)) rest (entries(ipayload key \<mapsto> iraw val)))"
| "Decode_entries previous _ entries = Inr entries"

definition Decode ::
  "(bytes \<Rightarrow> bytes) \<Rightarrow> ('sk, 'pk, 'n) secp256k1 \<Rightarrow> bytes \<Rightarrow> goerr + 'pk Record" where
  "Decode keccak lib raw =
     (if maxRecordSize < length raw then Inl (ErrNew ''ENR exceeds 300-byte limit'')
      else (case decodeRLP raw of
        Inl e \<Rightarrow> Inl (Wrap ''invalid RLP'' e)
      | Inr (root, rest) \<Rightarrow>
          (let children = ichildren root; signature = children ! 0 in
          if rest \<noteq> [] then Inl (ErrNew ''trailing bytes after ENR'')
          else if ikind root \<noteq> RlpList then Inl (ErrNew ''ENR must be an RLP list'')
          else if length children < 2 \<or> (length children - 2) mod 2 \<noteq> 0
          then Inl (ErrNew ''ENR must contain a signature, sequence, and entries'')
          else if ikind signature \<noteq> RlpString \<or> length (ipayload signature) \<noteq> 64
          then Inl (ErrNew ''ENR signature must contain 64 bytes'')
          else (case decodeUint (children ! 1) of
            Inl e \<Rightarrow> Inl (Wrap ''invalid ENR sequence'' e)
          | Inr seq \<Rightarrow>
              (case Decode_entries None (drop 2 children) Map.empty of
                 Inl e \<Rightarrow> Inl e
               | Inr entries \<Rightarrow>
                   (let r = \<lparr>rec_raw = raw, rec_seq = seq, rec_pub = None, rec_entries = entries\<rparr> in
                   (case Record_Get (gostr ''id'') decodeBytes r of
                      Inl e \<Rightarrow> Inl e
                    | Inr scheme \<Rightarrow>
                        if scheme \<noteq> gostr ''v4'' then Inl (ErrNew ''ENR identity scheme is not v4'')
                        else (case Record_Get (gostr ''secp256k1'') (unmarshalSecp256k1 lib) r of
                          Inl e \<Rightarrow> Inl e
                        | Inr publicKey \<Rightarrow>
                            (let content = concat (map iraw (drop 1 children));
                                 hash = keccak (encodeRLPList content)
                             in if \<not> VerifyHash lib publicKey hash (ipayload signature)
                                then Inl (ErrNew ''invalid ENR signature'')
                                else Inr (r\<lparr>rec_pub := Some publicKey\<rparr>))))))))))"

definition Record_Encode :: "'pk Record \<Rightarrow> bytes" where
  "Record_Encode r = rec_raw r"

text \<open>\<open>Record.PeerID\<close>; \<open>None\<close> is the nil dereference of a record without a key.\<close>

definition Record_PeerID :: "protowire \<Rightarrow> ('sk, 'pk, 'n) secp256k1 \<Rightarrow> 'pk Record \<Rightarrow> bytes option" where
  "Record_PeerID pw lib r = map_option (PubKey_PeerID pw lib) (rec_pub r)"

definition Record_QUIC :: "'pk Record \<Rightarrow> (Addr \<times> 16 word) list" where
  "Record_QUIC r =
     (case (Record_Get (gostr ''ip'') (\<lambda>raw. unmarshalIP raw 4) r, Record_Get (gostr ''quic'') unmarshalPort r) of
        (Inr ip, Inr port) \<Rightarrow> [(ip, port)] | _ \<Rightarrow> []) @
     (case (Record_Get (gostr ''ip6'') (\<lambda>raw. unmarshalIP raw 16) r, Record_Get (gostr ''quic6'') unmarshalPort r) of
        (Inr ip6, Inr port6) \<Rightarrow> [(ip6, port6)] | _ \<Rightarrow> [])"

section \<open>Signing\<close>

definition encodeSignedContent :: "64 word \<Rightarrow> (bytes \<times> bytes) list \<Rightarrow> bytes" where
  "encodeSignedContent seq entries =
     encodeUint seq @ concat (map (\<lambda>(key, val). encodeBytes key @ val) entries)"

text \<open>
  \<open>slices.SortFunc\<close> by key. It need not be stable, but keys that occur twice are rejected
  when the record is decoded.
\<close>

definition signEntries ::
  "(bytes \<Rightarrow> bytes) \<Rightarrow> ('sk, 'pk, 'n) secp256k1 \<Rightarrow> 'sk \<Rightarrow> 64 word \<Rightarrow> (bytes \<times> bytes) list \<Rightarrow> bytes" where
  "signEntries keccak lib key seq entries =
     (let content = encodeSignedContent seq (sort_key fst entries);
          signature = SignHash lib key (keccak (encodeRLPList content))
      in encodeRLPList (encodeBytes signature @ content))"

fun marshalEntries :: "('sk, 'pk, 'n) secp256k1 \<Rightarrow> 'pk Entry list \<Rightarrow> goerr + (bytes \<times> bytes) list" where
  "marshalEntries lib [] = Inr []"
| "marshalEntries lib (e # es) =
     (case MarshalValue lib e of
        Inl err \<Rightarrow> Inl (Wrap ''ENR key'' err)
      | Inr v \<Rightarrow> (case marshalEntries lib es of Inl err \<Rightarrow> Inl err | Inr kvs \<Rightarrow> Inr ((Entry_Key e, v) # kvs)))"

definition Sign ::
  "(bytes \<Rightarrow> bytes) \<Rightarrow> ('sk, 'pk, 'n) secp256k1 \<Rightarrow> 'sk option \<Rightarrow> 64 word \<Rightarrow> 'pk Entry list \<Rightarrow> goerr + 'pk Record" where
  "Sign keccak lib key seq entries =
     (case key of
        None \<Rightarrow> Inl (ErrNew ''nil ENR signing key'')
      | Some k \<Rightarrow>
          (case marshalEntries lib
                  ([EntryID (gostr ''v4''), EntrySecp256k1 (PrivKey_Public lib k)] @ entries) of
             Inl e \<Rightarrow> Inl e
           | Inr kvs \<Rightarrow> Decode keccak lib (signEntries keccak lib k seq kvs)))"

definition EndpointEntries :: "Addr \<Rightarrow> 16 word \<Rightarrow> 'pk Entry list" where
  "EndpointEntries addr port =
     (if Addr_Is6 (Addr_Unmap addr) then [EntryIP6 (Addr_Unmap addr), EntryQUIC6 port]
      else [EntryIP addr, EntryQUIC port])"


section \<open>Specification notions\<close>

text \<open>
  A record as a tree: the signature, the sequence number, and the entries as pairs of a key
  and the tree of its value.
\<close>

definition pair_trees :: "(bytes \<times> rlp) list \<Rightarrow> rlp list" where
  "pair_trees kvs = concat (map (\<lambda>(k, t). [Str k, t]) kvs)"

definition record_tree :: "bytes \<Rightarrow> 64 word \<Rightarrow> (bytes \<times> rlp) list \<Rightarrow> rlp" where
  "record_tree sig seq kvs = Lst (Str sig # Str (uint_payload (unat seq)) # pair_trees kvs)"

definition raw_entries :: "(bytes \<times> rlp) list \<Rightarrow> (bytes \<times> bytes) list" where
  "raw_entries kvs = map (\<lambda>(k, t). (k, enc t)) kvs"

text \<open>A record's content is authentic: scheme v4, the key of the record, and its signature.\<close>

definition authentic ::
  "(bytes \<Rightarrow> bytes) \<Rightarrow> ('sk, 'pk, 'n) secp256k1 \<Rightarrow> 'pk \<Rightarrow> bytes \<Rightarrow> 64 word \<Rightarrow> (bytes \<times> rlp) list \<Rightarrow> bool" where
  "authentic keccak lib pk sig seq kvs \<longleftrightarrow>
     length sig = 64 \<and> sorted_wrt (<) (map fst kvs) \<and>
     map_of (raw_entries kvs) (gostr ''id'') = Some (encodeBytes (gostr ''v4'')) \<and>
     map_of (raw_entries kvs) (gostr ''secp256k1'') = Some (encodeBytes (PubKey_Bytes lib pk)) \<and>
     VerifyHash lib pk (keccak (encodeRLPList (encodeSignedContent seq (raw_entries kvs)))) sig"

text \<open>
  What the curve library documents of signing: a compact signature is a recovery byte and two
  canonical scalars, the second at most half the group order, that verify under the public
  key.
\<close>

definition sign_ok :: "('sk, 'pk, 'n) secp256k1 \<Rightarrow> bool" where
  "sign_ok lib \<longleftrightarrow>
     (\<forall>k h. length (SignCompact lib k h) = 65 \<and>
       (\<exists>r s. SetByteSlice lib (take 32 (drop 1 (SignCompact lib k h))) = (r, False) \<and>
              SetByteSlice lib (drop 32 (drop 1 (SignCompact lib k h))) = (s, False) \<and>
              \<not> ScalarIsZero lib r \<and> \<not> ScalarIsZero lib s \<and> \<not> IsOverHalfOrder lib s \<and>
              EcdsaVerify lib (r, s) h (SecretPubKey lib k)))"

text \<open>An application's entry value is one RLP item, as the interface \<open>Entry\<close> requires.\<close>

fun entry_rlp :: "'pk Entry \<Rightarrow> bool" where
  "entry_rlp (EntryApp k (Inr v)) = (\<exists>t. v = enc t)"
| "entry_rlp _ = True"

text \<open>All entries a signed record holds, in the order \<open>Sign\<close> collects them.\<close>

definition signed_entries :: "('sk, 'pk, 'n) secp256k1 \<Rightarrow> 'sk \<Rightarrow> 'pk Entry list \<Rightarrow> 'pk Entry list" where
  "signed_entries lib k es = [EntryID (gostr ''v4''), EntrySecp256k1 (PrivKey_Public lib k)] @ es"

section \<open>Lemmas on records\<close>

lemma pair_trees_Cons [simp]: "pair_trees ((k, t) # kvs) = Str k # t # pair_trees kvs"
  by (simp add: pair_trees_def)

lemma pair_trees_Nil [simp]: "pair_trees [] = []"
  by (simp add: pair_trees_def)

lemma map_of_update_shift:
  "k \<notin> dom m' \<Longrightarrow> m(k \<mapsto> v) ++ m' = m ++ m'(k \<mapsto> v)"
  by (rule ext) (auto simp: map_add_def split: option.splits)

lemma raw_entries_Cons [simp]: "raw_entries ((k, t) # kvs) = (k, enc t) # raw_entries kvs"
  by (simp add: raw_entries_def)

lemma raw_entries_Nil [simp]: "raw_entries [] = []"
  by (simp add: raw_entries_def)

lemma keys_raw_entries [simp]: "map fst (raw_entries kvs) = map fst kvs"
  by (induction kvs) auto

lemma dom_raw_entries: "dom (map_of (raw_entries kvs)) = fst ` set kvs"
  by (force simp: dom_map_of_conv_image_fst raw_entries_def)

lemma pair_trees_empty [simp]: "[] = pair_trees kvs \<longleftrightarrow> kvs = []"
  by (cases kvs) auto

lemma Decode_entries_iff:
  assumes "even (length ts)"
  shows "Decode_entries prev (map item_of ts) m = Inr m' \<longleftrightarrow>
    (\<exists>kvs. ts = pair_trees kvs \<and> sorted_wrt (<) (map fst kvs) \<and> (\<forall>p. prev = Some p \<longrightarrow> (\<forall>k \<in> fst ` set kvs. p < k)) \<and>
       m' = m ++ map_of (raw_entries kvs))"
  using assms
proof (induction "map item_of ts" arbitrary: ts prev m rule: induct_list012)
  case 1
  then show ?case by auto
next
  case (2 x)
  have "length ts = length (map item_of ts)" by simp
  also have "\<dots> = 1" unfolding "2.hyps" [symmetric] by simp
  finally show ?case using "2.prems" by simp
next
  case (3 x y zs)
  then obtain k t us where ts: "ts = k # t # us" "x = item_of k" "y = item_of t" "zs = map item_of us" by auto
  show ?case
  proof (cases k)
    case (Str p)
    have IH: "Decode_entries (Some p) (map item_of us) (m(p \<mapsto> enc t)) = Inr m' \<longleftrightarrow>
      (\<exists>kvs. us = pair_trees kvs \<and> sorted_wrt (<) (map fst kvs) \<and> (\<forall>k \<in> fst ` set kvs. p < k) \<and>
        m' = m(p \<mapsto> enc t) ++ map_of (raw_entries kvs))"
      using "3.hyps"(1) [OF ts(4)] "3.prems" ts(1) by simp
    have shift: "m(p \<mapsto> enc t) ++ map_of (raw_entries kvs) = m ++ map_of (raw_entries ((p, t) # kvs))"
      if "\<forall>k \<in> fst ` set kvs. p < k" for kvs
      using that map_of_update_shift [of p "map_of (raw_entries kvs)"] by (auto simp: dom_raw_entries)
    have ex: "(\<exists>kvs. Str p # t # us = pair_trees kvs \<and> P kvs) \<longleftrightarrow> (\<exists>kvs. us = pair_trees kvs \<and> P ((p, t) # kvs))" for P
    proof
      assume "\<exists>kvs. Str p # t # us = pair_trees kvs \<and> P kvs"
      then obtain kvs where "Str p # t # us = pair_trees kvs" "P kvs" by blast
      then show "\<exists>kvs. us = pair_trees kvs \<and> P ((p, t) # kvs)"
        by (cases kvs) (auto simp: pair_trees_def)
    qed (metis pair_trees_Cons)
    show ?thesis unfolding ts(1) Str ex using IH shift
      by (auto split: option.splits intro: order.strict_trans)
  next
    case (Lst us')
    have "k # t # us \<noteq> pair_trees kvs" for kvs using Lst by (cases kvs) (auto simp: pair_trees_def)
    then show ?thesis using Lst ts(1) by auto
  qed
qed

lemma encodeSignedContent_trees:
  "encodeSignedContent seq (raw_entries kvs) =
     concat (map enc (Str (uint_payload (unat seq)) # pair_trees kvs))"
proof -
  have "concat (map (\<lambda>(k, v). encodeBytes k @ v) (raw_entries kvs)) = concat (map enc (pair_trees kvs))"
    by (induction kvs) auto
  then show ?thesis by (simp add: encodeSignedContent_def encodeUint_eq)
qed


lemma length_enc_pair: "(k, t) \<in> set kvs \<Longrightarrow> length (enc t) < length (enc (record_tree sig seq kvs))"
proof -
  assume kt: "(k, t) \<in> set kvs"
  have "length (enc t) \<le> length (concat (map enc (pair_trees kvs)))" using kt by (induction kvs) auto
  also have "\<dots> \<le> length (concat (map enc (Str sig # Str (uint_payload (unat seq)) # pair_trees kvs)))" by simp
  also have "\<dots> < length (enc (record_tree sig seq kvs))"
    unfolding record_tree_def enc.simps by (rule length_encodeRLPList)
  finally show ?thesis .
qed

lemma Record_Get_Inr: "Record_Get key unmarshal r = Inr x \<longleftrightarrow> (\<exists>v. rec_entries r key = Some v \<and> unmarshal v = Inr x)"
  by (auto simp: Record_Get_def split: option.splits sum.splits)

lemma Record_Get_entries:
  assumes "length (enc (record_tree sig seq kvs)) < 2 ^ 63" "rec_entries r = map_of (raw_entries kvs)"
    and "\<And>v. length v < 2 ^ 63 \<Longrightarrow> unmarshal v = Inr x \<longleftrightarrow> v = w"
  shows "Record_Get key unmarshal r = Inr x \<longleftrightarrow> map_of (raw_entries kvs) key = Some w"
proof -
  have "length v < 2 ^ 63" if v: "map_of (raw_entries kvs) key = Some v" for v
  proof -
    have "(key, v) \<in> set (raw_entries kvs)" using v by (rule map_of_SomeD)
    then obtain t where "(key, t) \<in> set kvs" "v = enc t" by (auto simp: raw_entries_def)
    with length_enc_pair [of key t kvs sig seq] assms(1) show ?thesis by simp
  qed
  then show ?thesis using assms(2,3) by (auto simp: Record_Get_Inr)
qed

lemma unmarshalSecp256k1_iff:
  "secp_ok lib \<Longrightarrow> length raw < 2 ^ 63 \<Longrightarrow> unmarshalSecp256k1 lib raw = Inr pk \<longleftrightarrow> raw = encodeBytes (PubKey_Bytes lib pk)"
proof -
  assume ok: "secp_ok lib" and len: "length raw < 2 ^ 63"
  have "unmarshalSecp256k1 lib raw = Inr pk \<longleftrightarrow> (\<exists>c. decodeBytes raw = Inr c \<and> ParsePubKey lib c = Inr pk)"
    by (auto simp: unmarshalSecp256k1_def split: sum.splits)
  with ok len show ?thesis by (auto simp: decodeBytes_iff ParsePubKey_Bytes)
qed

lemma Record_Get_known:
  assumes "length (enc (record_tree sig seq kvs)) < 2 ^ 63" "rec_entries r = map_of (raw_entries kvs)"
  shows "Record_Get key decodeBytes r = Inr s \<longleftrightarrow> map_of (raw_entries kvs) key = Some (encodeBytes s)"
    and "secp_ok lib \<Longrightarrow> Record_Get key (unmarshalSecp256k1 lib) r = Inr pk \<longleftrightarrow>
      map_of (raw_entries kvs) key = Some (encodeBytes (PubKey_Bytes lib pk))"
  by (rule Record_Get_entries [OF assms]; simp add: decodeBytes_iff unmarshalSecp256k1_iff)+

lemma Decode_parse:
  "Decode keccak lib raw = Inr r \<longleftrightarrow>
    (\<exists>children seq entries pk. length raw \<le> maxRecordSize \<and>
       decodeRLP raw = Inr (RlpItem RlpList (concat (map iraw children)) raw children, []) \<and>
       2 \<le> length children \<and> even (length children) \<and> ikind (children ! 0) = RlpString \<and>
       length (ipayload (children ! 0)) = 64 \<and> decodeUint (children ! 1) = Inr seq \<and>
       Decode_entries None (drop 2 children) Map.empty = Inr entries \<and>
       Record_Get (gostr ''id'') decodeBytes \<lparr>rec_raw = raw, rec_seq = seq, rec_pub = None :: 'pk option, rec_entries = entries\<rparr> =
         Inr (gostr ''v4'') \<and>
       Record_Get (gostr ''secp256k1'') (unmarshalSecp256k1 lib)
         \<lparr>rec_raw = raw, rec_seq = seq, rec_pub = None :: 'pk option, rec_entries = entries\<rparr> = Inr pk \<and>
       VerifyHash lib pk (keccak (encodeRLPList (concat (map iraw (drop 1 children))))) (ipayload (children ! 0)) \<and>
       r = \<lparr>rec_raw = raw, rec_seq = seq, rec_pub = Some (pk :: 'pk), rec_entries = entries\<rparr>)"
    (is "_ \<longleftrightarrow> ?R")
proof
  assume d: "Decode keccak lib raw = Inr r"
  then have len: "length raw \<le> maxRecordSize" by (auto simp: Decode_def split: if_splits)
  from d obtain root where root: "decodeRLP raw = Inr (root, [])" "ikind root = RlpList"
    by (auto simp: Decode_def Let_def split: if_splits sum.splits)
  have "length raw < 2 ^ 63" using len by (simp add: maxRecordSize_def)
  with decodeRLP_sound [OF root(1)] root(2) obtain ts where "raw = enc (Lst ts)" "root = item_of (Lst ts)"
    by (metis append_Nil2 item_of.simps(1) rlp.exhaust rlpItem.sel(1) rlpKind.distinct(1))
  then have "root = RlpItem RlpList (concat (map iraw (ichildren root))) raw (ichildren root)"
    by (simp add: comp_def)
  with d root len show ?R
    by (auto simp: Decode_def Let_def mod_2_eq_odd split: if_splits sum.splits)
next
  assume ?R
  then show "Decode keccak lib raw = Inr r"
    by (auto simp: Decode_def Let_def mod_2_eq_odd)
qed

lemma Decode_sound:
  assumes "secp_ok lib" "Decode keccak lib raw = Inr r"
  shows "\<exists>sig seq kvs pk. length raw \<le> maxRecordSize \<and> raw = enc (record_tree sig seq kvs) \<and>
    authentic keccak lib pk sig seq kvs \<and>
    r = \<lparr>rec_raw = raw, rec_seq = seq, rec_pub = Some pk, rec_entries = map_of (raw_entries kvs)\<rparr>"
proof -
  from assms(2) [unfolded Decode_parse] obtain children seq entries pk where
    len: "length raw \<le> maxRecordSize" and
    root: "decodeRLP raw = Inr (RlpItem RlpList (concat (map iraw children)) raw children, [])" and
    ch: "2 \<le> length children" "even (length children)" "ikind (children ! 0) = RlpString"
      "length (ipayload (children ! 0)) = 64" "decodeUint (children ! 1) = Inr seq" and
    es: "Decode_entries None (drop 2 children) Map.empty = Inr entries" and
    scheme: "Record_Get (gostr ''id'') decodeBytes \<lparr>rec_raw = raw, rec_seq = seq, rec_pub = None :: 'b option, rec_entries = entries\<rparr> =
      Inr (gostr ''v4'')" and
    key: "Record_Get (gostr ''secp256k1'') (unmarshalSecp256k1 lib)
      \<lparr>rec_raw = raw, rec_seq = seq, rec_pub = None :: 'b option, rec_entries = entries\<rparr> = Inr pk" and
    ver: "VerifyHash lib pk (keccak (encodeRLPList (concat (map iraw (drop 1 children))))) (ipayload (children ! 0))" and
    r: "r = \<lparr>rec_raw = raw, rec_seq = seq, rec_pub = Some pk, rec_entries = entries\<rparr>"
    by blast
  have small: "length raw < 2 ^ 63" using len by (simp add: maxRecordSize_def)
  from decodeRLP_sound [OF root small] obtain t where t: "raw = enc t" "item_of t = RlpItem RlpList (concat (map iraw children)) raw children"
    by auto
  then obtain ts where ts: "t = Lst ts" "children = map item_of ts" by (cases t) auto
  from ch(1) ts(2) obtain a b us where us: "ts = a # b # us" by (cases ts; cases "tl ts") auto
  from ch(3,4) ts(2) us obtain sig where sig: "a = Str sig" "length sig = 64" by (cases a) auto
  from ch(5) ts(2) us have "ikind (item_of b) = RlpString \<and> ipayload (item_of b) = uint_payload (unat seq)"
    using decodeUint_iff [of 8 "item_of b" seq] by simp
  then have b: "b = Str (uint_payload (unat seq))" by (cases b) auto
  from es ts(2) us have "Decode_entries None (map item_of us) Map.empty = Inr entries" by simp
  then obtain kvs where kvs: "us = pair_trees kvs" "sorted_wrt (<) (map fst kvs)" "entries = map_of (raw_entries kvs)"
    using Decode_entries_iff [of us None Map.empty entries] ch(2) ts(2) us by auto
  have raw: "raw = enc (record_tree sig seq kvs)" using t ts us sig b kvs(1) by (simp add: record_tree_def)
  have "authentic keccak lib pk sig seq kvs" unfolding authentic_def
  proof (intro conjI sig(2) kvs(2))
    show "map_of (raw_entries kvs) (gostr ''id'') = Some (encodeBytes (gostr ''v4''))"
      using scheme by (simp add: kvs(3) Record_Get_known [OF small [unfolded raw]])
    show "map_of (raw_entries kvs) (gostr ''secp256k1'') = Some (encodeBytes (PubKey_Bytes lib pk))"
      using key by (simp add: kvs(3) Record_Get_known [OF small [unfolded raw]] assms(1))
    have "concat (map iraw (drop 1 children)) = encodeSignedContent seq (raw_entries kvs)"
      using ts us b kvs(1) by (simp add: encodeSignedContent_trees comp_def)
    with ver show "VerifyHash lib pk (keccak (encodeRLPList (encodeSignedContent seq (raw_entries kvs)))) sig"
      using ts us sig by simp
  qed
  with len raw r kvs(3) show ?thesis by blast
qed

lemma Decode_complete:
  assumes "secp_ok lib" "length (enc (record_tree sig seq kvs)) \<le> maxRecordSize" "authentic keccak lib pk sig seq kvs"
  shows "Decode keccak lib (enc (record_tree sig seq kvs)) =
    Inr \<lparr>rec_raw = enc (record_tree sig seq kvs), rec_seq = seq, rec_pub = Some pk, rec_entries = map_of (raw_entries kvs)\<rparr>"
proof -
  let ?raw = "enc (record_tree sig seq kvs)"
  let ?ch = "map item_of (Str sig # Str (uint_payload (unat seq)) # pair_trees kvs)"
  have small: "length ?raw < 2 ^ 63" using assms(2) by (simp add: maxRecordSize_def)
  have root: "decodeRLP ?raw = Inr (RlpItem RlpList (concat (map iraw ?ch)) ?raw ?ch, [])"
    using decodeRLP_enc [of "record_tree sig seq kvs" "[]"] small by (simp add: record_tree_def comp_def)
  have ev: "even (length (pair_trees kvs))" by (induction kvs) auto
  then have es: "Decode_entries None (drop 2 ?ch) Map.empty = Inr (map_of (raw_entries kvs))"
    using Decode_entries_iff [of "pair_trees kvs" None Map.empty] assms(3)
    by (auto simp: authentic_def)
  have "decodeUint (?ch ! 1) = Inr seq" using decodeUint_iff [of 8 "?ch ! 1" seq] by simp
  moreover have "concat (map iraw (drop 1 ?ch)) = encodeSignedContent seq (raw_entries kvs)"
    by (simp add: encodeSignedContent_trees comp_def)
  ultimately show ?thesis
    unfolding Decode_parse using assms root ev es small
    by (intro exI [of _ ?ch] exI [of _ seq] exI [of _ "map_of (raw_entries kvs)"] exI [of _ pk] conjI)
      (simp_all add: authentic_def Record_Get_known [OF small])
qed

section \<open>Lemmas on signing\<close>

lemma VerifyHash_SignHash:
  assumes "sign_ok lib"
  shows "length (SignHash lib k h) = 64 \<and> VerifyHash lib (PrivKey_Public lib k) h (SignHash lib k h)"
proof -
  from assms obtain r s where "length (SignCompact lib k h) = 65"
    "SetByteSlice lib (take 32 (drop 1 (SignCompact lib k h))) = (r, False)"
    "SetByteSlice lib (drop 32 (drop 1 (SignCompact lib k h))) = (s, False)"
    "\<not> ScalarIsZero lib r" "\<not> ScalarIsZero lib s" "\<not> IsOverHalfOrder lib s"
    "EcdsaVerify lib (r, s) h (SecretPubKey lib k)"
    unfolding sign_ok_def by blast
  then show ?thesis by (simp add: VerifyHash_def SignHash_def PrivKey_Public_def)
qed

lemma item_of_inj: "item_of t = item_of t' \<Longrightarrow> t = t'"
proof (induction t arbitrary: t')
  case (Str p)
  then show ?case by (cases t') auto
next
  case (Lst ts)
  then obtain ts' where t': "t' = Lst ts'" "map item_of ts = map item_of ts'" by (cases t') auto
  with Lst.IH show ?case by (auto intro: list.inj_map_strong [of ts ts' item_of item_of])
qed

lemma enc_inj: "length (enc t) < 2 ^ 63 \<Longrightarrow> enc t = enc t' \<Longrightarrow> t = t'"
  using decodeRLP_enc [of t "[]"] decodeRLP_enc [of t' "[]"] item_of_inj by simp

lemma raw_entries_surj: "(\<And>k v. (k, v) \<in> set l \<Longrightarrow> \<exists>t. v = enc t) \<Longrightarrow> \<exists>kvs. raw_entries kvs = l"
proof (induction l)
  case Nil
  then show ?case by (intro exI [of _ "[]"]) simp
next
  case (Cons kv l)
  obtain k v where kv: "kv = (k, v)" by (cases kv)
  from Cons.prems kv obtain t where "v = enc t" by fastforce
  moreover from Cons obtain kvs where "raw_entries kvs = l" by fastforce
  ultimately show ?case using kv by (intro exI [of _ "(k, t) # kvs"]) simp
qed

lemma pair_trees_inj: "pair_trees xs = pair_trees ys \<Longrightarrow> xs = ys"
proof (induction xs arbitrary: ys)
  case (Cons x xs)
  obtain k t where "x = (k, t)" by (cases x)
  with Cons show ?case by (cases ys) auto
qed simp

lemma MarshalValue_rlp: "entry_rlp e \<Longrightarrow> MarshalValue lib e = Inr v \<Longrightarrow> \<exists>t. v = enc t"
  by (cases e) (auto simp: marshalIP_def marshalPort_def encodeUint_eq split: option.splits if_splits
      intro: exI [of _ "Str _"])

lemma marshalEntries_iff:
  "marshalEntries lib es = Inr kvs \<longleftrightarrow> list_all2 (\<lambda>e (k, v). k = Entry_Key e \<and> MarshalValue lib e = Inr v) es kvs"
proof (induction es arbitrary: kvs)
  case (Cons e es)
  have "marshalEntries lib (e # es) = Inr kvs \<longleftrightarrow>
    (\<exists>v kvs'. MarshalValue lib e = Inr v \<and> marshalEntries lib es = Inr kvs' \<and> kvs = (Entry_Key e, v) # kvs')"
    by (auto split: sum.splits)
  with Cons show ?case by (auto simp: list_all2_Cons1)
qed auto

lemma signEntries_tree:
  assumes "raw_entries kvs = sort_key fst l"
  shows "signEntries keccak lib k seq l =
    enc (record_tree (SignHash lib k (keccak (encodeRLPList (encodeSignedContent seq (raw_entries kvs))))) seq kvs)"
  using assms [symmetric] by (simp add: signEntries_def record_tree_def encodeSignedContent_trees Let_def)

lemma marshalEntries_ok: "marshalEntries lib es = Inr l \<Longrightarrow> e \<in> set es \<Longrightarrow> \<exists>v. MarshalValue lib e = Inr v"
  by (induction es arbitrary: l) (auto split: sum.splits)

lemma marshalEntries_keys: "marshalEntries lib es = Inr l \<Longrightarrow> map fst l = map Entry_Key es"
  unfolding marshalEntries_iff by (induction rule: list_all2_induct) auto

lemma marshalEntries_rlp:
  "marshalEntries lib es = Inr l \<Longrightarrow> \<forall>e \<in> set es. entry_rlp e \<Longrightarrow> (k, v) \<in> set l \<Longrightarrow> \<exists>t. v = enc t"
  unfolding marshalEntries_iff by (induction rule: list_all2_induct) (auto dest: MarshalValue_rlp)

lemma marshalEntries_map_of:
  assumes "marshalEntries lib es = Inr l" "distinct (map Entry_Key es)" "e \<in> set es" "MarshalValue lib e = Inr v"
  shows "map_of l (Entry_Key e) = Some v"
  using assms unfolding marshalEntries_iff
  by (induction rule: list_all2_induct) (auto simp: rev_image_eqI)

lemma Sign_iff:
  assumes "secp_ok lib" "sign_ok lib" "\<forall>e \<in> set es. entry_rlp e"
    and l: "marshalEntries lib (signed_entries lib k es) = Inr l"
  shows "Sign keccak lib (Some k) seq es = Inr r \<longleftrightarrow>
    distinct (map Entry_Key (signed_entries lib k es)) \<and>
    length (signEntries keccak lib k seq l) \<le> maxRecordSize \<and>
    r = \<lparr>rec_raw = signEntries keccak lib k seq l, rec_seq = seq, rec_pub = Some (PrivKey_Public lib k), rec_entries = map_of l\<rparr>"
    (is "?S \<longleftrightarrow> ?D \<and> ?L \<and> ?E")
proof -
  let ?raw = "signEntries keccak lib k seq l"
  have S: "?S \<longleftrightarrow> Decode keccak lib ?raw = Inr r" using l by (simp add: Sign_def signed_entries_def)
  have keys: "map fst l = map Entry_Key (signed_entries lib k es)" by (rule marshalEntries_keys [OF l])
  have "\<exists>t. v = enc t" if "(a, v) \<in> set (sort_key fst l)" for a v
    using marshalEntries_rlp [OF l, of a v] that assms(3) by (auto simp: signed_entries_def)
  then obtain kvs where kvs: "raw_entries kvs = sort_key fst l" using raw_entries_surj [of "sort_key fst l"] by blast
  let ?sig = "SignHash lib k (keccak (encodeRLPList (encodeSignedContent seq (raw_entries kvs))))"
  have raw: "?raw = enc (record_tree ?sig seq kvs)" by (rule signEntries_tree [OF kvs])
  have kk: "map fst kvs = map fst (sort_key fst l)" using arg_cong [OF kvs, of "map fst"] by simp
  have D: "?D \<longleftrightarrow> sorted_wrt (<) (map fst kvs)"
    unfolding kk strict_sorted_iff keys [symmetric] by (simp add: distinct_map)
  have m: "map_of (raw_entries kvs) = map_of l" if ?D
  proof -
    have "distinct (map fst l)" unfolding keys by (rule that)
    then show ?thesis unfolding kvs by (subst map_of_inject_set) (simp_all add: distinct_map)
  qed
  have "map_of l (gostr ''id'') = Some (encodeBytes (gostr ''v4''))"
    "map_of l (gostr ''secp256k1'') = Some (encodeBytes (PubKey_Bytes lib (PrivKey_Public lib k)))" if ?D
    using marshalEntries_map_of [OF l that, of "EntryID (gostr ''v4'')"]
      marshalEntries_map_of [OF l that, of "EntrySecp256k1 (PrivKey_Public lib k)"] by (auto simp: signed_entries_def)
  then have auth: "authentic keccak lib (PrivKey_Public lib k) ?sig seq kvs" if ?D
    using that D m VerifyHash_SignHash [OF assms(2)] by (simp add: authentic_def)
  show ?thesis
  proof
    assume S': ?S
    then obtain sig' seq' kvs' pk where d: "length ?raw \<le> maxRecordSize" "?raw = enc (record_tree sig' seq' kvs')"
      "authentic keccak lib pk sig' seq' kvs'"
      using Decode_sound [OF assms(1)] S by blast
    have "record_tree ?sig seq kvs = record_tree sig' seq' kvs'"
      using d raw by (intro enc_inj) (auto simp: maxRecordSize_def)
    then have "kvs' = kvs" by (auto simp: record_tree_def dest: pair_trees_inj)
    with d(3) D have D': ?D by (simp add: authentic_def)
    with S' Decode_complete [OF assms(1) _ auth [OF D']] d(1) raw m [OF D'] show "?D \<and> ?L \<and> ?E"
      by (simp add: S)
  next
    assume R: "?D \<and> ?L \<and> ?E"
    with Decode_complete [OF assms(1) _ auth] raw m show ?S unfolding S by simp
  qed
qed

section \<open>Lemmas on entries\<close>

lemma decodeBytes_encodeBytes: "length (encodeBytes p) < 2 ^ 63 \<Longrightarrow> decodeBytes (encodeBytes p) = Inr p"
  by (simp add: decodeBytes_iff)

lemma checkIP_None:
  "checkIP a sz = None \<longleftrightarrow> a \<noteq> AddrZero \<and> (sz = 4 \<longrightarrow> Addr_Is4 a) \<and> (sz = 16 \<longrightarrow> Addr_Is6 a \<and> \<not> Addr_Is4In6 a) \<and>
     \<not> Addr_IsUnspecified a \<and> \<not> Addr_IsMulticast a"
  by (auto simp: checkIP_def)

lemma length_encodeBytes_short: "length p \<le> 55 \<Longrightarrow> length (encodeBytes p) \<le> 56"
  by (simp add: encodeBytes_def)

lemma unmarshalIP_marshalIP:
  assumes "marshalIP a sz = Inr v" "addr_ok a" "sz = 4 \<or> sz = 16" "\<And>b z. a = Addr6 b z \<Longrightarrow> z = []"
  shows "unmarshalIP v sz = Inr a"
proof -
  from assms(1) have c: "checkIP a sz = None" and v: "v = encodeBytes (Addr_AsSlice a)"
    by (auto simp: marshalIP_def split: option.splits)
  have l: "length (Addr_AsSlice a) = sz" "AddrFromSlice (Addr_AsSlice a) = a"
    using c assms(2-4) by (cases a; auto simp: checkIP_None AddrFromSlice_def)+
  have "length v < 2 ^ 63" using length_encodeBytes_short [of "Addr_AsSlice a"] l(1) assms(3) v by auto
  then show ?thesis using v l c by (simp add: unmarshalIP_def decodeBytes_iff decodeBytes_encodeBytes)
qed

lemma unmarshalIP_Inr:
  "unmarshalIP raw sz = Inr a \<Longrightarrow> checkIP a sz = None \<and> (length raw < 2 ^ 63 \<longrightarrow> raw = encodeBytes (Addr_AsSlice a))"
  by (auto simp: unmarshalIP_def Let_def decodeBytes_iff AddrFromSlice_def checkIP_None split: sum.splits if_splits option.splits)

lemma unmarshalPort_iff: "length raw < 2 ^ 63 \<Longrightarrow> unmarshalPort raw = Inr p \<longleftrightarrow> p \<noteq> 0 \<and> raw = encodeUint p"
proof -
  assume len: "length raw < 2 ^ 63"
  have "unmarshalPort raw = Inr p \<longleftrightarrow> p \<noteq> 0 \<and> (\<exists>item. decodeSingleRLP raw = Inr item \<and> decodeUint item = Inr p)"
    by (auto simp: unmarshalPort_def split: sum.splits)
  also have "\<dots> \<longleftrightarrow> p \<noteq> 0 \<and> decodeBytes raw = Inr (uint_payload (unat p))"
    using decodeUint_iff [of 2 _ p] by (simp add: decodeBytes_item)
  also have "\<dots> \<longleftrightarrow> p \<noteq> 0 \<and> raw = encodeUint p" using len by (simp add: decodeBytes_iff encodeUint_eq)
  finally show ?thesis .
qed

lemma encodeUint_port_length: "length (encodeUint (p :: 16 word)) \<le> 56"
proof -
  have "unat p < 256 ^ 2" using unat_bound [of p] by simp
  then have "length (uint_payload (unat p)) \<le> 2"
    using length_min_be [of "unat p" 2] by (auto simp: uint_payload_def)
  then show ?thesis using length_encodeBytes_short [of "uint_payload (unat p)"] by (simp add: encodeUint_eq)
qed

lemma unmarshalPort_marshalPort: "marshalPort p = Inr v \<Longrightarrow> unmarshalPort v = Inr p"
  using encodeUint_port_length [of p] by (auto simp: marshalPort_def unmarshalPort_iff split: if_splits)

lemma addr_ok_Unmap: "addr_ok a \<Longrightarrow> addr_ok (Addr_Unmap a)"
  by (cases a) auto

section \<open>Endpoints\<close>

lemma Sign_Inr_marshal:
  "Sign keccak lib (Some k) seq es = Inr r \<Longrightarrow> \<exists>l. marshalEntries lib (signed_entries lib k es) = Inr l"
  by (auto simp: Sign_def signed_entries_def split: sum.splits)

lemma Sign_entry:
  assumes "secp_ok lib" "sign_ok lib" "\<forall>e \<in> set es. entry_rlp e" "Sign keccak lib (Some k) seq es = Inr r"
  shows "e \<in> set es \<Longrightarrow> \<exists>v. MarshalValue lib e = Inr v \<and> rec_entries r (Entry_Key e) = Some v"
    and "key \<notin> Entry_Key ` set (signed_entries lib k es) \<Longrightarrow> rec_entries r key = None"
proof -
  from Sign_Inr_marshal [OF assms(4)] obtain l where l: "marshalEntries lib (signed_entries lib k es) = Inr l" ..
  with Sign_iff [OF assms(1-3) l] assms(4) have D: "distinct (map Entry_Key (signed_entries lib k es))"
    and r: "rec_entries r = map_of l" by auto
  show "\<exists>v. MarshalValue lib e = Inr v \<and> rec_entries r (Entry_Key e) = Some v" if e: "e \<in> set es"
  proof -
    have es: "e \<in> set (signed_entries lib k es)" using e by (simp add: signed_entries_def)
    then obtain v where "MarshalValue lib e = Inr v"
      using marshalEntries_ok [OF l] by blast
    with marshalEntries_map_of [OF l D es] r show ?thesis by simp
  qed
  show "rec_entries r key = None" if "key \<notin> Entry_Key ` set (signed_entries lib k es)"
    using that marshalEntries_keys [OF l] unfolding r map_of_eq_None_iff by (metis list.set_map)
qed

lemma gostr_keys_distinct:
  "distinct (map gostr [''id'', ''secp256k1'', ''ip'', ''quic'', ''ip6'', ''quic6''])"
  by (simp add: gostr_def)

lemma Record_QUIC_pair:
  "Record_Get (gostr ''ip'') (\<lambda>raw. unmarshalIP raw 4) r = Inr a \<Longrightarrow> Record_Get (gostr ''quic'') unmarshalPort r = Inr p \<Longrightarrow>
   rec_entries r (gostr ''ip6'') = None \<Longrightarrow> Record_QUIC r = [(a, p)]"
  "Record_Get (gostr ''ip6'') (\<lambda>raw. unmarshalIP raw 16) r = Inr a \<Longrightarrow> Record_Get (gostr ''quic6'') unmarshalPort r = Inr p \<Longrightarrow>
   rec_entries r (gostr ''ip'') = None \<Longrightarrow> Record_QUIC r = [(a, p)]"
  by (simp_all add: Record_QUIC_def Record_Get_def [of "gostr ''ip''"] Record_Get_def [of "gostr ''ip6''"])

lemma two_keys_sign_ok: "sign_ok two_keys"
  by (simp add: sign_ok_def two_keys_def)

section \<open>Properties\<close>

text \<open>
  C20 (authentic records): \<open>Decode\<close> accepts a byte string exactly when it is the canonical
  encoding, of at most 300 bytes, of a signature, a sequence number and entries under strictly
  ascending keys, with scheme v4 and a public key under which the signature verifies; the
  record returned holds exactly that sequence number, that key and those entries.
\<close>
theorem Decode_iff:
  assumes "secp_ok lib"
  shows "Decode keccak lib raw = Inr r \<longleftrightarrow>
    (\<exists>sig seq kvs pk. length raw \<le> maxRecordSize \<and> raw = enc (record_tree sig seq kvs) \<and>
      authentic keccak lib pk sig seq kvs \<and>
      r = \<lparr>rec_raw = raw, rec_seq = seq, rec_pub = Some pk, rec_entries = map_of (raw_entries kvs)\<rparr>)"
  using Decode_sound [OF assms, of keccak raw r] Decode_complete [OF assms] by blast

theorem Decode_iff_witness:
  "\<exists>r. Decode (\<lambda>m. []) two_keys (enc (record_tree (replicate 64 1) 7
     [(gostr ''id'', Str (gostr ''v4'')), (gostr ''secp256k1'', Str (replicate 33 3))])) = Inr r \<and> rec_seq r = 7"
proof -
  let ?kvs = "[(gostr ''id'', Str (gostr ''v4'')), (gostr ''secp256k1'', Str (replicate 33 3))]"
  let ?raw = "enc (record_tree (replicate 64 1) 7 ?kvs)"
  have "length ?raw \<le> maxRecordSize" by code_simp
  moreover have "authentic (\<lambda>m. []) two_keys True (replicate 64 1) 7 ?kvs"
    by (simp add: authentic_def gostr_def raw_entries_def PubKey_Bytes_def VerifyHash_def two_keys_def)
  ultimately have "Decode (\<lambda>m. []) two_keys ?raw =
    Inr \<lparr>rec_raw = ?raw, rec_seq = 7, rec_pub = Some True, rec_entries = map_of (raw_entries ?kvs)\<rparr>"
    unfolding Decode_iff [OF two_keys_ok] by blast
  then show ?thesis by simp
qed

text \<open>
  C21 (signing): given entries that encode, \<open>Sign\<close> succeeds exactly when no key occurs twice,
  \<open>id\<close> and \<open>secp256k1\<close> included, and the record fits in 300 bytes; the record it then returns
  decodes from the signed bytes and holds the sequence number, the public key of the signing
  key and exactly the given entries with those two.
\<close>
theorem Sign_succeeds_iff:
  assumes "secp_ok lib" "sign_ok lib" "\<forall>e \<in> set es. entry_rlp e"
    and "marshalEntries lib (signed_entries lib k es) = Inr l"
  shows "Sign keccak lib (Some k) seq es = Inr r \<longleftrightarrow>
    distinct (map Entry_Key (signed_entries lib k es)) \<and>
    length (signEntries keccak lib k seq l) \<le> maxRecordSize \<and>
    r = \<lparr>rec_raw = signEntries keccak lib k seq l, rec_seq = seq, rec_pub = Some (PrivKey_Public lib k), rec_entries = map_of l\<rparr>"
  using assms by (rule Sign_iff)

theorem Sign_succeeds_iff_witness:
  "\<exists>r. Sign (\<lambda>m. []) two_keys (Some True) 7 [EntryQUIC 9000] = Inr r \<and> rec_pub r = Some True"
proof -
  let ?es = "[EntryQUIC 9000] :: bool Entry list"
  let ?l = "[(gostr ''id'', encodeBytes (gostr ''v4'')), (gostr ''secp256k1'', encodeBytes (replicate 33 3)),
    (gostr ''quic'', encodeUint (9000 :: 16 word))]"
  have l: "marshalEntries two_keys (signed_entries two_keys True ?es) = Inr ?l"
    by (simp add: signed_entries_def marshalPort_def PubKey_Bytes_def PrivKey_Public_def two_keys_def)
  have "distinct (map Entry_Key (signed_entries two_keys True ?es))"
    by (simp add: signed_entries_def gostr_def)
  moreover have "length (signEntries (\<lambda>m. []) two_keys True 7 ?l) \<le> maxRecordSize" by code_simp
  moreover have "\<forall>e \<in> set ?es. entry_rlp e" by simp
  moreover have "PrivKey_Public two_keys True = True" by (simp add: PrivKey_Public_def two_keys_def)
  ultimately show ?thesis using Sign_succeeds_iff [OF two_keys_ok two_keys_sign_ok _ l, of "\<lambda>m. []" 7] by auto
qed

text \<open>
  C33 (advertised endpoints): a record signed with the entries of an endpoint whose address has
  no zone advertises exactly that endpoint, an IPv4-mapped address as the IPv4 address it maps.
\<close>
theorem Sign_EndpointEntries:
  assumes "secp_ok lib" "sign_ok lib" "addr_ok addr" "\<And>b z. addr = Addr6 b z \<Longrightarrow> z = []"
    and "Sign keccak lib (Some k) seq (EndpointEntries addr port) = Inr r"
  shows "Record_QUIC r = [(Addr_Unmap addr, port)]"
proof -
  have rlp: "\<forall>e \<in> set (EndpointEntries addr port). entry_rlp e" by (simp add: EndpointEntries_def)
  note entry = Sign_entry(1) [OF assms(1,2) rlp assms(5)] and absent = Sign_entry(2) [OF assms(1,2) rlp assms(5)]
  have z: "\<And>b z. Addr_Unmap addr = Addr6 b z \<Longrightarrow> z = []" using assms(4) by (cases addr) (auto split: if_splits)
  note ip = unmarshalIP_marshalIP [OF _ addr_ok_Unmap [OF assms(3)] _ z]
  show ?thesis
  proof (cases "Addr_Is6 (Addr_Unmap addr)")
    case True
    then have E: "EndpointEntries addr port = [EntryIP6 (Addr_Unmap addr), EntryQUIC6 port]"
      by (simp add: EndpointEntries_def)
    from entry [of "EntryIP6 (Addr_Unmap addr)"] entry [of "EntryQUIC6 port"] obtain v w where
      "marshalIP (Addr_Unmap addr) 16 = Inr v" "rec_entries r (gostr ''ip6'') = Some v"
      "marshalPort port = Inr w" "rec_entries r (gostr ''quic6'') = Some w" by (auto simp: E)
    then have "Record_Get (gostr ''ip6'') (\<lambda>raw. unmarshalIP raw 16) r = Inr (Addr_Unmap addr)"
      "Record_Get (gostr ''quic6'') unmarshalPort r = Inr port"
      by (auto simp: Record_Get_Inr intro: ip unmarshalPort_marshalPort)
    moreover have "rec_entries r (gostr ''ip'') = None"
      using gostr_keys_distinct by (intro absent) (auto simp: E signed_entries_def)
    ultimately show ?thesis by (rule Record_QUIC_pair(2))
  next
    case False
    then have E: "EndpointEntries addr port = [EntryIP addr, EntryQUIC port]"
      by (simp add: EndpointEntries_def)
    from entry [of "EntryIP addr"] entry [of "EntryQUIC port"] obtain v w where
      "marshalIP (Addr_Unmap addr) 4 = Inr v" "rec_entries r (gostr ''ip'') = Some v"
      "marshalPort port = Inr w" "rec_entries r (gostr ''quic'') = Some w" by (auto simp: E)
    then have "Record_Get (gostr ''ip'') (\<lambda>raw. unmarshalIP raw 4) r = Inr (Addr_Unmap addr)"
      "Record_Get (gostr ''quic'') unmarshalPort r = Inr port"
      by (auto simp: Record_Get_Inr intro: ip unmarshalPort_marshalPort)
    moreover have "rec_entries r (gostr ''ip6'') = None"
      using gostr_keys_distinct by (intro absent) (auto simp: E signed_entries_def)
    ultimately show ?thesis by (rule Record_QUIC_pair(1))
  qed
qed

theorem Sign_EndpointEntries_witness:
  "\<exists>r. Sign (\<lambda>m. []) two_keys (Some True) 7 (EndpointEntries (Addr4 [10, 0, 0, 1]) 9000) = Inr r \<and>
     Record_QUIC r = [(Addr4 [10, 0, 0, 1], 9000)]"
proof -
  let ?es = "EndpointEntries (Addr4 [10, 0, 0, 1]) 9000 :: bool Entry list"
  let ?l = "[(gostr ''id'', encodeBytes (gostr ''v4'')), (gostr ''secp256k1'', encodeBytes (replicate 33 3)),
    (gostr ''ip'', encodeBytes [10, 0, 0, 1]), (gostr ''quic'', encodeUint (9000 :: 16 word))]"
  have rlp: "\<forall>e \<in> set ?es. entry_rlp e" by (simp add: EndpointEntries_def)
  have ip: "checkIP (Addr4 [10, 0, 0, 1]) 4 = None" by code_simp
  have l: "marshalEntries two_keys (signed_entries two_keys True ?es) = Inr ?l"
    using ip by (simp add: EndpointEntries_def signed_entries_def marshalPort_def marshalIP_def
        PubKey_Bytes_def PrivKey_Public_def two_keys_def)
  have "distinct (map Entry_Key (signed_entries two_keys True ?es))"
    by (simp add: EndpointEntries_def signed_entries_def gostr_def)
  moreover have "length (signEntries (\<lambda>m. []) two_keys True 7 ?l) \<le> maxRecordSize" by code_simp
  ultimately obtain r where "Sign (\<lambda>m. []) two_keys (Some True) 7 ?es = Inr r"
    using Sign_iff [OF two_keys_ok two_keys_sign_ok rlp l, of "\<lambda>m. []" 7] by blast
  with Sign_EndpointEntries [OF two_keys_ok two_keys_sign_ok _ _ this] show ?thesis by simp
qed

text \<open>
  C34 (IPv6 entries): from a record signed with an \<open>ip6\<close> entry, \<open>Record.Get\<close> returns the address
  without its zone. The one exception is the unspecified address with a zone: \<open>MarshalValue\<close> lets
  it pass, and \<open>UnmarshalValue\<close> then rejects the entry as unspecified.
\<close>
theorem Sign_EntryIP6:
  assumes "secp_ok lib" "sign_ok lib" "\<forall>e \<in> set es. entry_rlp e" "addr_ok (Addr6 b z)" "EntryIP6 (Addr6 b z) \<in> set es"
    and "Sign keccak lib (Some k) seq es = Inr r"
  shows "Record_Get (gostr ''ip6'') (\<lambda>raw. unmarshalIP raw 16) r =
    (if b = replicate 16 0 then Inl (Wrap ''ENR key'' (ErrNew ''address is unspecified or multicast'')) else Inr (Addr6 b []))"
proof -
  from Sign_entry(1) [OF assms(1-3,6), of "EntryIP6 (Addr6 b z)"] assms(5) obtain v where
    v: "marshalIP (Addr6 b z) 16 = Inr v" "rec_entries r (gostr ''ip6'') = Some v"
    by (auto simp: signed_entries_def)
  then have c: "checkIP (Addr6 b z) 16 = None" "v = encodeBytes b" by (auto simp: marshalIP_def split: option.splits)
  have "unmarshalIP v 16 = (if b = replicate 16 0 then Inl (ErrNew ''address is unspecified or multicast'') else Inr (Addr6 b []))"
  proof (cases "b = replicate 16 0")
    case True
    have "\<not> Addr_Is4In6 (Addr6 (replicate 16 0) [])" by code_simp
    then show ?thesis using length_encodeBytes_short [of "replicate 16 0"]
      by (simp add: c True checkIP_def Addr_IsUnspecified_def unmarshalIP_def decodeBytes_iff
          decodeBytes_encodeBytes AddrFromSlice_def Let_def del: Addr_Is4In6.simps)
  next
    case False
    then have "marshalIP (Addr6 b []) 16 = Inr v" using c
      by (auto simp: marshalIP_def checkIP_None Addr_IsUnspecified_def split: option.split)
    from unmarshalIP_marshalIP [OF this] assms(4) False show ?thesis by simp
  qed
  then show ?thesis using v(2) by (simp add: Record_Get_def)
qed

theorem Sign_EntryIP6_witness:
  "\<exists>r. Sign (\<lambda>m. []) two_keys (Some True) 7 [EntryIP6 (Addr6 (replicate 16 0) ''eth0'')] = Inr r \<and>
     Record_Get (gostr ''ip6'') (\<lambda>raw. unmarshalIP raw 16) r = Inl (Wrap ''ENR key'' (ErrNew ''address is unspecified or multicast''))"
proof -
  let ?es = "[EntryIP6 (Addr6 (replicate 16 0) ''eth0'')] :: bool Entry list"
  let ?l = "[(gostr ''id'', encodeBytes (gostr ''v4'')), (gostr ''secp256k1'', encodeBytes (replicate 33 3)),
    (gostr ''ip6'', encodeBytes (replicate 16 0))]"
  have rlp: "\<forall>e \<in> set ?es. entry_rlp e" by simp
  have ip: "checkIP (Addr6 (replicate 16 0) ''eth0'') 16 = None" by code_simp
  have l: "marshalEntries two_keys (signed_entries two_keys True ?es) = Inr ?l"
    using ip by (simp add: signed_entries_def marshalIP_def PubKey_Bytes_def PrivKey_Public_def two_keys_def)
  have "distinct (map Entry_Key (signed_entries two_keys True ?es))" by (simp add: signed_entries_def gostr_def)
  moreover have "length (signEntries (\<lambda>m. []) two_keys True 7 ?l) \<le> maxRecordSize" by code_simp
  ultimately obtain r where "Sign (\<lambda>m. []) two_keys (Some True) 7 ?es = Inr r"
    using Sign_iff [OF two_keys_ok two_keys_sign_ok rlp l, of "\<lambda>m. []" 7] by blast
  with Sign_EntryIP6 [OF two_keys_ok two_keys_sign_ok rlp _ _ this, of "replicate 16 0" "''eth0''"] show ?thesis by simp
qed

end
