(* ===== verification/BcastTypes.thy ===== *)
theory BcastTypes
  imports Prelude
begin

text \<open>
  \<open>src/broadcast/types.go\<close>, \<open>errors.go\<close>, \<open>observer.go\<close> and the events from sessions to peers of
  \<open>events.go\<close>: the identifiers, verdicts, errors and requests that the parts of the broadcast
  package exchange, and the interface \<open>Strategy\<close> as a record of functions on the strategy's
  state. A Go pointer or channel that several parts share is a reference, a natural number.
\<close>

section \<open>Identifiers, verdicts and errors\<close>

type_synonym PeerID = bytes
type_synonym ChannelID = string
type_synonym MessageID = string
type_synonym ChunkHandle = "64 word"

datatype Verdict =
    VerdictAccepted
  | VerdictRedundant
  | VerdictDecoding
  | VerdictSurplus
  | VerdictInvalid
  | VerdictPending

datatype SessionRole = SessionRoleOrigin | SessionRoleRelay

definition ProtocolV1 :: "32 word" where "ProtocolV1 = 1"

definition ErrEngineClosed :: goerr where "ErrEngineClosed = ErrNew ''engine closed''"
definition ErrChannelExists :: goerr where "ErrChannelExists = ErrNew ''channel already exists''"
definition ErrProtocolMismatch :: goerr where "ErrProtocolMismatch = ErrNew ''protocol version mismatch''"
definition ErrAlreadySubscribed :: goerr where "ErrAlreadySubscribed = ErrNew ''channel already has a subscriber''"
definition ErrUnbufferedSubscription :: goerr where "ErrUnbufferedSubscription = ErrNew ''subscriber channel must be buffered''"
definition ErrChunkMarshal :: goerr where "ErrChunkMarshal = ErrNew ''chunk ID marshal failed''"
definition ErrChunkPeerGone :: goerr where "ErrChunkPeerGone = ErrNew ''peer not attached or data length mismatch''"
definition ErrChunkSlotFull :: goerr where "ErrChunkSlotFull = ErrNew ''outbound chunk slot full''"
definition ErrChunkWriteFail :: goerr where "ErrChunkWriteFail = ErrNew ''chunk write to peer failed''"
definition ErrChunkCancelled :: goerr where "ErrChunkCancelled = ErrNew ''chunk send cancelled''"

record ChunkProcessError =
  err_peer :: "PeerID option"
  err_channelID :: ChannelID
  err_messageID :: MessageID
  err_err :: goerr

text \<open>The calls of the \<open>Observer\<close>, recorded in the order they are made.\<close>

datatype observation =
    OnChannelAttached ChannelID "goerr option"
  | OnChannelDropped ChannelID
  | OnPeerHandshook PeerID "ChannelID list"
  | OnPeerSubscribed PeerID ChannelID
  | OnPeerUnsubscribed PeerID ChannelID
  | OnPeerGone PeerID
  | OnSessionStarted ChannelID MessageID SessionRole
  | OnSessionDecoded ChannelID MessageID
  | OnSessionDisposed ChannelID MessageID string
  | OnChunkSent PeerID ChannelID MessageID int
  | OnChunkRcvd PeerID ChannelID MessageID Verdict
  | OnChunkError ChunkProcessError
  | OnRoutingUpdate PeerID ChannelID MessageID
  | OnPreambleOpened PeerID ChannelID MessageID
  | OnStrategyProgress ChannelID MessageID int int

section \<open>What a session asks of a peer\<close>

datatype sessionKey = sessionKey (sk_channelID: ChannelID) (sk_messageID: MessageID)

record peerOpenSession =
  os_channelID :: ChannelID
  os_messageID :: MessageID
  os_preamble :: bytes
  os_initialRouting :: bytes
  os_chunkOutbox :: nat

datatype peerCtrlEvent =
    OpenSession peerOpenSession
  | SendRouting sessionKey bytes
  | Subscribe ChannelID
  | Unsubscribe ChannelID
  | CloseSession sessionKey
  | CloseStream sessionKey

text \<open>
  A chunk on its way to a peer. \<open>resultCh\<close> is the inbox of the channel \<open>sc_channelID\<close>, and
  \<open>sessionDone\<close> belongs to the session's context.
\<close>

record peerSendChunk =
  sc_peerID :: PeerID
  sc_channelID :: ChannelID
  sc_messageID :: MessageID
  sc_handle :: ChunkHandle
  sc_chunkID :: bytes
  sc_payload :: bytes
  sc_ctx :: nat
  sc_sessCtx :: nat

section \<open>Strategies\<close>

datatype 'ci ChunkDispatch = ChunkDispatch (dPeer: PeerID) (dChunkID: 'ci) (dData: bytes)

text \<open>
  \<open>Scheme\<close> and the interface \<open>Strategy\<close> over states \<open>'s\<close>, chunk identifiers \<open>'ci\<close>, routing
  states \<open>'r\<close> and preambles \<open>'p\<close>, with the wire methods of these types. A result \<open>None\<close> is a panic.
  \<open>PollChunks\<close> gets the order in which the runtime ranges over the strategy's map of peers,
  \<open>TakeChunk\<close> also returns whether it called \<open>dedup.Cancel\<close>, and \<open>NewRelay\<close> gets the random
  number it draws.
\<close>

record ('s, 'ci, 'r, 'p) Scheme =
  NewOrigin :: "MessageID \<Rightarrow> bytes \<Rightarrow> (goerr + 's \<times> 'p) option"
  NewRelay :: "64 word \<Rightarrow> MessageID \<Rightarrow> 'p \<Rightarrow> goerr + 's"
  P_Marshal :: "'p \<Rightarrow> goerr + bytes"
  P_Unmarshal :: "bytes \<Rightarrow> goerr + 'p"
  CI_Marshal :: "'ci \<Rightarrow> goerr + bytes"
  CI_Unmarshal :: "bytes \<Rightarrow> goerr + 'ci"
  CI_Handle :: "'ci \<Rightarrow> ChunkHandle"
  R_Marshal :: "'r \<Rightarrow> goerr + bytes"
  R_Unmarshal :: "bytes \<Rightarrow> goerr + 'r"
  Strategy_HaveChunk :: "'s \<Rightarrow> 'ci \<Rightarrow> bool"
  Strategy_DedupKey :: "'s \<Rightarrow> 'ci \<Rightarrow> bytes option"
  Strategy_AttachPeer :: "'s \<Rightarrow> PeerID \<Rightarrow> 's"
  Strategy_DetachPeer :: "'s \<Rightarrow> PeerID \<Rightarrow> bool \<Rightarrow> 's"
  Strategy_VerifyChunk :: "'s \<Rightarrow> PeerID \<Rightarrow> 'ci \<Rightarrow> bytes \<Rightarrow> Verdict"
  Strategy_TakeChunk :: "'s \<Rightarrow> PeerID \<Rightarrow> 'ci \<Rightarrow> bytes \<Rightarrow> (Verdict \<times> bool \<times> goerr option \<times> bool \<times> 's) option"
  Strategy_RoutingUpdate :: "'s \<Rightarrow> PeerID \<Rightarrow> 'r \<Rightarrow> ChunkHandle list \<times> goerr option \<times> 's"
  Strategy_PollChunks :: "'s \<Rightarrow> PeerID list \<Rightarrow> ('ci ChunkDispatch list \<times> 's) option"
  Strategy_PollRouting :: "'s \<Rightarrow> bool \<Rightarrow> ('r option \<times> 's) option"
  Strategy_ChunkSent :: "'s \<Rightarrow> PeerID \<Rightarrow> ChunkHandle \<Rightarrow> goerr option \<Rightarrow> 's option"
  Strategy_Progress :: "'s \<Rightarrow> int \<times> int"
  Strategy_Decode :: "'s \<Rightarrow> (goerr + bytes) option"

end
