(* ===== verification/RSTypes.thy ===== *)
theory RSTypes
  imports Prelude "HOL-Library.Signed_Division" "HOL-Library.Monad_Syntax"
begin

text \<open>
  \<open>src/broadcast/rs/types.go\<close>: the configuration of the Reed-Solomon scheme, chunk identifiers
  and preambles with their protobuf encoding, and how a message is cut into chunks. Go's
  \<open>int\<close> is the unbounded \<open>int\<close>: the counts here are lengths of slices and 32-bit fields. The
  lemmas show which preambles and identifiers survive their encoding and that the layout of a
  message always has room for its bytes.
\<close>

section \<open>Configuration\<close>

record Config =
  DataShards :: int
  ParityShards :: int
  ChunkLen :: int
  BitmapThreshold :: int
  ForwardMultiplier :: int
  DisableBitmap :: bool

definition Config_Validate :: "Config \<Rightarrow> goerr option" where
  "Config_Validate c =
     (if DataShards c < 0 \<or> ParityShards c < 0 \<or> ChunkLen c < 0 \<or> BitmapThreshold c < 0 \<or> ForwardMultiplier c < 0
      then Some (ErrNew ''RS config fields must be non-negative'')
      else if ChunkLen c = 0 \<and> (DataShards c = 0 \<or> ParityShards c = 0)
      then Some (ErrNew ''data_shards and parity_shards must be positive when chunk_len is zero'')
      else None)"

definition DefaultConfig :: Config where
  "DefaultConfig = \<lparr>DataShards = 16, ParityShards = 16, ChunkLen = 0, BitmapThreshold = 50,
     ForwardMultiplier = 4, DisableBitmap = False\<rparr>"

section \<open>Wire types\<close>

text \<open>
  The messages of \<open>rs.proto\<close>, with \<open>int32\<close> fields, and the protobuf library's \<open>Marshal\<close> and
  \<open>Unmarshal\<close> for them.
\<close>

record rspb_Preamble =
  NumData :: "32 word"
  NumParity :: "32 word"
  Length :: "32 word"
  Hashes :: "bytes list"
  Hash :: bytes

record rspb =
  marshal_ChunkIdent :: "32 word \<Rightarrow> goerr + bytes"
  unmarshal_ChunkIdent :: "bytes \<Rightarrow> goerr + 32 word"
  marshal_Preamble :: "rspb_Preamble \<Rightarrow> goerr + bytes"
  unmarshal_Preamble :: "bytes \<Rightarrow> goerr + rspb_Preamble"

datatype ChunkIdent = ChunkIdent (Index: int)

definition ChunkIdent_Marshal :: "rspb \<Rightarrow> ChunkIdent \<Rightarrow> goerr + bytes" where
  "ChunkIdent_Marshal pb ci = marshal_ChunkIdent pb (word_of_int (Index ci))"

definition ChunkIdent_Unmarshal :: "rspb \<Rightarrow> bytes \<Rightarrow> goerr + ChunkIdent" where
  "ChunkIdent_Unmarshal pb data =
     (case unmarshal_ChunkIdent pb data of
        Inl e \<Rightarrow> Inl e
      | Inr w \<Rightarrow> Inr (ChunkIdent (sint w)))"

text \<open>\<open>ChunkHandle\<close> is a \<open>uint64\<close>.\<close>

definition ChunkIdent_Handle :: "ChunkIdent \<Rightarrow> 64 word" where
  "ChunkIdent_Handle ci = word_of_int (Index ci)"

record Preamble =
  DataChunks :: int
  ParityChunks :: int
  MessageLength :: int
  ChunkHashes :: "bytes list"
  MessageHash :: bytes

definition TotalChunks :: "Preamble \<Rightarrow> int" where
  "TotalChunks p = DataChunks p + ParityChunks p"

definition Preamble_Marshal :: "rspb \<Rightarrow> Preamble \<Rightarrow> goerr + bytes" where
  "Preamble_Marshal pb p =
     marshal_Preamble pb \<lparr>NumData = word_of_int (DataChunks p), NumParity = word_of_int (ParityChunks p),
       Length = word_of_int (MessageLength p), Hashes = ChunkHashes p, Hash = MessageHash p\<rparr>"

definition Preamble_Unmarshal :: "rspb \<Rightarrow> bytes \<Rightarrow> goerr + Preamble" where
  "Preamble_Unmarshal pb data =
     (case unmarshal_Preamble pb data of
        Inl e \<Rightarrow> Inl e
      | Inr m \<Rightarrow> Inr \<lparr>DataChunks = sint (NumData m), ParityChunks = sint (NumParity m),
          MessageLength = sint (Length m), ChunkHashes = Hashes m, MessageHash = Hash m\<rparr>)"

section \<open>Cutting a message into chunks\<close>

text \<open>\<open>divCeil\<close> on \<open>int\<close>: division truncates, and by zero it panics.\<close>

definition int_divCeil :: "int \<Rightarrow> int \<Rightarrow> int option" where
  "int_divCeil n d = (if d = 0 then None else Some ((n + d - 1) sdiv d))"

definition initPreamble :: "Config \<Rightarrow> int \<Rightarrow> (Preamble \<times> int) option" where
  "initPreamble cfg msgLen =
     (let p = \<lparr>DataChunks = 0, ParityChunks = 0, MessageLength = msgLen, ChunkHashes = [], MessageHash = []\<rparr>;
          chunkLen = ChunkLen cfg
      in if chunkLen = 0 then
           do {
             let p = p\<lparr>DataChunks := DataShards cfg, ParityChunks := ParityShards cfg\<rparr>;
             chunkLen \<leftarrow> int_divCeil msgLen (DataChunks p);
             Some (p, if 256 \<le> TotalChunks p then chunkLen + (64 - chunkLen smod 64) smod 64 else chunkLen)
           }
         else
           do {
             n \<leftarrow> int_divCeil msgLen chunkLen;
             Some (p\<lparr>DataChunks := n, ParityChunks := n\<rparr>, chunkLen)
           })"

section \<open>Lemmas\<close>

lemma sdiv_nonneg: "0 \<le> k \<Longrightarrow> 0 < l \<Longrightarrow> k sdiv l = k div (l :: int)"
  by (cases "k = 0") (simp_all add: signed_divide_int_def)

lemma smod_nonneg: "0 \<le> k \<Longrightarrow> 0 < l \<Longrightarrow> k smod l = k mod (l :: int)"
  by (cases "k = 0") (simp_all add: signed_modulo_int_def)

lemma divCeil_bounds:
  assumes "0 < n" "0 < (d :: int)"
  shows "int_divCeil n d = Some ((n + d - 1) div d)" "1 \<le> (n + d - 1) div d" "n \<le> (n + d - 1) div d * d"
proof -
  show "int_divCeil n d = Some ((n + d - 1) div d)" using assms by (simp add: int_divCeil_def sdiv_nonneg)
  show "1 \<le> (n + d - 1) div d" using assms by (simp add: pos_imp_zdiv_pos_iff int_one_le_iff_zero_less)
  have "(n + d - 1) mod d < d" using assms by simp
  moreover have "(n + d - 1) div d * d + (n + d - 1) mod d = n + d - 1" by simp
  ultimately show "n \<le> (n + d - 1) div d * d" by linarith
qed

text \<open>
  The layout of a non-empty message under a valid configuration: at least one chunk of at least
  one byte, room for every byte of the message, and for a layout of the code's own choosing a
  chunk length aligned to 64 when there are 256 chunks or more.
\<close>

lemma initPreamble_layout:
  assumes "Config_Validate cfg = None" "0 < msgLen"
  shows "\<exists>p L. initPreamble cfg msgLen = Some (p, L) \<and> 0 < DataChunks p \<and> 0 < ParityChunks p \<and> MessageLength p = msgLen \<and>
    1 \<le> L \<and> msgLen \<le> L * DataChunks p \<and> (ChunkLen cfg \<noteq> 0 \<longrightarrow> L = ChunkLen cfg) \<and>
    (ChunkLen cfg = 0 \<and> 256 \<le> TotalChunks p \<longrightarrow> 64 dvd L)"
proof (cases "ChunkLen cfg = 0")
  case True
  then have ds: "0 < DataShards cfg" "0 < ParityShards cfg" using assms(1) by (auto simp: Config_Validate_def split: if_splits)
  define L where "L = (msgLen + DataShards cfg - 1) div DataShards cfg"
  note b = divCeil_bounds [OF assms(2) ds(1), folded L_def]
  define L' where "L' = (if 256 \<le> DataShards cfg + ParityShards cfg then L + (64 - L smod 64) smod 64 else L)"
  have sm: "(64 - L smod 64) smod 64 = (64 - L mod 64) mod 64" using b(2) by (simp add: smod_nonneg)
  then have le: "L \<le> L'" by (simp add: L'_def)
  have al: "64 dvd L'" if "256 \<le> DataShards cfg + ParityShards cfg"
    using that sm by (simp add: L'_def mod_eq_0_iff_dvd [symmetric] mod_simps)
  have "msgLen \<le> L * DataShards cfg" using b(3) by (simp add: L_def mult.commute)
  also have "\<dots> \<le> L' * DataShards cfg" using le ds(1) by simp
  finally have "msgLen \<le> L' * DataShards cfg" .
  then show ?thesis using True ds b(1,2) le al by (simp add: initPreamble_def Let_def TotalChunks_def L'_def)
next
  case False
  then have c: "0 < ChunkLen cfg" using assms(1) by (auto simp: Config_Validate_def split: if_splits)
  note b = divCeil_bounds [OF assms(2) c]
  then show ?thesis using False c by (simp add: initPreamble_def Let_def mult.commute)
qed

text \<open>What the protobuf library promises: \<open>Unmarshal\<close> reads back what \<open>Marshal\<close> wrote.\<close>

definition rspb_ok :: "rspb \<Rightarrow> bool" where
  "rspb_ok pb \<longleftrightarrow> (\<forall>w bs. marshal_ChunkIdent pb w = Inr bs \<longrightarrow> unmarshal_ChunkIdent pb bs = Inr w) \<and>
     (\<forall>m bs. marshal_Preamble pb m = Inr bs \<longrightarrow> unmarshal_Preamble pb bs = Inr m)"

definition int32_range :: "int \<Rightarrow> bool" where
  "int32_range n \<longleftrightarrow> - (2 ^ 31) \<le> n \<and> n < 2 ^ 31"

lemma sint_int32: "sint (word_of_int n :: 32 word) = n \<longleftrightarrow> int32_range n"
  by (simp add: sint_sbintrunc' int32_range_def signed_take_bit_int_eq_self_iff)

section \<open>Properties\<close>

text \<open>
  C22 (wire types of the scheme): a preamble comes back from its encoding unchanged exactly when
  its two chunk counts and its message length fit in 32 signed bits, and a chunk identifier
  exactly when its index does.
\<close>
theorem Preamble_roundtrip:
  assumes "rspb_ok pb"
  shows "(Preamble_Marshal pb p = Inr bs \<longrightarrow>
      (Preamble_Unmarshal pb bs = Inr p \<longleftrightarrow>
         int32_range (DataChunks p) \<and> int32_range (ParityChunks p) \<and> int32_range (MessageLength p))) \<and>
    (ChunkIdent_Marshal pb ci = Inr bs' \<longrightarrow>
      (ChunkIdent_Unmarshal pb bs' = Inr ci \<longleftrightarrow> int32_range (Index ci)))"
proof -
  have "Preamble_Unmarshal pb bs = Inr p \<longleftrightarrow>
      int32_range (DataChunks p) \<and> int32_range (ParityChunks p) \<and> int32_range (MessageLength p)"
    if "Preamble_Marshal pb p = Inr bs"
  proof -
    have "unmarshal_Preamble pb bs = Inr \<lparr>NumData = word_of_int (DataChunks p), NumParity = word_of_int (ParityChunks p),
       Length = word_of_int (MessageLength p), Hashes = ChunkHashes p, Hash = MessageHash p\<rparr>"
      using that assms by (simp add: Preamble_Marshal_def rspb_ok_def)
    then show ?thesis by (cases p) (simp add: Preamble_Unmarshal_def sint_int32)
  qed
  moreover have "ChunkIdent_Unmarshal pb bs' = Inr ci \<longleftrightarrow> int32_range (Index ci)" if "ChunkIdent_Marshal pb ci = Inr bs'"
    using that assms by (cases ci) (simp add: ChunkIdent_Marshal_def ChunkIdent_Unmarshal_def rspb_ok_def sint_int32)
  ultimately show ?thesis by blast
qed

text \<open>A library that can encode one identifier and the preamble of one small message.\<close>

definition small_pb :: rspb where
  "small_pb = \<lparr>marshal_ChunkIdent = \<lambda>w. if w = 3 then Inr [8, 3] else Inl (ErrNew ''marshal''),
     unmarshal_ChunkIdent = \<lambda>bs. if bs = [8, 3] then Inr 3 else Inl (ErrNew ''unmarshal''),
     marshal_Preamble = \<lambda>m. if m = \<lparr>NumData = 1, NumParity = 0, Length = 2, Hashes = [], Hash = []\<rparr> then Inr [8, 1, 24, 2] else Inl (ErrNew ''marshal''),
     unmarshal_Preamble = \<lambda>bs. if bs = [8, 1, 24, 2] then Inr \<lparr>NumData = 1, NumParity = 0, Length = 2, Hashes = [], Hash = []\<rparr>
       else Inl (ErrNew ''unmarshal'')\<rparr>"

theorem Preamble_roundtrip_witness:
  "Preamble_Unmarshal small_pb [8, 1, 24, 2] =
     Inr \<lparr>DataChunks = 1, ParityChunks = 0, MessageLength = 2, ChunkHashes = [], MessageHash = []\<rparr> \<and>
   ChunkIdent_Unmarshal small_pb [8, 3] = Inr (ChunkIdent 3)"
proof -
  have "rspb_ok small_pb" by (simp add: rspb_ok_def small_pb_def)
  from Preamble_roundtrip [OF this, of "\<lparr>DataChunks = 1, ParityChunks = 0, MessageLength = 2, ChunkHashes = [], MessageHash = []\<rparr>" "[8, 1, 24, 2]" "ChunkIdent 3" "[8, 3]"]
  show ?thesis by (simp add: int32_range_def Preamble_Marshal_def ChunkIdent_Marshal_def) (simp add: small_pb_def)
qed

end
