(* ===== verification/Bitmap.thy ===== *)
theory Bitmap
  imports Prelude
begin

text \<open>
  \<open>src/broadcast/rs/bitmap.go\<close>: bitmaps of chunk indices, one bit per index, least significant
  bit first. The abstraction \<open>ones\<close> reads a bitmap as the set of its indices; every operation
  is shown to act on that set as intended, whatever the lengths of its arguments. Indices and
  sizes are natural numbers: the callers in \<open>strategy.go\<close> check the lower bound before they call.
\<close>

unbundle bit_operations_syntax

type_synonym bitmap = bytes

definition divCeil :: "nat \<Rightarrow> nat \<Rightarrow> nat" where
  "divCeil n d = (n + d - 1) div d"

definition NewBitmap :: "nat \<Rightarrow> bitmap" where
  "NewBitmap n = replicate (divCeil n 8) 0"

definition Bitmap_Set :: "bitmap \<Rightarrow> nat \<Rightarrow> bitmap" where
  "Bitmap_Set b index =
     (if length b * 8 \<le> index then b
      else b[index div 8 := b ! (index div 8) OR push_bit (index mod 8) 1])"

definition AllOnesBitmap :: "nat \<Rightarrow> bitmap" where
  "AllOnesBitmap n = fold (\<lambda>i b. Bitmap_Set b i) [0..<n] (replicate (divCeil n 8) 0)"

definition Bitmap_Get :: "bitmap \<Rightarrow> nat \<Rightarrow> bool" where
  "Bitmap_Get b index =
     (if length b * 8 \<le> index then False
      else b ! (index div 8) AND push_bit (index mod 8) 1 \<noteq> 0)"

definition Bitmap_Unset :: "bitmap \<Rightarrow> nat \<Rightarrow> bitmap" where
  "Bitmap_Unset b index =
     (if length b * 8 \<le> index then b
      else b[index div 8 := b ! (index div 8) AND NOT (push_bit (index mod 8) 1)])"

text \<open>\<open>bits.OnesCount8\<close>.\<close>

definition OnesCount8 :: "byte \<Rightarrow> nat" where
  "OnesCount8 w = length (filter (bit w) [0..<8])"

definition Bitmap_OnesCount :: "bitmap \<Rightarrow> nat" where
  "Bitmap_OnesCount b = sum_list (map OnesCount8 b)"

definition Bitmap_IsZero :: "bitmap \<Rightarrow> bool" where
  "Bitmap_IsZero b = list_all (\<lambda>w. w = 0) b"

definition Bitmap_Clone :: "bitmap \<Rightarrow> bitmap" where
  "Bitmap_Clone b = b"

text \<open>The loops over \<open>min(len(b), len(other))\<close> positions.\<close>

fun Bitmap_Or :: "bitmap \<Rightarrow> bitmap \<Rightarrow> bitmap" where
  "Bitmap_Or (x # b) (y # other) = (x OR y) # Bitmap_Or b other"
| "Bitmap_Or b other = b"

fun Bitmap_And :: "bitmap \<Rightarrow> bitmap \<Rightarrow> bitmap" where
  "Bitmap_And (x # b) (y # other) = (x AND y) # Bitmap_And b other"
| "Bitmap_And b other = b"

section \<open>Bitmaps as sets\<close>

definition ones :: "bitmap \<Rightarrow> nat set" where
  "ones b = {i. Bitmap_Get b i}"

lemma bit_exp_byte: "bit (2 ^ k :: byte) n \<longleftrightarrow> k = n \<and> n < 8"
  by (auto simp: bit_exp_iff)

lemma Get_bit: "Bitmap_Get b i \<longleftrightarrow> i < length b * 8 \<and> bit (b ! (i div 8)) (i mod 8)"
proof -
  have "w AND push_bit k 1 \<noteq> 0 \<longleftrightarrow> bit w k" if "k < 8" for w :: byte and k
    using that by (auto simp: bit_eq_iff [of "w AND 2 ^ k" 0] bit_and_iff bit_exp_byte)
  then show ?thesis by (simp add: Bitmap_Get_def)
qed

lemma length_Bitmap [simp]:
  "length (NewBitmap n) = divCeil n 8" "length (Bitmap_Set b i) = length b"
  "length (Bitmap_Unset b i) = length b" "length (Bitmap_Or b c) = length b" "length (Bitmap_And b c) = length b"
proof -
  show "length (Bitmap_Or b c) = length b" by (induction b c rule: Bitmap_Or.induct) auto
  show "length (Bitmap_And b c) = length b" by (induction b c rule: Bitmap_And.induct) auto
qed (simp_all add: NewBitmap_def Bitmap_Set_def Bitmap_Unset_def)

lemma Get_Set: "Bitmap_Get (Bitmap_Set b i) j \<longleftrightarrow> Bitmap_Get b j \<or> (i = j \<and> i < length b * 8)"
proof (cases "i < length b * 8")
  case True
  then have d: "i div 8 < length b" by auto
  have "i = j \<longleftrightarrow> i div 8 = j div 8 \<and> i mod 8 = j mod 8"
    by (metis div_mult_mod_eq)
  moreover have "bit (w OR push_bit (i mod 8) 1) (j mod 8) \<longleftrightarrow> bit w (j mod 8) \<or> i mod 8 = j mod 8" for w :: byte
    by (auto simp: bit_or_iff bit_exp_byte)
  ultimately show ?thesis using True d
    by (auto simp: Get_bit Bitmap_Set_def nth_list_update)
qed (auto simp: Bitmap_Set_def)

lemma Get_Unset: "Bitmap_Get (Bitmap_Unset b i) j \<longleftrightarrow> Bitmap_Get b j \<and> i \<noteq> j"
proof (cases "i < length b * 8")
  case True
  then have d: "i div 8 < length b" by auto
  have "i = j \<longleftrightarrow> i div 8 = j div 8 \<and> i mod 8 = j mod 8"
    by (metis div_mult_mod_eq)
  moreover have "bit (w AND NOT (push_bit (i mod 8) 1)) (j mod 8) \<longleftrightarrow> bit w (j mod 8) \<and> i mod 8 \<noteq> j mod 8" for w :: byte
    by (auto simp: bit_and_iff bit_not_iff bit_exp_byte)
  ultimately show ?thesis using True d
    by (auto simp: Get_bit Bitmap_Unset_def nth_list_update)
next
  case False
  then show ?thesis by (auto simp: Bitmap_Unset_def Get_bit)
qed

lemma nth_Or: "k < length b \<Longrightarrow> Bitmap_Or b c ! k = (if k < length c then b ! k OR c ! k else b ! k)"
  by (induction b c arbitrary: k rule: Bitmap_Or.induct) (auto simp: nth_Cons split: nat.splits)

lemma nth_And: "k < length b \<Longrightarrow> Bitmap_And b c ! k = (if k < length c then b ! k AND c ! k else b ! k)"
  by (induction b c arbitrary: k rule: Bitmap_And.induct) (auto simp: nth_Cons split: nat.splits)

lemma Get_Or: "Bitmap_Get (Bitmap_Or b c) i \<longleftrightarrow> Bitmap_Get b i \<or> (i < length b * 8 \<and> Bitmap_Get c i)"
  by (auto simp: Get_bit nth_Or bit_or_iff less_mult_imp_div_less split: if_splits)

lemma Get_And: "Bitmap_Get (Bitmap_And b c) i \<longleftrightarrow> Bitmap_Get b i \<and> (length c * 8 \<le> i \<or> Bitmap_Get c i)"
  by (auto simp: Get_bit nth_And bit_and_iff less_mult_imp_div_less split: if_splits)

lemma Get_New: "\<not> Bitmap_Get (NewBitmap n) i"
  by (auto simp: Get_bit NewBitmap_def less_mult_imp_div_less)

lemma divCeil_8: "n \<le> divCeil n 8 * 8"
  by (simp add: divCeil_def)

lemma divCeil_le: "divCeil n 8 \<le> k \<longleftrightarrow> n \<le> 8 * k"
  unfolding divCeil_def by linarith

lemma length_AllOnesBitmap: "length (AllOnesBitmap n) = divCeil n 8"
proof -
  have "length (fold (\<lambda>i b. Bitmap_Set b i) is b) = length b" for "is" b by (induction "is" arbitrary: b) auto
  then show ?thesis by (simp add: AllOnesBitmap_def)
qed

lemma Get_fold_Set:
  "Bitmap_Get (fold (\<lambda>i b. Bitmap_Set b i) is b) j \<longleftrightarrow> Bitmap_Get b j \<or> (j \<in> set is \<and> j < length b * 8)"
  by (induction "is" arbitrary: b) (auto simp: Get_Set)

lemma Get_AllOnes: "Bitmap_Get (AllOnesBitmap n) i \<longleftrightarrow> i < n"
  using divCeil_8 [of n] Get_New [of n i]
  by (auto simp: AllOnesBitmap_def Get_fold_Set NewBitmap_def)

lemma ones_Cons: "ones (w # b) = {k. k < 8 \<and> bit w k} \<union> (\<lambda>i. i + 8) ` ones b"
proof (rule set_eqI)
  fix i
  show "i \<in> ones (w # b) \<longleftrightarrow> i \<in> {k. k < 8 \<and> bit w k} \<union> (\<lambda>i. i + 8) ` ones b"
  proof (cases "i < 8")
    case True
    then show ?thesis by (auto simp: ones_def Get_bit)
  next
    case False
    then obtain k where i: "i = k + 8" by (metis add.commute le_Suc_ex not_less)
    have "(k + 8) div 8 = Suc (k div 8)" "(k + 8) mod 8 = k mod 8" by simp_all
    then show ?thesis by (auto simp: ones_def Get_bit i)
  qed
qed

lemma finite_ones [simp]: "finite (ones b)"
  by (rule finite_subset [of _ "{..<length b * 8}"]) (auto simp: ones_def Get_bit)

lemma OnesCount_card: "Bitmap_OnesCount b = card (ones b)"
proof (induction b)
  case Nil
  then show ?case by (simp add: Bitmap_OnesCount_def ones_def Get_bit)
next
  case (Cons w b)
  have "{k. k < 8 \<and> bit w k} = set (filter (bit w) [0..<8])" by auto
  then have "card {k. k < 8 \<and> bit w k} = OnesCount8 w"
    by (simp add: OnesCount8_def distinct_card del: set_filter)
  moreover have "card ((\<lambda>i. i + 8) ` ones b) = card (ones b)" by (rule card_image) (simp add: inj_on_def)
  moreover have "card ({k. k < 8 \<and> bit w k} \<union> (\<lambda>i. i + 8) ` ones b) =
      card {k. k < 8 \<and> bit w k} + card ((\<lambda>i. i + 8) ` ones b)"
    by (rule card_Un_disjoint) auto
  ultimately show ?case using Cons by (simp add: ones_Cons Bitmap_OnesCount_def)
qed

lemma IsZero_iff: "Bitmap_IsZero b \<longleftrightarrow> ones b = {}"
proof (induction b)
  case (Cons w b)
  have "w = 0 \<longleftrightarrow> {k. k < 8 \<and> bit w k} = {}" by (auto simp: bit_eq_iff)
  with Cons show ?case by (simp add: ones_Cons Bitmap_IsZero_def)
qed (simp add: Bitmap_IsZero_def ones_def Get_bit)

lemmas ones_simps = Get_Set Get_Unset Get_Or Get_And Get_New Get_AllOnes

section \<open>Properties\<close>

text \<open>
  C35 (bitmaps): on the sets of indices they denote, \<open>Set\<close> adds an index of the bitmap's range,
  \<open>Unset\<close> removes one, \<open>Or\<close> is union and \<open>And\<close> intersection on the common range,
  \<open>AllOnesBitmap(n)\<close> is the set of the first n indices, \<open>NewBitmap\<close> is empty, \<open>IsZero\<close> decides
  emptiness and \<open>OnesCount\<close> is the number of indices. A new bitmap has the least number of bytes
  that n bits fit in, and no operation changes a bitmap's length.
\<close>
theorem Bitmap_sets:
  "ones (NewBitmap n) = {} \<and> ones (AllOnesBitmap n) = {..<n} \<and>
   ones (Bitmap_Set b i) = ones b \<union> ({i} \<inter> {..<length b * 8}) \<and>
   ones (Bitmap_Unset b i) = ones b - {i} \<and>
   ones (Bitmap_Or b c) = ones b \<union> (ones c \<inter> {..<length b * 8}) \<and>
   ones (Bitmap_And b c) = ones b \<inter> (ones c \<union> {length c * 8..}) \<and>
   (Bitmap_IsZero b \<longleftrightarrow> ones b = {}) \<and> Bitmap_OnesCount b = card (ones b) \<and>
   (\<forall>k. length (NewBitmap n) \<le> k \<longleftrightarrow> n \<le> 8 * k) \<and> length (AllOnesBitmap n) = length (NewBitmap n) \<and>
   length (Bitmap_Set b i) = length b \<and> length (Bitmap_Unset b i) = length b \<and>
   length (Bitmap_Or b c) = length b \<and> length (Bitmap_And b c) = length b"
  by (auto simp: IsZero_iff OnesCount_card divCeil_le length_AllOnesBitmap) (auto simp: ones_def ones_simps)

end
