(* ===== verification/EmitPlanner.thy ===== *)
theory EmitPlanner
  imports Prelude "HOL-Library.Product_Lexorder"
begin

text \<open>
  \<open>src/broadcast/rs/emit.go\<close>: the planner that hands out the least-emitted chunk first, a binary
  heap with an index from chunk numbers to heap positions, driven by \<open>container/heap\<close> of the
  standard library. The lemmas show that every operation keeps the heap order and the index
  coherent, and that the planner implements a finite map from chunk numbers to entries whose
  \<open>Top\<close> is a least entry.
\<close>

section \<open>Entries and the planner\<close>

record emitEntry =
  Idx :: int
  Times :: int
  Sent :: int
  Priority :: "32 word"

record emitPlanner =
  idToIndex :: "int \<rightharpoonup> nat"
  entries :: "emitEntry list"

definition newEmitPlanner :: emitPlanner where
  "newEmitPlanner = \<lparr>idToIndex = Map.empty, entries = []\<rparr>"

definition Planner_Len :: "emitPlanner \<Rightarrow> nat" where
  "Planner_Len h = length (entries h)"

definition Planner_Less :: "emitPlanner \<Rightarrow> nat \<Rightarrow> nat \<Rightarrow> bool" where
  "Planner_Less h i j =
     (let a = entries h ! i; b = entries h ! j in
      if Times a \<noteq> Times b then Times a < Times b else Priority a < Priority b)"

definition Planner_Swap :: "emitPlanner \<Rightarrow> nat \<Rightarrow> nat \<Rightarrow> emitPlanner" where
  "Planner_Swap h i j =
     (let es = (entries h)[i := entries h ! j, j := entries h ! i] in
      \<lparr>idToIndex = (idToIndex h)(Idx (es ! i) \<mapsto> i, Idx (es ! j) \<mapsto> j), entries = es\<rparr>)"

definition Planner_Push :: "emitPlanner \<Rightarrow> emitEntry \<Rightarrow> emitPlanner" where
  "Planner_Push h ec =
     \<lparr>idToIndex = (idToIndex h)(Idx ec \<mapsto> length (entries h)), entries = entries h @ [ec]\<rparr>"

definition Planner_Pop :: "emitPlanner \<Rightarrow> emitEntry \<times> emitPlanner" where
  "Planner_Pop h =
     (let n = length (entries h); ec = entries h ! (n - 1) in
      (ec, \<lparr>idToIndex = (idToIndex h)(Idx ec := None), entries = take (n - 1) (entries h)\<rparr>))"

section \<open>The operations of \<open>container/heap\<close>\<close>

text \<open>\<open>up\<close>, with \<open>(j - 1) / 2\<close> rounding toward zero, so that the root is its own parent.\<close>

function heap_up :: "emitPlanner \<Rightarrow> nat \<Rightarrow> emitPlanner" where
  "heap_up h j =
     (let i = (j - 1) div 2 in
      if i = j \<or> \<not> Planner_Less h j i then h
      else heap_up (Planner_Swap h i j) i)"
  by pat_completeness auto
termination
  by (relation "measure snd") auto

text \<open>\<open>down\<close>, returning whether the element has moved.\<close>

function heap_down_loop :: "emitPlanner \<Rightarrow> nat \<Rightarrow> nat \<Rightarrow> emitPlanner \<times> nat" where
  "heap_down_loop h i n =
     (let j1 = 2 * i + 1 in
      if n \<le> j1 then (h, i)
      else
        let j2 = j1 + 1; j = (if j2 < n \<and> Planner_Less h j2 j1 then j2 else j1) in
        if \<not> Planner_Less h j i then (h, i)
        else heap_down_loop (Planner_Swap h i j) j n)"
  by pat_completeness auto
termination
  by (relation "measure (\<lambda>(h, i, n). n - i)") (auto simp: Let_def)

definition heap_down :: "emitPlanner \<Rightarrow> nat \<Rightarrow> nat \<Rightarrow> emitPlanner \<times> bool" where
  "heap_down h i0 n = (case heap_down_loop h i0 n of (h', i) \<Rightarrow> (h', i0 < i))"

declare heap_up.simps [simp del] heap_down_loop.simps [simp del]

definition heap_Push :: "emitPlanner \<Rightarrow> emitEntry \<Rightarrow> emitPlanner" where
  "heap_Push h x = (let h' = Planner_Push h x in heap_up h' (Planner_Len h' - 1))"

definition heap_Pop :: "emitPlanner \<Rightarrow> emitEntry \<times> emitPlanner" where
  "heap_Pop h =
     (let n = Planner_Len h - 1; h1 = Planner_Swap h 0 n; (h2, _) = heap_down h1 0 n in Planner_Pop h2)"

definition heap_Remove :: "emitPlanner \<Rightarrow> nat \<Rightarrow> emitEntry \<times> emitPlanner" where
  "heap_Remove h i =
     (let n = Planner_Len h - 1 in
      if n \<noteq> i then
        let h1 = Planner_Swap h i n; (h2, moved) = heap_down h1 i n;
            h3 = (if \<not> moved then heap_up h2 i else h2)
        in Planner_Pop h3
      else Planner_Pop h)"

definition heap_Fix :: "emitPlanner \<Rightarrow> nat \<Rightarrow> emitPlanner" where
  "heap_Fix h i =
     (let (h', moved) = heap_down h i (Planner_Len h) in if \<not> moved then heap_up h' i else h')"

section \<open>The planner's operations\<close>

definition Planner_Insert :: "emitPlanner \<Rightarrow> emitEntry \<Rightarrow> emitPlanner" where
  "Planner_Insert h ec =
     (case idToIndex h (Idx ec) of
        Some idx \<Rightarrow> heap_Fix (h\<lparr>entries := (entries h)[idx := ec]\<rparr>) idx
      | None \<Rightarrow> heap_Push h ec)"

definition Planner_Top :: "emitPlanner \<Rightarrow> emitEntry option" where
  "Planner_Top h = (if length (entries h) = 0 then None else Some (entries h ! 0))"

text \<open>\<open>heap.Pop\<close> of an empty heap panics on the index \<open>-1\<close>: no result.\<close>

definition Planner_PopFront :: "emitPlanner \<Rightarrow> (emitEntry \<times> emitPlanner) option" where
  "Planner_PopFront h = (if entries h = [] then None else Some (heap_Pop h))"

definition Planner_Increment :: "emitPlanner \<Rightarrow> int \<Rightarrow> emitPlanner" where
  "Planner_Increment h cid =
     (case idToIndex h cid of
        None \<Rightarrow> h
      | Some idx \<Rightarrow>
          heap_Fix (h\<lparr>entries := (entries h)[idx := (entries h ! idx)\<lparr>Times := Times (entries h ! idx) + 1\<rparr>]\<rparr>) idx)"

definition Planner_Decrement :: "emitPlanner \<Rightarrow> int \<Rightarrow> emitPlanner" where
  "Planner_Decrement h cid =
     (case idToIndex h cid of
        None \<Rightarrow> h
      | Some idx \<Rightarrow>
          heap_Fix (h\<lparr>entries := (entries h)[idx := (entries h ! idx)\<lparr>Times := Times (entries h ! idx) - 1\<rparr>]\<rparr>) idx)"

definition Planner_Contains :: "emitPlanner \<Rightarrow> int \<Rightarrow> bool" where
  "Planner_Contains h cid = (idToIndex h cid \<noteq> None)"

definition Planner_Delete :: "emitPlanner \<Rightarrow> int \<Rightarrow> emitPlanner" where
  "Planner_Delete h cid =
     (case idToIndex h cid of None \<Rightarrow> h | Some idx \<Rightarrow> snd (heap_Remove h idx))"

definition Planner_GetSent :: "emitPlanner \<Rightarrow> int \<Rightarrow> int option" where
  "Planner_GetSent h cid =
     (case idToIndex h cid of None \<Rightarrow> None | Some idx \<Rightarrow> Some (Sent (entries h ! idx)))"

definition Planner_AddSent :: "emitPlanner \<Rightarrow> int \<Rightarrow> int \<Rightarrow> emitPlanner" where
  "Planner_AddSent h cid delta =
     (case idToIndex h cid of
        None \<Rightarrow> h
      | Some idx \<Rightarrow>
          h\<lparr>entries := (entries h)[idx := (entries h ! idx)\<lparr>Sent := Sent (entries h ! idx) + delta\<rparr>]\<rparr>)"


section \<open>Invariants and the abstract planner\<close>

text \<open>The heap order compares the pair of times and priority.\<close>

definition ekey :: "emitEntry \<Rightarrow> int \<times> 32 word" where
  "ekey e = (Times e, Priority e)"

definition parent :: "nat \<Rightarrow> nat" where
  "parent k = (k - 1) div 2"

definition le_parent :: "emitEntry list \<Rightarrow> nat \<Rightarrow> bool" where
  "le_parent es k \<longleftrightarrow> ekey (es ! (parent k)) \<le> ekey (es ! k)"

definition heap_ordered :: "nat \<Rightarrow> emitEntry list \<Rightarrow> bool" where
  "heap_ordered n es \<longleftrightarrow> (\<forall>k. 0 < k \<and> k < n \<longrightarrow> le_parent es k)"

text \<open>Heap order but for the element at \<open>i\<close>, whose children are still above its parent.\<close>

definition skips :: "nat \<Rightarrow> nat \<Rightarrow> emitEntry list \<Rightarrow> bool" where
  "skips n i es \<longleftrightarrow> (\<forall>k. 0 < k \<and> k < n \<and> parent k = i \<and> 0 < i \<longrightarrow> ekey (es ! (parent i)) \<le> ekey (es ! k))"

definition broken_at :: "nat \<Rightarrow> nat \<Rightarrow> emitEntry list \<Rightarrow> bool" where
  "broken_at n i es \<longleftrightarrow>
     (\<forall>k. 0 < k \<and> k < n \<and> k \<noteq> i \<and> parent k \<noteq> i \<longrightarrow> le_parent es k) \<and> skips n i es"

definition above_at :: "nat \<Rightarrow> nat \<Rightarrow> emitEntry list \<Rightarrow> bool" where
  "above_at n i es \<longleftrightarrow> (\<forall>k. 0 < k \<and> k < n \<and> k \<noteq> i \<longrightarrow> le_parent es k) \<and> skips n i es"

text \<open>The index names exactly the position of each chunk number.\<close>

definition indexed :: "emitPlanner \<Rightarrow> bool" where
  "indexed h \<longleftrightarrow> (\<forall>cid i. idToIndex h cid = Some i \<longleftrightarrow> i < length (entries h) \<and> Idx (entries h ! i) = cid)"

definition planner_inv :: "emitPlanner \<Rightarrow> bool" where
  "planner_inv h \<longleftrightarrow> indexed h \<and> heap_ordered (length (entries h)) (entries h)"

text \<open>The planner as a finite map.\<close>

definition planner_map :: "emitPlanner \<Rightarrow> int \<rightharpoonup> emitEntry" where
  "planner_map h cid = map_option (\<lambda>i. entries h ! i) (idToIndex h cid)"

text \<open>The entries after \<open>Swap\<close>.\<close>

definition exchanged :: "emitEntry list \<Rightarrow> nat \<Rightarrow> nat \<Rightarrow> emitEntry list" where
  "exchanged es a b = (es[a := es ! b])[b := es ! a]"

section \<open>Heap order\<close>

lemma length_exchanged [simp]: "length (exchanged es a b) = length es"
  unfolding exchanged_def by simp

lemma nth_exchanged:
  assumes "a < length es" and "b < length es"
  shows "exchanged es a b ! n = es ! (if n = a then b else if n = b then a else n)"
  using assms by (cases "n = b") (simp_all add: exchanged_def nth_list_update)

lemma entries_Swap [simp]: "entries (Planner_Swap h i j) = exchanged (entries h) i j"
  by (simp add: Planner_Swap_def exchanged_def Let_def)

lemma Less_ekey: "Planner_Less h i j \<longleftrightarrow> ekey (entries h ! i) < ekey (entries h ! j)"
  by (auto simp: Planner_Less_def ekey_def Let_def)

lemma parent_less: "0 < k \<Longrightarrow> parent k < k"
  by (auto simp: parent_def)

lemma parent_0 [simp]: "parent 0 = 0"
  by (simp add: parent_def)

lemma above_at_swap:
  assumes "above_at n j es" "0 < j" "j < n" "n \<le> length es" "ekey (es ! j) < ekey (es ! (parent j))"
  shows "above_at n (parent j) (exchanged es (parent j) j)"
proof -
  let ?i = "parent j"
  have ij: "?i < j" "?i < length es" "j < length es" using assms(2-4) parent_less [of j] by auto
  note nth = nth_exchanged [OF ij(2,3)]
  have hp: "ekey (es ! (parent k)) \<le> ekey (es ! k)" if "0 < k" "k < n" "k \<noteq> j" for k
    using assms(1) that by (auto simp: above_at_def le_parent_def)
  have sk: "ekey (es ! ?i) \<le> ekey (es ! k)" if "0 < k" "k < n" "parent k = j" for k
    using assms(1,2) that by (auto simp: above_at_def skips_def)
  have "le_parent (exchanged es ?i j) k" if k: "0 < k" "k < n" "k \<noteq> ?i" for k
  proof -
    consider "k = j" | "k \<noteq> j" "parent k = ?i" | "k \<noteq> j" "parent k = j" | "k \<noteq> j" "parent k \<noteq> ?i" "parent k \<noteq> j"
      by blast
    then show ?thesis
    proof cases
      case 2
      then show ?thesis using hp [of k] k assms(5) ij by (auto simp: le_parent_def nth)
    qed (use hp [of k] sk [of k] k assms(5) ij in \<open>auto simp: le_parent_def nth\<close>)
  qed
  moreover have "skips n ?i (exchanged es ?i j)"
    unfolding skips_def
  proof (intro allI impI)
    fix k assume k: "0 < k \<and> k < n \<and> parent k = ?i \<and> 0 < ?i"
    then have p: "parent ?i < ?i" by (simp add: parent_less)
    have "ekey (es ! (parent ?i)) \<le> ekey (es ! ?i)" using hp [of ?i] k ij assms(3) by auto
    moreover from this have "ekey (es ! parent ?i) \<le> ekey (es ! k)" if "k \<noteq> j"
      using hp [of k] k that by (simp add: order_trans)
    moreover have "k \<noteq> ?i" using k parent_less [of k] by auto
    ultimately show "ekey (exchanged es ?i j ! (parent ?i)) \<le> ekey (exchanged es ?i j ! k)"
      using p ij by (simp add: nth)
  qed
  ultimately show ?thesis by (simp add: above_at_def)
qed

lemma heap_up_parent:
  "heap_up h j = (if parent j = j \<or> \<not> Planner_Less h j (parent j) then h
     else heap_up (Planner_Swap h (parent j) j) (parent j))"
  by (subst heap_up.simps) (simp add: parent_def Let_def)

lemma heap_up_induct:
  assumes "\<And>h j. (\<not> (parent j = j \<or> \<not> Planner_Less h j (parent j)) \<Longrightarrow> P (Planner_Swap h (parent j) j) (parent j)) \<Longrightarrow> P h j"
  shows "P h j"
proof (induction h j rule: heap_up.induct)
  case (1 h j)
  then show ?case using assms [of j h] by (simp only: parent_def [symmetric] simp_thms)
qed

lemma heap_up_ordered:
  "above_at n j (entries h) \<Longrightarrow> j < n \<Longrightarrow> n \<le> length (entries h) \<Longrightarrow> heap_ordered n (entries (heap_up h j))"
proof (induction h j rule: heap_up_induct)
  case (1 h j)
  let ?i = "parent j"
  show ?case
  proof (cases "?i = j \<or> \<not> Planner_Less h j ?i")
    case True
    then have "0 < j \<Longrightarrow> le_parent (entries h) j" by (auto simp: le_parent_def Less_ekey)
    then show ?thesis using True "1.prems"(1)
      by (auto simp: heap_up_parent [of h j] Let_def heap_ordered_def above_at_def)
  next
    case False
    then have j: "0 < j" by (cases j) auto
    have "above_at n ?i (exchanged (entries h) ?i j)"
      using False j "1.prems" by (intro above_at_swap) (auto simp: Less_ekey)
    moreover have "?i < n" using parent_less [OF j] "1.prems"(2) by simp
    ultimately show ?thesis using "1.IH" [OF False] False "1.prems"(3)
      by (simp add: heap_up_parent [of h j] Let_def)
  qed
qed

lemma parent_child: "0 < k \<Longrightarrow> parent k = i \<longleftrightarrow> k = 2 * i + 1 \<or> k = 2 * i + 2"
  by (auto simp: parent_def)

lemma broken_at_swap:
  assumes "broken_at n i es" "0 < j" "j < n" "parent j = i" "n \<le> length es" "ekey (es ! j) < ekey (es ! i)"
    and least: "\<And>k. 0 < k \<Longrightarrow> k < n \<Longrightarrow> parent k = i \<Longrightarrow> ekey (es ! j) \<le> ekey (es ! k)"
  shows "broken_at n j (exchanged es i j) \<and> le_parent (exchanged es i j) j"
proof -
  have ij: "i < j" "i < length es" "j < length es" using assms(2-5) parent_less [of j] by auto
  note nth = nth_exchanged [OF ij(2,3)]
  have hp: "ekey (es ! parent k) \<le> ekey (es ! k)" if "0 < k" "k < n" "k \<noteq> i" "parent k \<noteq> i" for k
    using assms(1) that by (auto simp: broken_at_def le_parent_def)
  have top: "ekey (es ! parent i) \<le> ekey (es ! j)" if "0 < i"
    using assms(1-4) that by (auto simp: broken_at_def skips_def)
  have "le_parent (exchanged es i j) k" if k: "0 < k" "k < n" "k \<noteq> j" "parent k \<noteq> j" for k
  proof -
    have pk: "parent k \<noteq> k" using parent_less [OF k(1)] by simp
    consider "k = i" | "k \<noteq> i" "parent k = i" | "k \<noteq> i" "parent k \<noteq> i" by blast
    then show ?thesis
    proof cases
      case 1
      then show ?thesis using top k pk ij by (simp add: le_parent_def nth)
    next
      case 2
      then show ?thesis using least [of k] k by (simp add: le_parent_def nth)
    next
      case 3
      then show ?thesis using hp [of k] k by (simp add: le_parent_def nth)
    qed
  qed
  moreover have "skips n j (exchanged es i j)"
    unfolding skips_def
  proof (intro allI impI)
    fix k assume k: "0 < k \<and> k < n \<and> parent k = j \<and> 0 < j"
    then have "k \<noteq> j" "k \<noteq> i" "parent k \<noteq> i" using parent_less [of k] ij by auto
    with hp [of k] k show "ekey (exchanged es i j ! parent j) \<le> ekey (exchanged es i j ! k)"
      by (simp add: nth assms(4))
  qed
  moreover have "le_parent (exchanged es i j) j"
    using assms(4,6) ij by (simp add: le_parent_def nth)
  ultimately show ?thesis by (simp add: broken_at_def)
qed

lemma heap_down_loop_cases:
  obtains (stop) "heap_down_loop h i n = (h, i)"
      "\<And>k. 0 < k \<Longrightarrow> k < n \<Longrightarrow> parent k = i \<Longrightarrow> ekey (entries h ! i) \<le> ekey (entries h ! k)"
    | (move) j where "heap_down_loop h i n = heap_down_loop (Planner_Swap h i j) j n"
      "0 < j" "j < n" "parent j = i" "ekey (entries h ! j) < ekey (entries h ! i)"
      "\<And>k. 0 < k \<Longrightarrow> k < n \<Longrightarrow> parent k = i \<Longrightarrow> ekey (entries h ! j) \<le> ekey (entries h ! k)"
proof (cases "n \<le> 2 * i + 1")
  case True
  then have "heap_down_loop h i n = (h, i)" by (simp add: heap_down_loop.simps [of h i])
  then show ?thesis using stop True by (auto simp: parent_child)
next
  case False
  define j where "j = (if 2 * i + 2 < n \<and> Planner_Less h (2 * i + 2) (2 * i + 1) then 2 * i + 2 else 2 * i + 1)"
  have j: "0 < j" "j < n" "parent j = i" using False by (auto simp: j_def parent_child)
  have least: "ekey (entries h ! j) \<le> ekey (entries h ! k)" if "0 < k" "k < n" "parent k = i" for k
    using that by (auto simp: parent_child j_def Less_ekey)
  have eq: "heap_down_loop h i n =
    (if \<not> Planner_Less h j i then (h, i) else heap_down_loop (Planner_Swap h i j) j n)"
    using False by (subst heap_down_loop.simps) (simp add: j_def Let_def)
  show ?thesis
  proof (cases "Planner_Less h j i")
    case True
    then show ?thesis using move [of j] j least eq by (simp add: Less_ekey)
  next
    case False
    then have "ekey (entries h ! i) \<le> ekey (entries h ! j)" by (simp add: Less_ekey)
    then show ?thesis using stop least eq False by (meson order_trans)
  qed
qed

lemma heap_down_loop_ordered:
  assumes "broken_at n i (entries h)" "0 < i \<Longrightarrow> le_parent (entries h) i" "n \<le> length (entries h)"
  shows "heap_ordered n (entries (fst (heap_down_loop h i n))) \<and> i \<le> snd (heap_down_loop h i n) "
  using assms
proof (induction "n - i" arbitrary: h i rule: less_induct)
  case less
  show ?case
  proof (cases rule: heap_down_loop_cases [of h i n])
    case stop
    then have "le_parent (entries h) k" if "0 < k" "k < n" for k
      using that less.prems(1,2) unfolding broken_at_def le_parent_def by metis
    then show ?thesis using stop(1) by (simp add: heap_ordered_def)
  next
    case (move j)
    have "i < j" using move parent_less [of j] by simp
    moreover from this have "heap_ordered n (entries (fst (heap_down_loop (Planner_Swap h i j) j n))) \<and>
        j \<le> snd (heap_down_loop (Planner_Swap h i j) j n)"
      using broken_at_swap [of n i "entries h" j] move less.prems by (intro less.hyps) auto
    ultimately show ?thesis using move(1) by simp
  qed
qed

lemma heap_down_ordered:
  assumes "broken_at n i (entries h)" "n \<le> length (entries h)" "heap_down h i n = (h', moved)"
  shows "if moved then heap_ordered n (entries h') else h' = h \<and> above_at n i (entries h)"
proof (cases rule: heap_down_loop_cases [of h i n])
  case stop
  then have "le_parent (entries h) k" if "0 < k" "k < n" "k \<noteq> i" for k
    using that assms(1) unfolding broken_at_def le_parent_def by metis
  then show ?thesis using stop(1) assms(1,3) by (auto simp: heap_down_def above_at_def broken_at_def)
next
  case (move j)
  have "i < j" using move parent_less [of j] by simp
  moreover have "heap_ordered n (entries (fst (heap_down_loop (Planner_Swap h i j) j n))) \<and>
      j \<le> snd (heap_down_loop (Planner_Swap h i j) j n)"
    using broken_at_swap [of n i "entries h" j] move assms(1,2) by (intro heap_down_loop_ordered) auto
  ultimately show ?thesis using assms(3) move(1)
    by (auto simp: heap_down_def split: prod.splits)
qed

section \<open>The index\<close>

lemma indexed_uniq:
  "indexed h \<Longrightarrow> a < length (entries h) \<Longrightarrow> b < length (entries h) \<Longrightarrow> Idx (entries h ! a) = Idx (entries h ! b) \<Longrightarrow> a = b"
  unfolding indexed_def by (metis option.inject)

lemma indexed_Swap:
  assumes "indexed h" "i < length (entries h)" "j < length (entries h)"
  shows "indexed (Planner_Swap h i j) \<and> planner_map (Planner_Swap h i j) = planner_map h"
proof -
  let ?es = "entries h" and ?h = "Planner_Swap h i j"
  define f where "f = (\<lambda>k. if k = i then j else if k = j then i else k)"
  have ff: "f (f k) = k" and fl: "f k < length ?es \<longleftrightarrow> k < length ?es" for k using assms(2,3) by (auto simp: f_def)
  have nth: "exchanged ?es i j ! k = ?es ! f k" for k using assms(2,3) by (auto simp: nth_exchanged f_def)
  have idx: "idToIndex h cid = Some k \<longleftrightarrow> k < length ?es \<and> Idx (?es ! k) = cid" for cid k
    using assms(1) by (simp add: indexed_def)
  have m: "idToIndex ?h = (idToIndex h)(Idx (?es ! j) \<mapsto> i, Idx (?es ! i) \<mapsto> j)"
    using assms(2,3) by (simp add: Planner_Swap_def Let_def exchanged_def [symmetric] nth f_def)
  have i: "idToIndex h (Idx (?es ! i)) = Some i" and j: "idToIndex h (Idx (?es ! j)) = Some j"
    using idx assms(2,3) by blast+
  have mf: "idToIndex ?h cid = map_option f (idToIndex h cid)" for cid
  proof -
    consider "cid = Idx (?es ! i)" | "cid \<noteq> Idx (?es ! i)" "cid = Idx (?es ! j)" | "cid \<noteq> Idx (?es ! i)" "cid \<noteq> Idx (?es ! j)"
      by blast
    then show ?thesis
    proof cases
      case 3
      then have "idToIndex h cid \<noteq> Some i" "idToIndex h cid \<noteq> Some j" using idx by auto
      with 3 show ?thesis by (cases "idToIndex h cid") (auto simp: m f_def)
    qed (use i j in \<open>auto simp: m f_def\<close>)
  qed
  have "f a = k \<longleftrightarrow> a = f k" for a k using ff by metis
  then have "idToIndex ?h cid = Some k \<longleftrightarrow> idToIndex h cid = Some (f k)" for cid k
    unfolding mf by (cases "idToIndex h cid") simp_all
  then have "indexed ?h" unfolding indexed_def by (simp add: idx nth fl)
  moreover have "planner_map ?h = planner_map h"
    by (rule ext) (simp add: planner_map_def mf nth option.map_comp comp_def ff)
  ultimately show ?thesis ..
qed

lemma heap_up_indexed:
  "indexed h \<Longrightarrow> j < length (entries h) \<Longrightarrow>
   indexed (heap_up h j) \<and> planner_map (heap_up h j) = planner_map h \<and> length (entries (heap_up h j)) = length (entries h)"
proof (induction h j rule: heap_up_induct)
  case (1 h j)
  show ?case
  proof (cases "parent j = j \<or> \<not> Planner_Less h j (parent j)")
    case False
    then have "parent j < length (entries h)" using parent_less [of j] "1.prems"(2) by (cases "j = 0") auto
    with 1 False indexed_Swap [of h "parent j" j] show ?thesis by (simp add: heap_up_parent [of h j])
  qed (use "1.prems" in \<open>simp add: heap_up_parent [of h j]\<close>)
qed

lemma heap_up_above: "j < length (entries h) \<Longrightarrow> j < k \<Longrightarrow> entries (heap_up h j) ! k = entries h ! k"
proof (induction h j rule: heap_up_induct)
  case (1 h j)
  show ?case
  proof (cases "parent j = j \<or> \<not> Planner_Less h j (parent j)")
    case False
    then have "parent j < j" using parent_less [of j] by (cases "j = 0") auto
    with 1 False show ?thesis by (simp add: heap_up_parent [of h j] nth_exchanged)
  qed (simp add: heap_up_parent [of h j])
qed

lemma heap_down_loop_indexed:
  assumes "indexed h" "n \<le> length (entries h)" "h' = fst (heap_down_loop h i n)"
  shows "indexed h' \<and> planner_map h' = planner_map h \<and> length (entries h') = length (entries h) \<and>
    (\<forall>k. n \<le> k \<longrightarrow> entries h' ! k = entries h ! k)"
  using assms
proof (induction "n - i" arbitrary: h i rule: less_induct)
  case less
  show ?case
  proof (cases rule: heap_down_loop_cases [of h i n])
    case stop
    with less.prems show ?thesis by simp
  next
    case (move j)
    have ij: "i < j" "j < length (entries h)" "i < length (entries h)" using move parent_less [of j] less.prems(2) by auto
    note sw = indexed_Swap [OF less.prems(1) ij(3,2)]
    have "indexed h' \<and> planner_map h' = planner_map (Planner_Swap h i j) \<and>
      length (entries h') = length (entries (Planner_Swap h i j)) \<and>
      (\<forall>k. n \<le> k \<longrightarrow> entries h' ! k = entries (Planner_Swap h i j) ! k)"
      using ij move less.prems(2,3) sw by (intro less.hyps) auto
    then show ?thesis using sw ij move(3) by (auto simp: nth_exchanged)
  qed
qed

lemma heap_down_indexed:
  assumes "indexed h" "n \<le> length (entries h)" "heap_down h i n = (h', moved)"
  shows "indexed h' \<and> planner_map h' = planner_map h \<and> length (entries h') = length (entries h) \<and>
    (\<forall>k. n \<le> k \<longrightarrow> entries h' ! k = entries h ! k)"
  using assms by (intro heap_down_loop_indexed [where i = i]) (auto simp: heap_down_def split: prod.splits)

section \<open>The operations on the invariant and the map\<close>

lemma planner_map_Some: "indexed h \<Longrightarrow> planner_map h cid = Some e \<longleftrightarrow> (\<exists>i < length (entries h). entries h ! i = e \<and> Idx e = cid)"
  unfolding planner_map_def indexed_def by auto

lemma indexed_SomeD: "indexed h \<Longrightarrow> idToIndex h cid = Some k \<Longrightarrow> k < length (entries h) \<and> Idx (entries h ! k) = cid"
  by (simp add: indexed_def)

lemma planner_inv_new: "planner_inv newEmitPlanner" "planner_map newEmitPlanner = Map.empty"
  by (auto simp: planner_inv_def newEmitPlanner_def indexed_def heap_ordered_def planner_map_def)

lemma Planner_Pop_last:
  assumes "indexed h" "entries h \<noteq> []" "Planner_Pop h = (e, h')"
  shows "e = last (entries h) \<and> indexed h' \<and> planner_map h' = (planner_map h)(Idx e := None) \<and> entries h' = butlast (entries h)"
proof -
  obtain xs where es: "entries h = xs @ [e]" and h': "idToIndex h' = (idToIndex h)(Idx e := None)" "entries h' = xs"
    using assms(2,3) by (cases "entries h" rule: rev_cases) (auto simp: Planner_Pop_def Let_def nth_append)
  have idx: "idToIndex h cid = Some k \<longleftrightarrow> k < Suc (length xs) \<and> Idx ((xs @ [e]) ! k) = cid" for cid k
    using assms(1) by (simp add: indexed_def es)
  have other: "Idx (xs ! k) \<noteq> Idx e" if "k < length xs" for k
    using indexed_uniq [OF assms(1), of k "length xs"] that by (auto simp: es nth_append)
  have small: "k < length xs \<and> Idx (xs ! k) = cid" if "idToIndex h cid = Some k" "cid \<noteq> Idx e" for cid k
    using that idx [of cid k] by (cases "k = length xs") (auto simp: nth_append)
  have "idToIndex h' cid = Some k \<longleftrightarrow> k < length xs \<and> Idx (xs ! k) = cid" for cid k
    using small [of cid k] other [of k] idx [of cid k] by (auto simp: h'(1) nth_append)
  then have "indexed h'" by (simp add: indexed_def h'(2))
  moreover have "planner_map h' cid = ((planner_map h)(Idx e := None)) cid" for cid
    using small [of cid] by (cases "idToIndex h cid") (auto simp: planner_map_def h' es nth_append)
  ultimately show ?thesis using es h'(2) by auto
qed

lemma heap_Push_inv:
  assumes "planner_inv h" "idToIndex h (Idx x) = None"
  shows "planner_inv (heap_Push h x) \<and> planner_map (heap_Push h x) = (planner_map h)(Idx x \<mapsto> x)"
proof -
  let ?h = "Planner_Push h x" and ?n = "length (entries h)"
  have ih: "indexed h" and oh: "heap_ordered ?n (entries h)" using assms(1) by (auto simp: planner_inv_def)
  have absent: "Idx (entries h ! i) \<noteq> Idx x" if "i < ?n" for i
    using ih assms(2) that unfolding indexed_def by (metis option.distinct(1))
  have "idToIndex ?h cid = Some k \<longleftrightarrow> k < Suc ?n \<and> Idx ((entries h @ [x]) ! k) = cid" for cid k
  proof (cases "cid = Idx x")
    case True
    then show ?thesis using absent [of k] by (auto simp: Planner_Push_def nth_append less_Suc_eq)
  next
    case False
    then have "idToIndex ?h cid = idToIndex h cid" by (simp add: Planner_Push_def)
    with False show ?thesis using ih by (auto simp: indexed_def nth_append less_Suc_eq)
  qed
  then have ix: "indexed ?h" by (simp add: indexed_def Planner_Push_def)
  have "planner_map ?h cid = ((planner_map h)(Idx x \<mapsto> x)) cid" for cid
    using indexed_SomeD [OF ih, of cid]
    by (cases "idToIndex h cid") (auto simp: planner_map_def Planner_Push_def nth_append)
  then have "planner_map ?h = (planner_map h)(Idx x \<mapsto> x)" by blast
  moreover have "above_at (Suc ?n) ?n (entries ?h)"
  proof -
    have "le_parent (entries ?h) k" if "0 < k" "k < Suc ?n" "k \<noteq> ?n" for k
      using that oh parent_less [of k] by (auto simp: heap_ordered_def le_parent_def Planner_Push_def nth_append)
    moreover have "parent k \<noteq> ?n" if "0 < k" "k < Suc ?n" for k using that parent_less [of k] by simp
    ultimately show ?thesis unfolding above_at_def skips_def by blast
  qed
  moreover have "length (entries ?h) = Suc ?n" by (simp add: Planner_Push_def)
  ultimately show ?thesis using heap_up_indexed [OF ix, of ?n] heap_up_ordered [of "Suc ?n" ?n ?h]
    by (simp add: heap_Push_def Planner_Len_def Let_def planner_inv_def)
qed

lemma broken_at_update:
  assumes "heap_ordered n es" "i < n" "n \<le> length es"
  shows "broken_at n i (es[i := e])"
proof -
  have "ekey (es ! parent k) \<le> ekey (es ! k)" if "0 < k" "k < n" for k
    using assms(1) that by (auto simp: heap_ordered_def le_parent_def)
  moreover from this have "ekey (es ! parent i) \<le> ekey (es ! k)" if "0 < k" "k < n" "parent k = i" "0 < i" for k
    using assms(2) that by (metis order_trans)
  moreover have "parent k \<noteq> k" if "0 < k" for k using parent_less [OF that] by simp
  ultimately show ?thesis
    unfolding broken_at_def skips_def le_parent_def
    by (metis nth_list_update_neq)
qed

lemma heap_Fix_inv:
  assumes "planner_inv h" "idToIndex h (Idx e) = Some i"
  defines "h1 \<equiv> h\<lparr>entries := (entries h)[i := e]\<rparr>"
  shows "planner_inv (heap_Fix h1 i) \<and> planner_map (heap_Fix h1 i) = (planner_map h)(Idx e \<mapsto> e)"
proof -
  let ?n = "length (entries h)"
  have ih: "indexed h" and oh: "heap_ordered ?n (entries h)" using assms(1) by (auto simp: planner_inv_def)
  have i: "i < ?n" "Idx (entries h ! i) = Idx e" using ih assms(2) by (auto simp: indexed_def)
  have ix: "indexed h1" using ih i unfolding indexed_def h1_def by (auto simp: nth_list_update)
  have "planner_map h1 cid = ((planner_map h)(Idx e \<mapsto> e)) cid" for cid
    using indexed_SomeD [OF ih, of cid] i assms(2)
    by (cases "idToIndex h cid") (auto simp: planner_map_def h1_def nth_list_update)
  then have mp: "planner_map h1 = (planner_map h)(Idx e \<mapsto> e)" by blast
  have br: "broken_at ?n i (entries h1)" using broken_at_update [OF oh i(1)] by (simp add: h1_def)
  have len: "length (entries h1) = ?n" by (simp add: h1_def)
  obtain h2 moved where dn: "heap_down h1 i ?n = (h2, moved)" by (cases "heap_down h1 i ?n")
  have d1: "if moved then heap_ordered ?n (entries h2) else h2 = h1 \<and> above_at ?n i (entries h1)"
    using br len dn by (intro heap_down_ordered) auto
  have d2: "indexed h2 \<and> planner_map h2 = planner_map h1 \<and> length (entries h2) = ?n"
    using heap_down_indexed [OF ix _ dn] len by simp
  show ?thesis
  proof (cases moved)
    case True
    then show ?thesis using d1 d2 dn mp len by (simp add: heap_Fix_def Planner_Len_def planner_inv_def)
  next
    case False
    then show ?thesis using d1 d2 dn mp len i heap_up_ordered [of ?n i h1] heap_up_indexed [OF ix, of i]
      by (simp add: heap_Fix_def Planner_Len_def planner_inv_def)
  qed
qed


lemma heap_Remove_last:
  assumes "indexed h" "heap_ordered (length (entries h) - 1) (entries h)" "entries h \<noteq> []" "Planner_Pop h = (e, h')"
  shows "e = last (entries h) \<and> planner_inv h' \<and> planner_map h' = (planner_map h)(Idx e := None)"
proof -
  note p = Planner_Pop_last [OF assms(1,3,4)]
  have "heap_ordered (length (entries h) - 1) (butlast (entries h))"
    unfolding heap_ordered_def le_parent_def
  proof (intro allI impI)
    fix k assume k: "0 < k \<and> k < length (entries h) - 1"
    then have "parent k < length (entries h) - 1" using parent_less [of k] by simp
    with k assms(2) show "ekey (butlast (entries h) ! parent k) \<le> ekey (butlast (entries h) ! k)"
      by (auto simp: nth_butlast heap_ordered_def le_parent_def)
  qed
  with p show ?thesis by (simp add: planner_inv_def)
qed

lemma heap_ordered_mono: "heap_ordered n es \<Longrightarrow> m \<le> n \<Longrightarrow> heap_ordered m es"
  by (auto simp: heap_ordered_def)

lemma broken_at_Swap_last:
  assumes "heap_ordered (length es) es" "i < length es" "n = length es - 1"
  shows "broken_at n i (exchanged es i n)"
proof -
  have n: "n < length es" using assms(2,3) by simp
  have hp: "ekey (es ! parent k) \<le> ekey (es ! k)" if "0 < k" "k < n" for k
    using assms(1) that n by (auto simp: heap_ordered_def le_parent_def)
  note nth = nth_exchanged [OF assms(2) n]
  have "le_parent (exchanged es i n) k" if "0 < k" "k < n" "k \<noteq> i" "parent k \<noteq> i" for k
    using hp [of k] that parent_less [of k] by (simp add: le_parent_def nth)
  moreover have "skips n i (exchanged es i n)"
    unfolding skips_def
  proof (intro allI impI)
    fix k assume k: "0 < k \<and> k < n \<and> parent k = i \<and> 0 < i"
    then have "i < k" "parent i < i" using parent_less [of k] parent_less [of i] by auto
    with k hp [of k] hp [of i] show "ekey (exchanged es i n ! parent i) \<le> ekey (exchanged es i n ! k)"
      by (auto simp: nth intro: order_trans)
  qed
  ultimately show ?thesis by (simp add: broken_at_def)
qed

lemma heap_Pop_inv:
  assumes "planner_inv h" "entries h \<noteq> []" "heap_Pop h = (e, h')"
  shows "e = entries h ! 0 \<and> planner_inv h' \<and> planner_map h' = (planner_map h)(Idx e := None)"
proof -
  let ?n = "length (entries h) - 1" and ?h1 = "Planner_Swap h 0 (length (entries h) - 1)"
  have ih: "indexed h" and oh: "heap_ordered (length (entries h)) (entries h)" using assms(1) by (auto simp: planner_inv_def)
  have n: "0 < length (entries h)" "?n < length (entries h)" using assms(2) by (auto simp: Suc_pred')
  obtain h2 moved where dn: "heap_down ?h1 0 ?n = (h2, moved)" by (cases "heap_down ?h1 0 ?n")
  note sw = indexed_Swap [OF ih n]
  have "if moved then heap_ordered ?n (entries h2) else h2 = ?h1 \<and> above_at ?n 0 (entries ?h1)"
    using broken_at_Swap_last [OF oh n(1) refl] dn by (intro heap_down_ordered) auto
  then have "heap_ordered ?n (entries h2)" by (auto simp: above_at_def heap_ordered_def split: if_splits)
  moreover have d: "indexed h2 \<and> planner_map h2 = planner_map h \<and> length (entries h2) = length (entries h) \<and>
      entries h2 ! ?n = entries ?h1 ! ?n"
    using heap_down_indexed [OF sw [THEN conjunct1] _ dn] sw by simp
  moreover have "Planner_Pop h2 = (e, h')" using assms(3) dn by (simp add: heap_Pop_def Planner_Len_def Let_def)
  moreover have "last (entries h2) = entries h ! 0"
    using d n by (simp add: last_conv_nth nth_exchanged flip: length_greater_0_conv)
  ultimately show ?thesis using heap_Remove_last [of h2 e h'] n by (metis length_0_conv less_irrefl)
qed

lemma heap_Remove_inv:
  assumes "planner_inv h" "idToIndex h cid = Some i"
  shows "planner_inv (snd (heap_Remove h i)) \<and> planner_map (snd (heap_Remove h i)) = (planner_map h)(cid := None)"
proof -
  let ?es = "entries h" and ?n = "length (entries h) - 1" and ?h1 = "Planner_Swap h i (length (entries h) - 1)"
  have ih: "indexed h" and oh: "heap_ordered (length ?es) ?es" using assms(1) by (auto simp: planner_inv_def)
  have i: "i < length ?es" "Idx (?es ! i) = cid" using indexed_SomeD [OF ih assms(2)] by auto
  then have n: "?n < length ?es" by simp
  have pop: ?thesis if "heap_Remove h i = Planner_Pop h3" "indexed h3" "planner_map h3 = planner_map h"
    "length (entries h3) = length ?es" "entries h3 ! ?n = ?es ! i" "heap_ordered ?n (entries h3)" for h3
  proof -
    have ne: "entries h3 \<noteq> []" using that(4) i(1) by auto
    then have "last (entries h3) = ?es ! i" using that(4,5) by (simp add: last_conv_nth)
    with ne heap_Remove_last [OF that(2) _ _ surjective_pairing] that i(2) show ?thesis by auto
  qed
  show ?thesis
  proof (cases "?n = i")
    case True
    then show ?thesis using ih heap_ordered_mono [OF oh, of ?n] by (intro pop) (auto simp: heap_Remove_def Planner_Len_def)
  next
    case False
    obtain h2 moved where dn: "heap_down ?h1 i ?n = (h2, moved)" by (cases "heap_down ?h1 i ?n")
    note sw = indexed_Swap [OF ih i(1) n]
    have d1: "if moved then heap_ordered ?n (entries h2) else h2 = ?h1 \<and> above_at ?n i (entries ?h1)"
      using broken_at_Swap_last [OF oh i(1) refl] dn by (intro heap_down_ordered) auto
    have d2: "indexed h2 \<and> planner_map h2 = planner_map h \<and> length (entries h2) = length ?es \<and> entries h2 ! ?n = ?es ! i"
      using heap_down_indexed [OF sw [THEN conjunct1] _ dn] sw i n by (simp add: nth_exchanged)
    show ?thesis
    proof (cases moved)
      case True
      then show ?thesis using d1 d2 dn False by (intro pop [of h2]) (auto simp: heap_Remove_def Planner_Len_def Let_def)
    next
      case up: False
      have "i < ?n" using False i(1) by simp
      with up d1 have "heap_ordered ?n (entries (heap_up ?h1 i))" using n by (intro heap_up_ordered) auto
      moreover have "entries (heap_up ?h1 i) ! ?n = ?es ! i"
        using heap_up_above [of i ?h1] \<open>i < ?n\<close> i n by (simp add: nth_exchanged)
      ultimately show ?thesis using up d1 d2 dn False heap_up_indexed [of ?h1 i] sw i
        by (intro pop [of "heap_up ?h1 i"]) (auto simp: heap_Remove_def Planner_Len_def Let_def)
    qed
  qed
qed


lemma Insert_inv:
  assumes "planner_inv h"
  shows "planner_inv (Planner_Insert h e) \<and> planner_map (Planner_Insert h e) = (planner_map h)(Idx e \<mapsto> e)"
  using heap_Push_inv [OF assms] heap_Fix_inv [OF assms] by (auto simp: Planner_Insert_def split: option.splits)

lemma modify_inv:
  assumes "planner_inv h" "idToIndex h cid = Some i" "Idx (f (entries h ! i)) = Idx (entries h ! i)"
  shows "planner_inv (heap_Fix (h\<lparr>entries := (entries h)[i := f (entries h ! i)]\<rparr>) i) \<and>
    planner_map (heap_Fix (h\<lparr>entries := (entries h)[i := f (entries h ! i)]\<rparr>) i) =
      (planner_map h)(cid := map_option f (planner_map h cid))"
proof -
  have "Idx (entries h ! i) = cid" using assms(1,2) indexed_SomeD [of h cid i] by (simp add: planner_inv_def)
  with heap_Fix_inv [of h "f (entries h ! i)" i] assms show ?thesis by (simp add: planner_map_def)
qed

lemma modify_absent: "idToIndex h cid = None \<Longrightarrow> planner_map h = (planner_map h)(cid := map_option f (planner_map h cid))"
  by (rule ext) (simp add: planner_map_def)

lemma Increment_inv:
  assumes "planner_inv h"
  shows "planner_inv (Planner_Increment h cid) \<and>
    planner_map (Planner_Increment h cid) = (planner_map h)(cid := map_option (\<lambda>e. e\<lparr>Times := Times e + 1\<rparr>) (planner_map h cid))"
  using modify_inv [OF assms, of cid _ "\<lambda>e. e\<lparr>Times := Times e + 1\<rparr>"] assms modify_absent [of h cid]
  by (cases "idToIndex h cid") (simp_all add: Planner_Increment_def)

lemma Decrement_inv:
  assumes "planner_inv h"
  shows "planner_inv (Planner_Decrement h cid) \<and>
    planner_map (Planner_Decrement h cid) = (planner_map h)(cid := map_option (\<lambda>e. e\<lparr>Times := Times e - 1\<rparr>) (planner_map h cid))"
  using modify_inv [OF assms, of cid _ "\<lambda>e. e\<lparr>Times := Times e - 1\<rparr>"] assms modify_absent [of h cid]
  by (cases "idToIndex h cid") (simp_all add: Planner_Decrement_def)

lemma Delete_inv:
  assumes "planner_inv h"
  shows "planner_inv (Planner_Delete h cid) \<and> planner_map (Planner_Delete h cid) = (planner_map h)(cid := None)"
proof (cases "idToIndex h cid")
  case None
  then have "planner_map h cid = None" by (simp add: planner_map_def)
  with None assms show ?thesis by (simp add: Planner_Delete_def fun_upd_idem)
next
  case (Some i)
  then show ?thesis using heap_Remove_inv [OF assms Some] by (simp add: Planner_Delete_def)
qed

lemma AddSent_inv:
  assumes "planner_inv h"
  shows "planner_inv (Planner_AddSent h cid d) \<and>
    planner_map (Planner_AddSent h cid d) = (planner_map h)(cid := map_option (\<lambda>e. e\<lparr>Sent := Sent e + d\<rparr>) (planner_map h cid))"
proof (cases "idToIndex h cid")
  case None
  then show ?thesis using assms modify_absent by (simp add: Planner_AddSent_def)
next
  case (Some i)
  let ?e = "(entries h ! i)\<lparr>Sent := Sent (entries h ! i) + d\<rparr>"
  have ih: "indexed h" and oh: "heap_ordered (length (entries h)) (entries h)" using assms by (auto simp: planner_inv_def)
  have i: "i < length (entries h)" "Idx (entries h ! i) = cid" using indexed_SomeD [OF ih Some] by auto
  have h': "Planner_AddSent h cid d = h\<lparr>entries := (entries h)[i := ?e]\<rparr>" using Some by (simp add: Planner_AddSent_def)
  have k: "ekey ((entries h)[i := ?e] ! k) = ekey (entries h ! k)" "Idx ((entries h)[i := ?e] ! k) = Idx (entries h ! k)" for k
    using i by (simp_all add: ekey_def nth_list_update)
  have "indexed (Planner_AddSent h cid d)" using ih by (simp add: h' indexed_def k)
  moreover have "heap_ordered (length (entries h)) ((entries h)[i := ?e])" using oh by (simp add: heap_ordered_def le_parent_def k)
  moreover have "planner_map (Planner_AddSent h cid d) c = ((planner_map h)(cid := map_option (\<lambda>e. e\<lparr>Sent := Sent e + d\<rparr>) (planner_map h cid))) c" for c
    using Some i indexed_SomeD [OF ih, of c]
    by (cases "idToIndex h c") (auto simp: h' planner_map_def nth_list_update)
  ultimately show ?thesis by (auto simp: planner_inv_def h')
qed

lemma heap_root_least: "heap_ordered n es \<Longrightarrow> k < n \<Longrightarrow> ekey (es ! 0) \<le> ekey (es ! k)"
proof (induction k rule: less_induct)
  case (less k)
  show ?case
  proof (cases "k = 0")
    case False
    then have "ekey (es ! 0) \<le> ekey (es ! parent k)" using less parent_less [of k] by simp
    also have "\<dots> \<le> ekey (es ! k)" using less.prems False by (simp add: heap_ordered_def le_parent_def)
    finally show ?thesis .
  qed simp
qed

lemma Top_least:
  assumes "planner_inv h" "Planner_Top h = Some e"
  shows "planner_map h (Idx e) = Some e \<and> (\<forall>cid x. planner_map h cid = Some x \<longrightarrow> ekey e \<le> ekey x)"
proof -
  have ih: "indexed h" and oh: "heap_ordered (length (entries h)) (entries h)" using assms(1) by (auto simp: planner_inv_def)
  from assms(2) have e: "0 < length (entries h)" "e = entries h ! 0" by (auto simp: Planner_Top_def split: if_splits)
  then show ?thesis using heap_root_least [OF oh] by (auto simp: planner_map_Some [OF ih])
qed

lemma Top_None: "planner_inv h \<Longrightarrow> Planner_Top h = None \<longleftrightarrow> planner_map h = Map.empty"
  unfolding planner_inv_def Planner_Top_def indexed_def planner_map_def by (force simp: fun_eq_iff)

lemma PopFront_inv:
  assumes "planner_inv h" "Planner_Top h = Some e"
  shows "\<exists>h'. Planner_PopFront h = Some (e, h') \<and> planner_inv h' \<and> planner_map h' = (planner_map h)(Idx e := None)"
proof -
  obtain x h' where p: "heap_Pop h = (x, h')" by (cases "heap_Pop h")
  from assms(2) have "entries h \<noteq> []" "e = entries h ! 0" by (auto simp: Planner_Top_def split: if_splits)
  with heap_Pop_inv [OF assms(1) _ p] p show ?thesis by (auto simp: Planner_PopFront_def)
qed


lemma Contains_iff: "Planner_Contains h cid \<longleftrightarrow> planner_map h cid \<noteq> None"
  by (simp add: Planner_Contains_def planner_map_def)

lemma GetSent_eq: "Planner_GetSent h cid = map_option Sent (planner_map h cid)"
  by (simp add: Planner_GetSent_def planner_map_def split: option.splits)

lemma heap_down_loop_length: "length (entries (fst (heap_down_loop h i n))) = length (entries h)"
proof (induction h i n rule: heap_down_loop.induct)
  case (1 h i n)
  then show ?case by (subst heap_down_loop.simps) (auto simp: Let_def)
qed

lemma PopFront_length: "Planner_PopFront h = Some (e, h') \<Longrightarrow> length (entries h') < length (entries h)"
  using heap_down_loop_length [of "Planner_Swap h 0 (length (entries h) - 1)" 0 "length (entries h) - 1"]
  by (auto simp: Planner_PopFront_def heap_Pop_def Planner_Pop_def Planner_Len_def heap_down_def Let_def split: if_splits prod.splits)

lemmas planner_ops_inv = Insert_inv Increment_inv Decrement_inv Delete_inv AddSent_inv

section \<open>The interface to the allocator\<close>

text \<open>
  What a client that takes entries out and puts them back relies on: a keyed collection whose
  \<open>top\<close> is an entry of least rank.
\<close>

locale least_first =
  fixes inv :: "'h \<Rightarrow> bool" and table :: "'h \<Rightarrow> 'k \<rightharpoonup> 'e" and key_of :: "'e \<Rightarrow> 'k" and rank :: "'e \<Rightarrow> 'r::linorder"
    and top :: "'h \<Rightarrow> 'e option" and pop :: "'h \<Rightarrow> ('e \<times> 'h) option" and ins :: "'h \<Rightarrow> 'e \<Rightarrow> 'h"
  assumes top_None: "inv h \<Longrightarrow> top h = None \<longleftrightarrow> table h = Map.empty"
    and top_Some: "inv h \<Longrightarrow> top h = Some e \<Longrightarrow> table h (key_of e) = Some e"
    and top_rank: "inv h \<Longrightarrow> top h = Some e \<Longrightarrow> table h k = Some x \<Longrightarrow> rank e \<le> rank x"
    and pop_top: "inv h \<Longrightarrow> top h = Some e \<Longrightarrow> \<exists>h'. pop h = Some (e, h') \<and> inv h' \<and> table h' = (table h)(key_of e := None)"
    and ins_table: "inv h \<Longrightarrow> inv (ins h e) \<and> table (ins h e) = (table h)(key_of e \<mapsto> e)"
begin

text \<open>Entries taken out and put back, in any order, leave the collection as it was.\<close>

lemma put_back:
  assumes "inv h" "\<And>e. e \<in> set es \<Longrightarrow> m (key_of e) = Some e" "table h \<subseteq>\<^sub>m m" "dom m \<subseteq> dom (table h) \<union> key_of ` set es"
  shows "inv (foldl ins h es) \<and> table (foldl ins h es) = m"
  using assms
proof (induction es arbitrary: h)
  case Nil
  then show ?case by (auto simp: map_le_def intro!: ext) (metis domIff subsetD)
next
  case (Cons e es)
  have i: "inv (ins h e)" "table (ins h e) = (table h)(key_of e \<mapsto> e)" using ins_table [OF Cons.prems(1)] by blast+
  have "table (ins h e) \<subseteq>\<^sub>m m" using Cons.prems(2) [of e] Cons.prems(3) by (auto simp: i map_le_def)
  moreover have "dom m \<subseteq> dom (table (ins h e)) \<union> key_of ` set es" using Cons.prems(4) by (auto simp: i)
  ultimately show ?case using Cons.IH [OF i(1)] Cons.prems(2) by simp
qed

text \<open>One step of taking out: the rest is the table without every key taken so far.\<close>

lemma take_one:
  assumes "inv h" "top h = Some e" "table h = m |` (- key_of ` set es)"
  shows "\<exists>h'. pop h = Some (e, h') \<and> inv h' \<and> table h' = m |` (- key_of ` set (es @ [e])) \<and> m (key_of e) = Some e"
proof -
  obtain h' where h': "pop h = Some (e, h')" "inv h'" "table h' = (table h)(key_of e := None)"
    using pop_top assms by blast
  have "m (key_of e) = Some e" using top_Some [OF assms(1,2)] assms(3) by (auto simp: restrict_map_def split: if_splits)
  moreover have "table h' = m |` (- key_of ` set (es @ [e]))"
    using h'(3) assms(3) by (auto simp: restrict_map_def fun_eq_iff)
  ultimately show ?thesis using h' by blast
qed

end

interpretation planner: least_first planner_inv planner_map Idx ekey Planner_Top Planner_PopFront Planner_Insert
  proof
  show "\<And>h. planner_inv h \<Longrightarrow> Planner_Top h = None \<longleftrightarrow> planner_map h = Map.empty" by (rule Top_None)
  show "\<And>h e. planner_inv h \<Longrightarrow> Planner_Top h = Some e \<Longrightarrow> planner_map h (Idx e) = Some e" using Top_least by blast
  show "\<And>h e k x. planner_inv h \<Longrightarrow> Planner_Top h = Some e \<Longrightarrow> planner_map h k = Some x \<Longrightarrow> ekey e \<le> ekey x"
    using Top_least by blast
qed (rule PopFront_inv Insert_inv; assumption)+

section \<open>Properties\<close>

text \<open>
  C12 (emit planner): under its invariant, which a new planner has and every operation keeps, the
  planner behaves as a finite map from chunk numbers to entries: \<open>Insert\<close> adds or replaces,
  \<open>Delete\<close> removes, \<open>Increment\<close>, \<open>Decrement\<close> and \<open>AddSent\<close> change the one entry if it is there,
  \<open>Contains\<close> and \<open>GetSent\<close> look it up, and \<open>PopFront\<close> removes the entry \<open>Top\<close> shows, one that
  has been handed out least often and among those has the least priority; only an empty planner
  has no \<open>Top\<close> and makes \<open>PopFront\<close> panic.
\<close>
theorem emitPlanner_refines_map:
  assumes inv: "planner_inv h"
  shows "planner_inv newEmitPlanner \<and> planner_map newEmitPlanner = Map.empty \<and>
    (planner_inv (Planner_Insert h e) \<and> planner_map (Planner_Insert h e) = (planner_map h)(Idx e \<mapsto> e)) \<and>
    (planner_inv (Planner_Delete h c) \<and> planner_map (Planner_Delete h c) = (planner_map h)(c := None)) \<and>
    (planner_inv (Planner_Increment h c) \<and> planner_map (Planner_Increment h c) =
       (planner_map h)(c := map_option (\<lambda>e. e\<lparr>Times := Times e + 1\<rparr>) (planner_map h c))) \<and>
    (planner_inv (Planner_Decrement h c) \<and> planner_map (Planner_Decrement h c) =
       (planner_map h)(c := map_option (\<lambda>e. e\<lparr>Times := Times e - 1\<rparr>) (planner_map h c))) \<and>
    (planner_inv (Planner_AddSent h c d) \<and> planner_map (Planner_AddSent h c d) =
       (planner_map h)(c := map_option (\<lambda>e. e\<lparr>Sent := Sent e + d\<rparr>) (planner_map h c))) \<and>
    (Planner_Contains h c \<longleftrightarrow> c \<in> dom (planner_map h)) \<and> Planner_GetSent h c = map_option Sent (planner_map h c) \<and>
    (case Planner_Top h of
       None \<Rightarrow> planner_map h = Map.empty \<and> Planner_PopFront h = None
     | Some t \<Rightarrow> planner_map h (Idx t) = Some t \<and>
         (\<forall>k x. planner_map h k = Some x \<longrightarrow> (Times t, Priority t) \<le> (Times x, Priority x)) \<and>
         (\<exists>h'. Planner_PopFront h = Some (t, h') \<and> planner_inv h' \<and> planner_map h' = (planner_map h)(Idx t := None)))"
proof -
  have "case Planner_Top h of
       None \<Rightarrow> planner_map h = Map.empty \<and> Planner_PopFront h = None
     | Some t \<Rightarrow> planner_map h (Idx t) = Some t \<and>
         (\<forall>k x. planner_map h k = Some x \<longrightarrow> (Times t, Priority t) \<le> (Times x, Priority x)) \<and>
         (\<exists>h'. Planner_PopFront h = Some (t, h') \<and> planner_inv h' \<and> planner_map h' = (planner_map h)(Idx t := None))"
  proof (cases "Planner_Top h")
    case None
    then show ?thesis using Top_None [OF inv] by (auto simp: Planner_PopFront_def Planner_Top_def split: if_splits)
  next
    case (Some t)
    then show ?thesis using Top_least [OF inv Some] PopFront_inv [OF inv Some] by (simp add: ekey_def)
  qed
  moreover have "Planner_Contains h c \<longleftrightarrow> c \<in> dom (planner_map h)" by (simp add: Contains_iff domIff)
  moreover have "planner_inv newEmitPlanner" "planner_map newEmitPlanner = Map.empty" using planner_inv_new by auto
  ultimately show ?thesis using planner_ops_inv [OF inv] GetSent_eq by (intro conjI) blast+
qed

definition planner_example :: emitPlanner where
  "planner_example = Planner_Insert (Planner_Insert newEmitPlanner \<lparr>Idx = 3, Times = 1, Sent = 1, Priority = 2\<rparr>)
     \<lparr>Idx = 7, Times = 0, Sent = 0, Priority = 5\<rparr>"

lemma planner_example_inv:
  "planner_inv planner_example"
  "planner_map planner_example = [3 \<mapsto> \<lparr>Idx = 3, Times = 1, Sent = 1, Priority = 2\<rparr>, 7 \<mapsto> \<lparr>Idx = 7, Times = 0, Sent = 0, Priority = 5\<rparr>]"
  using Insert_inv planner_inv_new by (simp_all add: planner_example_def)

theorem emitPlanner_refines_map_witness:
  "planner_inv planner_example \<and>
   planner_map (Planner_Delete planner_example 7) = [3 \<mapsto> \<lparr>Idx = 3, Times = 1, Sent = 1, Priority = 2\<rparr>] \<and>
   Planner_GetSent planner_example 3 = Some 1"
proof -
  have "planner_map (Planner_Delete planner_example 7) = (planner_map planner_example)(7 := None)"
    "Planner_GetSent planner_example 3 = map_option Sent (planner_map planner_example 3)"
    using emitPlanner_refines_map [OF planner_example_inv(1)] by blast+
  then show ?thesis by (simp add: planner_example_inv)
qed

end
