(* ===== verification/RSStrategy.thy ===== *)
theory RSStrategy
  imports BcastTypes RSTypes Bitmap EmitPlanner Sha256
begin

text \<open>
  \<open>src/broadcast/rs/strategy.go\<close>: the strategy of one Reed-Solomon coded message, at its origin
  and at a relay.
\<close>

section \<open>State\<close>

text \<open>
  \<open>github.com/klauspost/reedsolomon\<close>, by the numbers of data and parity shards: \<open>New\<close> with its
  error, \<open>Encode\<close> and \<open>ReconstructData\<close> with the shards they leave; a missing shard is \<open>nil\<close>.
\<close>

record reedsolomon =
  rs_New :: "int \<Rightarrow> int \<Rightarrow> goerr option"
  rs_Encode :: "int \<Rightarrow> int \<Rightarrow> bytes list \<Rightarrow> goerr + bytes list"
  rs_ReconstructData :: "int \<Rightarrow> int \<Rightarrow> bytes option list \<Rightarrow> goerr + bytes option list"

record peerState =
  peer_bitmap :: bitmap
  inflight :: "int list"
  completed :: bool

record strategy =
  config :: Config
  preamble :: Preamble
  isOrigin :: bool
  totalChunks :: int
  chunks :: "bytes option list"
  planner :: emitPlanner
  peers :: "PeerID \<rightharpoonup> peerState"
  routingDirty :: bool
  seed :: "64 word"
  have_chunks :: bitmap
  complete :: bool

section \<open>Construction\<close>

text \<open>\<open>slices.Chunk\<close>: consecutive parts of \<open>n\<close> elements, the last maybe shorter.\<close>

function slices_Chunk :: "nat \<Rightarrow> 'a list \<Rightarrow> 'a list list" where
  "slices_Chunk n xs = (if xs = [] \<or> n = 0 then [] else take n xs # slices_Chunk n (drop n xs))"
  by pat_completeness auto
termination
  by (relation "measure (\<lambda>(n, xs). length xs)") auto

declare slices_Chunk.simps [simp del]

text \<open>
  The origin. The bytes that \<open>slices.Grow\<close> adds are zero; it panics when asked for a negative
  number, and \<open>slices.Chunk\<close> panics on a chunk length below one.
\<close>

definition newOriginStrategy :: "reedsolomon \<Rightarrow> Config \<Rightarrow> bytes \<Rightarrow> (goerr + strategy) option" where
  "newOriginStrategy rs cfg payload =
     do {
       let msgLen = int (length payload);
       (p, chunkLen) \<leftarrow> initPreamble cfg msgLen;
       (case rs_New rs (DataChunks p) (ParityChunks p) of
          Some err \<Rightarrow> Some (Inl (Wrap ''RS: failed to create encoder'' err))
        | None \<Rightarrow>
            let totalLen = chunkLen * TotalChunks p; parityLen = totalLen - msgLen in
            if parityLen < 0 \<or> chunkLen < 1 then None
            else
              let msg = payload @ replicate (nat parityLen) 0 in
              (case rs_Encode rs (DataChunks p) (ParityChunks p) (slices_Chunk (nat chunkLen) msg) of
                 Inl err \<Rightarrow> Some (Inl (Wrap ''RS encode failed'' err))
               | Inr shards \<Rightarrow>
                   let pl = fold (\<lambda>i h. Planner_Insert h \<lparr>Idx = int i, Times = 0, Sent = 0, Priority = 0\<rparr>)
                              [0..<length shards] newEmitPlanner;
                       p' = p\<lparr>ChunkHashes := map Sum256 shards, MessageHash := Sum256 payload\<rparr>
                   in Some (Inr \<lparr>config = cfg, preamble = p', isOrigin = True, totalChunks = TotalChunks p',
                        chunks = map Some shards, planner = pl, peers = Map.empty, routingDirty = True, seed = 0,
                        have_chunks = AllOnesBitmap (nat (TotalChunks p')), complete = False\<rparr>)))
     }"

text \<open>The relay; \<open>rnd\<close> is what \<open>rand.Uint64\<close> returns, and a \<open>nil\<close> preamble is \<open>None\<close>.\<close>

definition newRelayStrategy :: "Config \<Rightarrow> 64 word \<Rightarrow> Preamble option \<Rightarrow> goerr + strategy" where
  "newRelayStrategy cfg rnd pre =
     (case pre of
        None \<Rightarrow> Inl (ErrNew ''nil preamble'')
      | Some p \<Rightarrow>
          if DataChunks p \<le> 0 \<or> ParityChunks p < 0 \<or> int (length (ChunkHashes p)) \<noteq> TotalChunks p
          then Inl (ErrNew ''malformed preamble'')
          else
            let c = (if ForwardMultiplier cfg \<le> 0 then cfg\<lparr>ForwardMultiplier := 4\<rparr> else cfg);
                total = TotalChunks p
            in Inr \<lparr>config = c, preamble = p, isOrigin = False, totalChunks = total,
                 chunks = replicate (nat total) None, planner = newEmitPlanner, peers = Map.empty,
                 routingDirty = False, seed = rnd, have_chunks = NewBitmap (nat total), complete = False\<rparr>)"

section \<open>Operations\<close>

definition HaveChunk :: "strategy \<Rightarrow> ChunkIdent \<Rightarrow> bool" where
  "HaveChunk s ci =
     (let idx = Index ci in
      if idx < 0 \<or> totalChunks s \<le> idx then True else Bitmap_Get (have_chunks s) (nat idx))"

text \<open>\<open>binary.BigEndian.PutUint32\<close> of the index.\<close>

definition DedupKey :: "strategy \<Rightarrow> ChunkIdent \<Rightarrow> bytes option" where
  "DedupKey s ci = (let w = word_of_int (Index ci) :: 32 word in Some (map (\<lambda>k. ucast (drop_bit k w)) [24, 16, 8, 0]))"

definition AttachPeer :: "strategy \<Rightarrow> PeerID \<Rightarrow> strategy" where
  "AttachPeer s peer =
     s\<lparr>peers := (peers s)(peer \<mapsto> \<lparr>peer_bitmap = NewBitmap (nat (totalChunks s)),
                                inflight = replicate (nat (totalChunks s)) 0, completed = False\<rparr>)\<rparr>"

definition DetachPeer :: "strategy \<Rightarrow> PeerID \<Rightarrow> bool \<Rightarrow> strategy" where
  "DetachPeer s peer fin =
     (case peers s peer of
        None \<Rightarrow> s
      | Some ps \<Rightarrow>
          if fin then s\<lparr>peers := (peers s)(peer \<mapsto> ps\<lparr>completed := True\<rparr>)\<rparr>
          else s\<lparr>peers := (peers s)(peer := None)\<rparr>)"

definition verifyChunk :: "strategy \<Rightarrow> int \<Rightarrow> bytes \<Rightarrow> Verdict" where
  "verifyChunk s idx data =
     (case index_at (ChunkHashes (preamble s)) idx of
        None \<Rightarrow> VerdictInvalid
      | Some h \<Rightarrow> if Sum256 data = h then VerdictAccepted else VerdictInvalid)"

definition VerifyChunk :: "strategy \<Rightarrow> PeerID \<Rightarrow> ChunkIdent \<Rightarrow> bytes \<Rightarrow> Verdict" where
  "VerifyChunk s peer ci data =
     (if Index ci < 0 \<or> totalChunks s \<le> Index ci then VerdictInvalid else verifyChunk s (Index ci) data)"

definition chunkPriority :: "strategy \<Rightarrow> int \<Rightarrow> 32 word" where
  "chunkPriority s idx = ucast (drop_bit 32 (seed s XOR (word_of_int idx * 0x9E3779B97F4A7C15)) :: 64 word)"

text \<open>
  \<open>TakeChunk\<close>, with whether it called \<open>dedup.Cancel\<close>; its error is always \<open>nil\<close>. No result is
  a panic.
\<close>

definition TakeChunk :: "strategy \<Rightarrow> PeerID \<Rightarrow> ChunkIdent \<Rightarrow> bytes \<Rightarrow> (Verdict \<times> bool \<times> bool \<times> strategy) option" where
  "TakeChunk s peer ci data =
     (if Index ci < 0 \<or> totalChunks s \<le> Index ci then Some (VerdictInvalid, False, False, s)
      else if complete s then Some (VerdictRedundant, False, False, s)
      else
        let idx = Index ci in
        do {
          c \<leftarrow> index_at (chunks s) idx;
          if c \<noteq> None then Some (VerdictRedundant, False, False, s)
          else
            let s = s\<lparr>chunks := (chunks s)[nat idx := Some data],
                      have_chunks := Bitmap_Set (have_chunks s) (nat idx), routingDirty := True,
                      planner := Planner_Insert (planner s)
                        \<lparr>Idx = idx, Times = 0, Sent = 0, Priority = chunkPriority s idx\<rparr>\<rparr>;
                s = (case peers s peer of
                       None \<Rightarrow> s
                     | Some ps \<Rightarrow> s\<lparr>peers := (peers s)(peer \<mapsto> ps\<lparr>peer_bitmap := Bitmap_Set (peer_bitmap ps) (nat idx)\<rparr>)\<rparr>);
                s = (if \<not> complete s \<and> DataChunks (preamble s) \<le> int (Bitmap_OnesCount (have_chunks s))
                     then s\<lparr>complete := True\<rparr> else s)
            in Some (VerdictAccepted, complete s, True, s)
        })"

text \<open>
  \<open>tryDecode\<close>. \<open>ReconstructData\<close> works on a clone, so the strategy does not change; a shard that
  is still \<open>nil\<close> is appended as no bytes.
\<close>

definition tryDecode :: "reedsolomon \<Rightarrow> strategy \<Rightarrow> (goerr + bytes) option" where
  "tryDecode rs s =
     (let p = preamble s in
      case rs_New rs (DataChunks p) (ParityChunks p) of
        Some err \<Rightarrow> Some (Inl (Wrap ''create RS encoder'' err))
      | None \<Rightarrow>
          (case rs_ReconstructData rs (DataChunks p) (ParityChunks p) (chunks s) of
             Inl err \<Rightarrow> Some (Inl (Wrap ''RS reconstruct failed'' err))
           | Inr shards \<Rightarrow>
               if shards = [] \<or> int (length shards) < DataChunks p then None
               else
                 let data = concat (map (case_option [] (\<lambda>d. d)) (take (nat (DataChunks p)) shards)) in
                 if MessageLength p \<le> 0 \<or> int (length data) < MessageLength p
                 then Some (Inl (ErrNew ''invalid message length''))
                 else
                   let data = take (nat (MessageLength p)) data in
                   if Sum256 data \<noteq> MessageHash p then Some (Inl (ErrNew ''message hash mismatch''))
                   else Some (Inr data)))"

definition Decode_strategy :: "reedsolomon \<Rightarrow> strategy \<Rightarrow> (goerr + bytes) option" where
  "Decode_strategy rs s = tryDecode rs s"

text \<open>\<open>RoutingUpdate\<close>: the handles to cancel, in increasing order; its error is always \<open>nil\<close>.\<close>

definition RoutingUpdate :: "strategy \<Rightarrow> PeerID \<Rightarrow> bitmap option \<Rightarrow> 64 word list \<times> strategy" where
  "RoutingUpdate s peer update =
     (case peers s peer of
        None \<Rightarrow> ([], s)
      | Some ps \<Rightarrow>
          let ps = (case update of None \<Rightarrow> ps | Some u \<Rightarrow> ps\<lparr>peer_bitmap := Bitmap_Or (peer_bitmap ps) u\<rparr>);
              cancel = filter (\<lambda>idx. 0 < inflight ps ! idx \<and> Bitmap_Get (peer_bitmap ps) idx) [0..<length (inflight ps)]
          in (map word_of_nat cancel, s\<lparr>peers := (peers s)(peer \<mapsto> ps)\<rparr>))"

text \<open>
  The loop of \<open>allocate\<close>: entries the peer must not be offered are taken out of the planner
  until one fits; the last component is whether it panicked.
\<close>

definition skip_entry :: "strategy \<Rightarrow> peerState \<Rightarrow> emitEntry \<Rightarrow> bool option" where
  "skip_entry s ps ec =
     (if Bitmap_Get (peer_bitmap ps) (nat (Idx ec)) then Some True
      else do {
        n \<leftarrow> index_at (inflight ps) (Idx ec);
        Some (0 < n \<or> (\<not> isOrigin s \<and> ForwardMultiplier (config s) \<le> Sent ec))
      })"

function allocate_loop :: "strategy \<Rightarrow> peerState \<Rightarrow> emitPlanner \<Rightarrow> emitEntry list \<Rightarrow>
    (emitEntry option \<times> emitEntry list \<times> emitPlanner) option" where
  "allocate_loop s ps h skipped =
     (case Planner_Top h of
        None \<Rightarrow> Some (None, skipped, h)
      | Some ec \<Rightarrow>
          (case skip_entry s ps ec of
             None \<Rightarrow> None
           | Some True \<Rightarrow>
               (case Planner_PopFront h of
                  None \<Rightarrow> None
                | Some (e, h') \<Rightarrow> allocate_loop s ps h' (skipped @ [e]))
           | Some False \<Rightarrow> Some (Some ec, skipped, h)))"
  by pat_completeness auto
termination
  by (relation "measure (\<lambda>(s, ps, h, skipped). length (entries h))") (auto dest: PopFront_length)

declare allocate_loop.simps [simp del]

definition allocate :: "strategy \<Rightarrow> PeerID \<Rightarrow> peerState \<Rightarrow> ((ChunkIdent \<times> bytes) option \<times> strategy) option" where
  "allocate s peer ps =
     do {
       (found, skipped, h) \<leftarrow> allocate_loop s ps (planner s) [];
       (case found of
          None \<Rightarrow> Some (None, s\<lparr>planner := foldl Planner_Insert h skipped\<rparr>)
        | Some ec \<Rightarrow>
            do {
              c \<leftarrow> index_at (chunks s) (Idx ec);
              n \<leftarrow> index_at (inflight ps) (Idx ec);
              Some (Some (ChunkIdent (Idx ec), case_option [] (\<lambda>d. d) c),
                s\<lparr>planner := Planner_Increment (foldl Planner_Insert h skipped) (Idx ec),
                  peers := (peers s)(peer \<mapsto> ps\<lparr>inflight := (inflight ps)[nat (Idx ec) := n + 1]\<rparr>)\<rparr>)
            })
     }"

text \<open>
  \<open>PollChunks\<close>, over the peers in the order the runtime's iteration of the map yields them.
\<close>

fun PollChunks :: "strategy \<Rightarrow> PeerID list \<Rightarrow> (ChunkIdent ChunkDispatch list \<times> strategy) option" where
  "PollChunks s [] = Some ([], s)"
| "PollChunks s (peer # order) =
     (case peers s peer of
        None \<Rightarrow> PollChunks s order
      | Some ps \<Rightarrow>
          if completed ps then PollChunks s order
          else do {
            (r, s') \<leftarrow> allocate s peer ps;
            (ds, s'') \<leftarrow> PollChunks s' order;
            Some (case r of None \<Rightarrow> ds | Some (ci, data) \<Rightarrow> ChunkDispatch peer ci data # ds, s'')
          })"

text \<open>\<open>shouldEmitRouting\<close>; the division by \<open>totalChunks\<close> panics on zero.\<close>

definition shouldEmitRouting :: "strategy \<Rightarrow> bool option" where
  "shouldEmitRouting s =
     (if DisableBitmap (config s) then Some False
      else if BitmapThreshold (config s) \<le> 0 then Some True
      else if totalChunks s = 0 then None
      else Some (BitmapThreshold (config s) \<le> int (Bitmap_OnesCount (have_chunks s)) * 100 sdiv totalChunks s))"

definition PollRouting :: "strategy \<Rightarrow> bool \<Rightarrow> (bitmap option \<times> strategy) option" where
  "PollRouting s force =
     (if routingDirty s \<or> force then
        do {
          ok \<leftarrow> shouldEmitRouting s;
          Some (if ok then (Some (Bitmap_Clone (have_chunks s)), s\<lparr>routingDirty := False\<rparr>) else (None, s))
        }
      else Some (None, s))"

text \<open>\<open>ChunkSent\<close>; the conversion \<open>int(handle)\<close> of a \<open>uint64\<close> reads it as signed.\<close>

definition ChunkSent :: "strategy \<Rightarrow> PeerID \<Rightarrow> 64 word \<Rightarrow> goerr option \<Rightarrow> strategy option" where
  "ChunkSent s peer handle err =
     (case peers s peer of
        None \<Rightarrow> Some s
      | Some ps \<Rightarrow>
          let idx = sint handle in
          if idx < 0 \<or> totalChunks s \<le> idx then Some s
          else do {
            n \<leftarrow> index_at (inflight ps) idx;
            if n \<le> 0 then Some s
            else
              let ps = ps\<lparr>inflight := (inflight ps)[nat idx := n - 1]\<rparr> in
              Some (if err = None then
                s\<lparr>planner := (if isOrigin s then planner s else Planner_AddSent (planner s) idx 1),
                  peers := (peers s)(peer \<mapsto> ps\<lparr>peer_bitmap := Bitmap_Set (peer_bitmap ps) (nat idx)\<rparr>)\<rparr>
              else
                s\<lparr>planner := Planner_Decrement (planner s) idx,
                  peers := (peers s)(peer \<mapsto> ps\<lparr>peer_bitmap := Bitmap_Unset (peer_bitmap ps) (nat idx)\<rparr>)\<rparr>)
          })"

definition Progress :: "strategy \<Rightarrow> int \<times> int" where
  "Progress s = (int (Bitmap_OnesCount (have_chunks s)), DataChunks (preamble s))"

end
