(* ===== verification/RSInvariant.thy ===== *)
theory RSInvariant
  imports RSStrategy
begin

text \<open>
  The invariant of the Reed-Solomon strategy and what every operation does under it: no
  operation panics, the held chunks, their bitmap and the planner agree, every peer has at most
  one send of a chunk under way, and the planner's counters cover those sends.
\<close>

section \<open>Invariant\<close>

definition peer_ok :: "nat \<Rightarrow> peerState \<Rightarrow> bool" where
  "peer_ok n ps \<longleftrightarrow> length (inflight ps) = n \<and> length (peer_bitmap ps) = divCeil n 8 \<and> set (inflight ps) \<subseteq> {0, 1}"

text \<open>The number of sends of chunk \<open>i\<close> under way, over all peers.\<close>

definition in_flight :: "(PeerID \<rightharpoonup> peerState) \<Rightarrow> nat \<Rightarrow> int" where
  "in_flight m i = (\<Sum>p \<in> dom m. inflight (the (m p)) ! i)"

definition rs_shape :: "strategy \<Rightarrow> bool" where
  "rs_shape s \<longleftrightarrow> 0 < totalChunks s \<and> totalChunks s = TotalChunks (preamble s) \<and> 0 < DataChunks (preamble s) \<and>
     length (chunks s) = nat (totalChunks s) \<and> length (ChunkHashes (preamble s)) = nat (totalChunks s) \<and>
     length (have_chunks s) = divCeil (nat (totalChunks s)) 8 \<and>
     (\<not> isOrigin s \<longrightarrow> 0 < ForwardMultiplier (config s) \<and>
        (complete s \<longleftrightarrow> DataChunks (preamble s) \<le> int (Bitmap_OnesCount (have_chunks s))))"

definition peers_ok :: "nat \<Rightarrow> (PeerID \<rightharpoonup> peerState) \<Rightarrow> bool" where
  "peers_ok n m \<longleftrightarrow> finite (dom m) \<and> (\<forall>p ps. m p = Some ps \<longrightarrow> peer_ok n ps)"

text \<open>
  The bitmap of held chunks, the chunks and the planner agree, and for every held chunk the
  allocations recorded cover the sends under way and the credited ones.
\<close>

definition rs_held :: "strategy \<Rightarrow> bool" where
  "rs_held s \<longleftrightarrow> ones (have_chunks s) = {i. i < nat (totalChunks s) \<and> chunks s ! i \<noteq> None} \<and>
     planner_inv (planner s) \<and> dom (planner_map (planner s)) = int ` ones (have_chunks s)"

definition rs_counts :: "strategy \<Rightarrow> bool" where
  "rs_counts s \<longleftrightarrow> (\<forall>i < nat (totalChunks s).
     (case planner_map (planner s) (int i) of
        None \<Rightarrow> in_flight (peers s) i = 0
      | Some e \<Rightarrow> 0 \<le> Sent e \<and> in_flight (peers s) i + Sent e \<le> Times e))"

definition rs_inv :: "strategy \<Rightarrow> bool" where
  "rs_inv s \<longleftrightarrow> rs_shape s \<and> peers_ok (nat (totalChunks s)) (peers s) \<and> rs_held s \<and> rs_counts s"

lemma in_flight_upd:
  assumes "finite (dom m)"
  shows "in_flight (m(p \<mapsto> ps)) i = in_flight (m(p := None)) i + inflight ps ! i"
proof -
  have "in_flight (m(p \<mapsto> ps)) i = inflight ps ! i + (\<Sum>q \<in> dom m - {p}. inflight (the ((m(p \<mapsto> ps)) q)) ! i)"
    unfolding in_flight_def using assms by (simp add: sum.insert_remove del: fun_upd_apply) simp
  moreover have "(\<Sum>q \<in> dom m - {p}. inflight (the ((m(p \<mapsto> ps)) q)) ! i) = in_flight (m(p := None)) i"
    unfolding in_flight_def by (rule sum.cong) auto
  ultimately show ?thesis by linarith
qed

lemma in_flight_old:
  assumes "finite (dom m)" "m p = Some ps"
  shows "in_flight (m(p := None)) i = in_flight m i - inflight ps ! i"
proof -
  have "m(p \<mapsto> ps) = m" using assms(2) by auto
  with in_flight_upd [OF assms(1), of p ps i] show ?thesis by simp
qed

lemma in_flight_absent: "m p = None \<Longrightarrow> in_flight (m(p := None)) i = in_flight m i"
  by (simp add: fun_upd_idem)

lemma peer_ok_nth: "peer_ok n ps \<Longrightarrow> i < n \<Longrightarrow> inflight ps ! i = 0 \<or> inflight ps ! i = 1"
  unfolding peer_ok_def by (metis insertE nth_mem singletonD subsetD)

lemma peers_ok_finite: "peers_ok n m \<Longrightarrow> finite (dom m)"
  and peers_ok_peer: "peers_ok n m \<Longrightarrow> m p = Some ps \<Longrightarrow> peer_ok n ps"
  and peers_ok_upd: "peers_ok n m \<Longrightarrow> peer_ok n ps \<Longrightarrow> peers_ok n (m(p \<mapsto> ps))"
  and peers_ok_remove: "peers_ok n m \<Longrightarrow> peers_ok n (m(p := None))"
  by (auto simp: peers_ok_def)

lemma in_flight_nonneg: "peers_ok n m \<Longrightarrow> i < n \<Longrightarrow> 0 \<le> in_flight m i"
  unfolding in_flight_def by (rule sum_nonneg) (auto dest!: peers_ok_peer peer_ok_nth)

text \<open>Detaching a peer only lowers the counts, and a new peer adds nothing to them.\<close>

lemma in_flight_remove_le:
  assumes "peers_ok n m" "i < n"
  shows "in_flight (m(p := None)) i \<le> in_flight m i"
proof (cases "m p")
  case (Some ps)
  then show ?thesis
    using in_flight_old [OF peers_ok_finite [OF assms(1)] Some, of i] peer_ok_nth [OF peers_ok_peer [OF assms(1) Some] assms(2)]
    by auto
qed (simp add: in_flight_absent)

lemma rs_inv_peers: "rs_inv s \<Longrightarrow> peers_ok (nat (totalChunks s)) (peers s)"
  by (simp add: rs_inv_def)

lemma counts_mono:
  assumes "rs_counts s" "totalChunks s' = totalChunks s" "planner s' = planner s"
    "peers_ok (nat (totalChunks s)) (peers s')"
    "\<And>i. i < nat (totalChunks s) \<Longrightarrow> in_flight (peers s') i \<le> in_flight (peers s) i"
  shows "rs_counts s'"
  unfolding rs_counts_def
proof (intro allI impI)
  fix i assume i: "i < nat (totalChunks s')"
  then have "i < nat (totalChunks s)" using assms(2) by simp
  then show "case planner_map (planner s') (int i) of None \<Rightarrow> in_flight (peers s') i = 0
      | Some e \<Rightarrow> 0 \<le> Sent e \<and> in_flight (peers s') i + Sent e \<le> Times e"
    using assms(1) [unfolded rs_counts_def, rule_format, of i] assms(3) assms(5) [of i] in_flight_nonneg [OF assms(4), of i]
    by (auto split: option.splits)
qed

text \<open>A change of the peers alone, which keeps them well formed and raises no count.\<close>

lemma peers_change_inv:
  assumes "rs_inv s" "peers_ok (nat (totalChunks s)) m"
    "\<And>i. i < nat (totalChunks s) \<Longrightarrow> in_flight m i \<le> in_flight (peers s) i"
  shows "rs_inv (s\<lparr>peers := m\<rparr>)"
proof -
  have i: "rs_shape s" "rs_held s" "rs_counts s" using assms(1) by (simp_all add: rs_inv_def)
  then have "rs_shape (s\<lparr>peers := m\<rparr>)" "rs_held (s\<lparr>peers := m\<rparr>)" by (simp_all add: rs_shape_def rs_held_def)
  moreover have "rs_counts (s\<lparr>peers := m\<rparr>)" using assms(2,3) by (intro counts_mono [OF i(3)]) simp_all
  ultimately show ?thesis using assms(2) by (simp add: rs_inv_def)
qed

section \<open>Attaching and detaching peers\<close>

lemma AttachPeer_inv:
  assumes "rs_inv s"
  shows "rs_inv (AttachPeer s peer)"
  unfolding AttachPeer_def
proof (rule peers_change_inv [OF assms])
  note p = rs_inv_peers [OF assms]
  let ?ps = "\<lparr>peer_bitmap = NewBitmap (nat (totalChunks s)), inflight = replicate (nat (totalChunks s)) 0, completed = False\<rparr>"
  show "peers_ok (nat (totalChunks s)) ((peers s)(peer \<mapsto> ?ps))" by (intro peers_ok_upd [OF p]) (auto simp: peer_ok_def)
  show "in_flight ((peers s)(peer \<mapsto> ?ps)) i \<le> in_flight (peers s) i" if "i < nat (totalChunks s)" for i
    using in_flight_remove_le [OF p that] that by (simp add: in_flight_upd [OF peers_ok_finite [OF p]])
qed

lemma DetachPeer_inv:
  assumes "rs_inv s"
  shows "rs_inv (DetachPeer s peer fin)"
proof (cases "peers s peer")
  case (Some ps)
  note p = rs_inv_peers [OF assms] and f = peers_ok_finite [OF rs_inv_peers [OF assms]]
  have "peer_ok (nat (totalChunks s)) (ps\<lparr>completed := True\<rparr>)" using peers_ok_peer [OF p Some] by (simp add: peer_ok_def)
  then have "rs_inv (s\<lparr>peers := (peers s)(peer \<mapsto> ps\<lparr>completed := True\<rparr>)\<rparr>)"
    by (intro peers_change_inv [OF assms] peers_ok_upd [OF p])
      (simp_all add: in_flight_upd [OF f] in_flight_old [OF f Some])
  moreover have "rs_inv (s\<lparr>peers := (peers s)(peer := None)\<rparr>)"
    by (intro peers_change_inv [OF assms] peers_ok_remove [OF p] in_flight_remove_le [OF p])
  ultimately show ?thesis using Some by (simp add: DetachPeer_def)
qed (use assms in \<open>simp add: DetachPeer_def\<close>)

section \<open>Routing\<close>

lemma RoutingUpdate_inv:
  assumes "rs_inv s"
  shows "rs_inv (snd (RoutingUpdate s peer update))"
proof (cases "peers s peer")
  case (Some ps)
  note p = rs_inv_peers [OF assms] and f = peers_ok_finite [OF rs_inv_peers [OF assms]]
  define ps' where "ps' = (case update of None \<Rightarrow> ps | Some u \<Rightarrow> ps\<lparr>peer_bitmap := Bitmap_Or (peer_bitmap ps) u\<rparr>)"
  have i: "inflight ps' = inflight ps" by (simp add: ps'_def split: option.split)
  have "peer_ok (nat (totalChunks s)) ps'" using peers_ok_peer [OF p Some] by (auto simp: peer_ok_def ps'_def split: option.split)
  then have "rs_inv (s\<lparr>peers := (peers s)(peer \<mapsto> ps')\<rparr>)"
    by (intro peers_change_inv [OF assms] peers_ok_upd [OF p])
      (simp_all add: in_flight_upd [OF f] in_flight_old [OF f Some] i)
  then show ?thesis using Some by (simp add: RoutingUpdate_def ps'_def Let_def)
qed (use assms in \<open>simp add: RoutingUpdate_def\<close>)

lemma rs_inv_dirty: "rs_inv (s\<lparr>routingDirty := d\<rparr>) = rs_inv s"
  by (simp add: rs_inv_def rs_shape_def rs_held_def rs_counts_def cong: option.case_cong)

lemma PollRouting_inv:
  assumes "rs_inv s"
  shows "\<exists>r s'. PollRouting s force = Some (r, s') \<and> rs_inv s'"
proof -
  have "totalChunks s \<noteq> 0" using assms by (auto simp: rs_inv_def rs_shape_def)
  then obtain b where "shouldEmitRouting s = Some b" unfolding shouldEmitRouting_def by metis
  then show ?thesis using assms by (auto simp: PollRouting_def rs_inv_dirty)
qed

section \<open>Taking a chunk\<close>

lemma held_iff:
  assumes "rs_inv s" "i < nat (totalChunks s)"
  shows "planner_map (planner s) (int i) = None \<longleftrightarrow> chunks s ! i = None"
    "Bitmap_Get (have_chunks s) i \<longleftrightarrow> chunks s ! i \<noteq> None"
proof -
  have h: "rs_held s" using assms(1) by (simp add: rs_inv_def)
  have "i \<in> ones (have_chunks s) \<longleftrightarrow> chunks s ! i \<noteq> None" using h assms(2) by (auto simp: rs_held_def)
  moreover have "int i \<in> dom (planner_map (planner s)) \<longleftrightarrow> i \<in> ones (have_chunks s)" using h by (auto simp: rs_held_def)
  ultimately show "planner_map (planner s) (int i) = None \<longleftrightarrow> chunks s ! i = None"
    "Bitmap_Get (have_chunks s) i \<longleftrightarrow> chunks s ! i \<noteq> None" by (auto simp: domIff ones_def)
qed

text \<open>Storing a missing chunk: the state of \<open>TakeChunk\<close> before it looks at the peer.\<close>

definition store_chunk :: "strategy \<Rightarrow> nat \<Rightarrow> bytes \<Rightarrow> strategy" where
  "store_chunk s i data =
     s\<lparr>chunks := (chunks s)[i := Some data], have_chunks := Bitmap_Set (have_chunks s) i, routingDirty := True,
       planner := Planner_Insert (planner s) \<lparr>Idx = int i, Times = 0, Sent = 0, Priority = chunkPriority s (int i)\<rparr>,
       complete := DataChunks (preamble s) \<le> int (Bitmap_OnesCount (Bitmap_Set (have_chunks s) i))\<rparr>"

lemma ones_Set: "ones (Bitmap_Set b i) = (if i < length b * 8 then insert i (ones b) else ones b)"
  by (auto simp: ones_def Get_Set)

lemma rs_have_range:
  assumes "rs_inv s" "i < nat (totalChunks s)"
  shows "i < length (have_chunks s) * 8" "i < length (chunks s)"
  using assms divCeil_8 [of "nat (totalChunks s)"] by (auto simp: rs_inv_def rs_shape_def)

lemma store_chunk_inv:
  assumes "rs_inv s" "i < nat (totalChunks s)" "chunks s ! i = None"
  shows "rs_inv (store_chunk s i data)"
proof -
  let ?s = "store_chunk s i data"
  note r = rs_have_range [OF assms(1,2)]
  have h: "rs_shape s" "rs_held s" "rs_counts s" using assms(1) by (simp_all add: rs_inv_def)
  have pl: "planner_inv (planner ?s)"
    "planner_map (planner ?s) = (planner_map (planner s))(int i \<mapsto> \<lparr>Idx = int i, Times = 0, Sent = 0, Priority = chunkPriority s (int i)\<rparr>)"
    using h(2) Insert_inv [of "planner s"] by (simp_all add: rs_held_def store_chunk_def)
  have "rs_shape ?s" using h(1) by (auto simp: rs_shape_def store_chunk_def)
  moreover have "rs_held ?s"
    using h(2) pl r assms(2) by (auto simp: rs_held_def store_chunk_def ones_Set nth_list_update)
  moreover have "rs_counts ?s" unfolding rs_counts_def
  proof (intro allI impI)
    fix k assume "k < nat (totalChunks ?s)"
    then have k: "k < nat (totalChunks s)" by (simp add: store_chunk_def)
    note c = h(3) [unfolded rs_counts_def, rule_format, OF k]
    have "in_flight (peers s) i = 0"
      using h(3) [unfolded rs_counts_def, rule_format, OF assms(2)] held_iff(1) [OF assms(1,2)] assms(3) by simp
    then show "case planner_map (planner ?s) (int k) of None \<Rightarrow> in_flight (peers ?s) k = 0
       | Some e \<Rightarrow> 0 \<le> Sent e \<and> in_flight (peers ?s) k + Sent e \<le> Times e"
      using c by (cases "k = i") (simp_all add: pl, simp_all add: store_chunk_def cong: option.case_cong)
  qed
  ultimately show ?thesis using rs_inv_peers [OF assms(1)] by (simp add: rs_inv_def, simp add: store_chunk_def)
qed

definition mark_peer :: "strategy \<Rightarrow> PeerID \<Rightarrow> nat \<Rightarrow> strategy" where
  "mark_peer s peer i =
     (case peers s peer of None \<Rightarrow> s
      | Some ps \<Rightarrow> s\<lparr>peers := (peers s)(peer \<mapsto> ps\<lparr>peer_bitmap := Bitmap_Set (peer_bitmap ps) i\<rparr>)\<rparr>)"

lemma mark_peer_inv: "rs_inv s \<Longrightarrow> rs_inv (mark_peer s peer i)"
proof (cases "peers s peer")
  case (Some ps)
  assume s: "rs_inv s"
  note p = rs_inv_peers [OF s] and f = peers_ok_finite [OF rs_inv_peers [OF s]]
  have "peer_ok (nat (totalChunks s)) (ps\<lparr>peer_bitmap := Bitmap_Set (peer_bitmap ps) i\<rparr>)"
    using peers_ok_peer [OF p Some] by (simp add: peer_ok_def)
  then have "rs_inv (s\<lparr>peers := (peers s)(peer \<mapsto> ps\<lparr>peer_bitmap := Bitmap_Set (peer_bitmap ps) i\<rparr>)\<rparr>)"
    by (intro peers_change_inv [OF s] peers_ok_upd [OF p]) (simp_all add: in_flight_upd [OF f] in_flight_old [OF f Some])
  then show ?thesis using Some by (simp add: mark_peer_def)
qed (simp add: mark_peer_def)

lemma TakeChunk_cases:
  assumes "rs_inv s"
  shows "TakeChunk s peer ci data = Some (
    if Index ci < 0 \<or> totalChunks s \<le> Index ci then (VerdictInvalid, False, False, s)
    else if complete s \<or> chunks s ! nat (Index ci) \<noteq> None then (VerdictRedundant, False, False, s)
    else let s' = mark_peer (store_chunk s (nat (Index ci)) data) peer (nat (Index ci)) in (VerdictAccepted, complete s', True, s'))"
proof (cases "Index ci < 0 \<or> totalChunks s \<le> Index ci \<or> complete s")
  case False
  define i where "i = nat (Index ci)"
  have i: "Index ci = int i" "i < nat (totalChunks s)" using False by (auto simp: i_def)
  then have at: "index_at (chunks s) (Index ci) = Some (chunks s ! i)" using rs_have_range [OF assms] by simp
  then show ?thesis using False i
    by (auto simp: TakeChunk_def Let_def mark_peer_def store_chunk_def split: option.split)
qed (auto simp: TakeChunk_def)

lemma TakeChunk_inv:
  assumes "rs_inv s"
  shows "\<exists>v c d s'. TakeChunk s peer ci data = Some (v, c, d, s') \<and> rs_inv s'"
proof -
  have "rs_inv (mark_peer (store_chunk s (nat (Index ci)) data) peer (nat (Index ci)))"
    if "\<not> (Index ci < 0 \<or> totalChunks s \<le> Index ci)" "\<not> (complete s \<or> chunks s ! nat (Index ci) \<noteq> None)"
    using that assms by (intro mark_peer_inv store_chunk_inv) auto
  then show ?thesis using assms by (auto simp: TakeChunk_cases [OF assms] Let_def)
qed

section \<open>Allocation\<close>

text \<open>
  What the loop of \<open>allocate\<close> finds in a planner with the table \<open>m\<close>: a first entry in the
  planner's order that the peer may be offered; and putting the skipped entries back restores
  the table.
\<close>

lemma allocate_loop_spec:
  assumes "planner_inv h" "planner_map h = m |` (- Idx ` set skipped)"
    "\<And>e. e \<in> set skipped \<Longrightarrow> m (Idx e) = Some e \<and> skip_entry s ps e = Some True"
    "\<And>k e. m k = Some e \<Longrightarrow> skip_entry s ps e \<noteq> None"
  shows "\<exists>found sk h'. allocate_loop s ps h skipped = Some (found, sk, h') \<and>
    planner_inv (foldl Planner_Insert h' sk) \<and> planner_map (foldl Planner_Insert h' sk) = m \<and>
    (case found of
       None \<Rightarrow> \<forall>k e. m k = Some e \<longrightarrow> skip_entry s ps e = Some True
     | Some ec \<Rightarrow> m (Idx ec) = Some ec \<and> skip_entry s ps ec = Some False \<and>
         (\<forall>k e. m k = Some e \<and> skip_entry s ps e = Some False \<longrightarrow> ekey ec \<le> ekey e))"
  using assms
proof (induction s ps h skipped rule: allocate_loop.induct)
  case (1 s ps h skipped)
  note inv = "1.prems"(1) and tab = "1.prems"(2) and sk = "1.prems"(3) and ok = "1.prems"(4)
  have skipped_or: "e \<in> set skipped \<or> planner_map h k = Some e" if "m k = Some e" for k e
    using that sk by (cases "k \<in> Idx ` set skipped") (auto simp: tab restrict_map_def)
  have restored: "planner_inv (foldl Planner_Insert h skipped) \<and> planner_map (foldl Planner_Insert h skipped) = m"
    using sk by (intro planner.put_back inv) (auto simp: tab map_le_def restrict_map_def split: if_splits)
  show ?case
  proof (cases "Planner_Top h")
    case None
    then have "planner_map h = Map.empty" using planner.top_None [OF inv] by simp
    then have "skip_entry s ps e = Some True" if "m k = Some e" for k e using skipped_or [OF that] sk by auto
    with None restored show ?thesis by (subst allocate_loop.simps) auto
  next
    case (Some ec)
    have ec: "m (Idx ec) = Some ec" using planner.top_Some [OF inv Some] by (auto simp: tab restrict_map_def split: if_splits)
    show ?thesis
    proof (cases "skip_entry s ps ec = Some True")
      case True
      obtain h' where h': "Planner_PopFront h = Some (ec, h')" "planner_inv h'"
        "planner_map h' = m |` (- Idx ` set (skipped @ [ec]))"
        using planner.take_one [OF inv Some tab] by blast
      then show ?thesis using "1.IH" [OF Some True refl h'(1) refl h'(2,3)] True Some ec sk ok
        by (subst allocate_loop.simps) auto
    next
      case False
      with ok [OF ec] have f: "skip_entry s ps ec = Some False" by auto
      have "ekey ec \<le> ekey e" if "m k = Some e" "skip_entry s ps e = Some False" for k e
        using skipped_or [OF that(1)] sk that(2) planner.top_rank [OF inv Some] by auto
      with f Some ec restored show ?thesis by (subst allocate_loop.simps) auto
    qed
  qed
qed


lemma skip_entry_total:
  assumes "rs_inv s" "peers s peer = Some ps" "planner_map (planner s) k = Some e"
  shows "Idx e = k \<and> 0 \<le> k \<and> nat k < nat (totalChunks s) \<and> chunks s ! nat k \<noteq> None \<and>
    skip_entry s ps e = Some (Bitmap_Get (peer_bitmap ps) (nat k) \<or> inflight ps ! nat k = 1 \<or>
      (\<not> isOrigin s \<and> ForwardMultiplier (config s) \<le> Sent e))"
proof -
  have h: "rs_held s" using assms(1) by (simp add: rs_inv_def)
  then have "k \<in> int ` ones (have_chunks s)" using assms(3) unfolding rs_held_def by blast
  then obtain i where k: "k = int i" "i < nat (totalChunks s)" "chunks s ! i \<noteq> None" using h by (auto simp: rs_held_def)
  have e: "Idx e = k" using h assms(3) planner_map_Some by (auto simp: rs_held_def planner_inv_def)
  have ok: "peer_ok (nat (totalChunks s)) ps" using peers_ok_peer [OF rs_inv_peers [OF assms(1)] assms(2)] .
  then have "index_at (inflight ps) (int i) = Some (inflight ps ! i)" using k(2) by (simp add: peer_ok_def)
  then show ?thesis using k e peer_ok_nth [OF ok k(2)] by (auto simp: skip_entry_def)
qed

text \<open>The entries that may be offered to a peer.\<close>

definition eligible :: "strategy \<Rightarrow> peerState \<Rightarrow> emitEntry \<Rightarrow> bool" where
  "eligible s ps e \<longleftrightarrow> planner_map (planner s) (Idx e) = Some e \<and> \<not> Bitmap_Get (peer_bitmap ps) (nat (Idx e)) \<and>
     inflight ps ! nat (Idx e) = 0 \<and> (isOrigin s \<or> Sent e < ForwardMultiplier (config s))"

text \<open>The state after allocating chunk \<open>i\<close> to a peer, up to the layout of the planner's heap.\<close>

definition allocated :: "strategy \<Rightarrow> PeerID \<Rightarrow> peerState \<Rightarrow> emitEntry \<Rightarrow> strategy \<Rightarrow> bool" where
  "allocated s peer ps e s' \<longleftrightarrow> planner_inv (planner s') \<and>
     planner_map (planner s') = (planner_map (planner s))(Idx e \<mapsto> e\<lparr>Times := Times e + 1\<rparr>) \<and>
     s' = s\<lparr>planner := planner s', peers := (peers s)(peer \<mapsto> ps\<lparr>inflight := (inflight ps)[nat (Idx e) := 1]\<rparr>)\<rparr>"

lemma eligible_skip:
  assumes "rs_inv s" "peers s peer = Some ps" "planner_map (planner s) k = Some e"
  shows "eligible s ps e \<longleftrightarrow> skip_entry s ps e = Some False"
  using skip_entry_total [OF assms] peer_ok_nth [OF peers_ok_peer [OF rs_inv_peers [OF assms(1)] assms(2)], of "nat k"] assms(3)
  by (auto simp: eligible_def)

lemma allocate_spec:
  assumes "rs_inv s" "peers s peer = Some ps"
  shows "\<exists>r s'. allocate s peer ps = Some (r, s') \<and>
    (case r of
       None \<Rightarrow> (\<forall>e. \<not> eligible s ps e) \<and> planner_inv (planner s') \<and> planner_map (planner s') = planner_map (planner s) \<and>
         s' = s\<lparr>planner := planner s'\<rparr>
     | Some (ci, data) \<Rightarrow> \<exists>e. ci = ChunkIdent (Idx e) \<and> chunks s ! nat (Idx e) = Some data \<and>
         eligible s ps e \<and> (\<forall>e'. eligible s ps e' \<longrightarrow> ekey e \<le> ekey e') \<and> allocated s peer ps e s')"
proof -
  let ?m = "planner_map (planner s)"
  have h: "planner_inv (planner s)" using assms(1) by (simp add: rs_inv_def rs_held_def)
  note tot = skip_entry_total [OF assms] and el = eligible_skip [OF assms]
  have "\<exists>found sk h'. allocate_loop s ps (planner s) [] = Some (found, sk, h') \<and>
    planner_inv (foldl Planner_Insert h' sk) \<and> planner_map (foldl Planner_Insert h' sk) = ?m \<and>
    (case found of
       None \<Rightarrow> \<forall>k e. ?m k = Some e \<longrightarrow> skip_entry s ps e = Some True
     | Some ec \<Rightarrow> ?m (Idx ec) = Some ec \<and> skip_entry s ps ec = Some False \<and>
         (\<forall>k e. ?m k = Some e \<and> skip_entry s ps e = Some False \<longrightarrow> ekey ec \<le> ekey e))"
    using tot by (intro allocate_loop_spec [OF h]) auto
  then obtain found sk h' where loop: "allocate_loop s ps (planner s) [] = Some (found, sk, h')"
    and put: "planner_inv (foldl Planner_Insert h' sk)" "planner_map (foldl Planner_Insert h' sk) = ?m"
    and found: "case found of None \<Rightarrow> \<forall>k e. ?m k = Some e \<longrightarrow> skip_entry s ps e = Some True
     | Some ec \<Rightarrow> ?m (Idx ec) = Some ec \<and> skip_entry s ps ec = Some False \<and>
         (\<forall>k e. ?m k = Some e \<and> skip_entry s ps e = Some False \<longrightarrow> ekey ec \<le> ekey e)" by blast
  show ?thesis
  proof (cases found)
    case None
    then have "\<not> eligible s ps e" for e using found el [of "Idx e" e] by (auto simp: eligible_def)
    then show ?thesis using None loop put by (auto simp: allocate_def)
  next
    case (Some e)
    then have e: "?m (Idx e) = Some e" "skip_entry s ps e = Some False" using found by auto
    have i: "0 \<le> Idx e" "nat (Idx e) < nat (totalChunks s)" "chunks s ! nat (Idx e) \<noteq> None" using tot [OF e(1)] by auto
    then obtain d where d: "chunks s ! nat (Idx e) = Some d" by blast
    have "peer_ok (nat (totalChunks s)) ps" using peers_ok_peer [OF rs_inv_peers [OF assms(1)] assms(2)] .
    then have at: "index_at (chunks s) (Idx e) = Some (Some d)" "index_at (inflight ps) (Idx e) = Some (inflight ps ! nat (Idx e))"
      using i d rs_have_range [OF assms(1) i(2)] by (auto simp: index_at_def peer_ok_def)
    have ele: "eligible s ps e" using el [OF e(1)] e(2) by simp
    have least: "\<forall>e'. eligible s ps e' \<longrightarrow> ekey e \<le> ekey e'" using found Some el by (auto simp: eligible_def)
    note inc = Increment_inv [OF put(1), of "Idx e"]
    show ?thesis using Some loop at d ele least inc put(2) e(1)
      by (auto simp: allocate_def allocated_def eligible_def intro!: exI [of _ e])
  qed
qed

lemma rs_countsI:
  assumes "\<And>i. i < nat (totalChunks s) \<Longrightarrow> planner_map (planner s) (int i) = None \<Longrightarrow> in_flight (peers s) i = 0"
    "\<And>i e. i < nat (totalChunks s) \<Longrightarrow> planner_map (planner s) (int i) = Some e \<Longrightarrow>
      0 \<le> Sent e \<and> in_flight (peers s) i + Sent e \<le> Times e"
  shows "rs_counts s"
  unfolding rs_counts_def
proof (intro allI impI)
  fix i assume "i < nat (totalChunks s)"
  then show "case planner_map (planner s) (int i) of None \<Rightarrow> in_flight (peers s) i = 0
      | Some e \<Rightarrow> 0 \<le> Sent e \<and> in_flight (peers s) i + Sent e \<le> Times e"
    using assms(1) [of i] assms(2) [of i] by (cases "planner_map (planner s) (int i)") simp_all
qed

lemma rs_countsD:
  assumes "rs_counts s" "i < nat (totalChunks s)"
  shows "planner_map (planner s) (int i) = None \<Longrightarrow> in_flight (peers s) i = 0"
    "planner_map (planner s) (int i) = Some e \<Longrightarrow> 0 \<le> Sent e \<and> in_flight (peers s) i + Sent e \<le> Times e"
  using assms(1) [unfolded rs_counts_def, rule_format, OF assms(2)] by simp_all

text \<open>A change of one peer and one planner entry that keeps the books balanced.\<close>

lemma balanced_inv:
  assumes s: "rs_inv s" and peer: "peers s peer = Some ps" and i: "i < nat (totalChunks s)"
    and ps': "peer_ok (nat (totalChunks s)) ps'" "\<And>k. k \<noteq> i \<Longrightarrow> inflight ps' ! k = inflight ps ! k"
    and pl: "planner_inv pl" "dom (planner_map pl) = dom (planner_map (planner s))"
      "\<And>k. k \<noteq> int i \<Longrightarrow> planner_map pl k = planner_map (planner s) k"
    and e: "planner_map (planner s) (int i) = Some e" "planner_map pl (int i) = Some e'"
      "0 \<le> Sent e'" "Times e - Sent e - inflight ps ! i \<le> Times e' - Sent e' - inflight ps' ! i"
  shows "rs_inv (s\<lparr>planner := pl, peers := (peers s)(peer \<mapsto> ps')\<rparr>)"
proof -
  let ?s = "s\<lparr>planner := pl, peers := (peers s)(peer \<mapsto> ps')\<rparr>"
  note p = rs_inv_peers [OF s] and f = peers_ok_finite [OF rs_inv_peers [OF s]]
  have inv: "rs_shape s" "rs_held s" "rs_counts s" using s by (simp_all add: rs_inv_def)
  have fl: "in_flight ((peers s)(peer \<mapsto> ps')) k = in_flight (peers s) k - inflight ps ! k + inflight ps' ! k" for k
    by (simp add: in_flight_upd [OF f] in_flight_old [OF f peer])
  have "rs_shape ?s" "rs_held ?s" using inv(1,2) pl by (simp_all add: rs_shape_def rs_held_def)
  moreover have "rs_counts ?s"
  proof (rule rs_countsI)
    fix k assume "k < nat (totalChunks ?s)" "planner_map (planner ?s) (int k) = None"
    then have "k < nat (totalChunks s)" "planner_map pl (int k) = None" by simp_all
    moreover from this have "k \<noteq> i" using e(2) by auto
    ultimately have k: "k < nat (totalChunks s)" "k \<noteq> i" "planner_map (planner s) (int k) = None"
      using pl(3) [of "int k"] by simp_all
    then show "in_flight (peers ?s) k = 0" using rs_countsD(1) [OF inv(3) k(1)] by (simp add: fl ps'(2))
  next
    fix k x assume "k < nat (totalChunks ?s)" "planner_map (planner ?s) (int k) = Some x"
    then have k: "k < nat (totalChunks s)" "planner_map pl (int k) = Some x" by auto
    show "0 \<le> Sent x \<and> in_flight (peers ?s) k + Sent x \<le> Times x"
    proof (cases "k = i")
      case True
      then show ?thesis using k(2) e rs_countsD(2) [OF inv(3) i e(1)] by (simp add: fl)
    next
      case False
      then show ?thesis using k pl(3) [of "int k"] rs_countsD(2) [OF inv(3) k(1)] by (simp add: fl ps'(2))
    qed
  qed
  ultimately show ?thesis using peers_ok_upd [OF p ps'(1)] by (simp add: rs_inv_def)
qed

lemma allocated_inv:
  assumes "rs_inv s" "peers s peer = Some ps" "eligible s ps e" "allocated s peer ps e s'"
  shows "rs_inv s'"
proof -
  have e: "planner_map (planner s) (Idx e) = Some e" "inflight ps ! nat (Idx e) = 0" using assms(3) by (auto simp: eligible_def)
  note t = skip_entry_total [OF assms(1,2) e(1)]
  have i: "Idx e = int (nat (Idx e))" "nat (Idx e) < nat (totalChunks s)" using t by auto
  have ok: "peer_ok (nat (totalChunks s)) ps" using peers_ok_peer [OF rs_inv_peers [OF assms(1)] assms(2)] .
  have ok': "peer_ok (nat (totalChunks s)) (ps\<lparr>inflight := (inflight ps)[nat (Idx e) := 1]\<rparr>)"
    using ok set_update_subset_insert [of "inflight ps" "nat (Idx e)" 1] by (auto simp: peer_ok_def)
  have len: "nat (Idx e) < length (inflight ps)" using ok i by (simp add: peer_ok_def)
  have c: "0 \<le> Sent e" using rs_countsD(2) [of s "nat (Idx e)" e] assms(1) i e(1) by (simp add: rs_inv_def)
  have "rs_inv (s\<lparr>planner := planner s', peers := (peers s)(peer \<mapsto> ps\<lparr>inflight := (inflight ps)[nat (Idx e) := 1]\<rparr>)\<rparr>)"
    using assms(4) e c len i by (intro balanced_inv [OF assms(1,2) i(2) ok', where e = e and e' = "e\<lparr>Times := Times e + 1\<rparr>"])
      (auto simp: allocated_def)
  then show ?thesis using assms(4) by (simp add: allocated_def)
qed

text \<open>The end of a send: the peer's count drops, and the entry keeps its balance.\<close>

lemma settle_inv:
  assumes s: "rs_inv s" and peer: "peers s peer = Some ps" and i: "i < nat (totalChunks s)"
    and one: "inflight ps ! i = 1" and b: "length b = length (peer_bitmap ps)"
    and pl: "planner_inv pl" "planner_map pl = (planner_map (planner s))(int i := map_option g (planner_map (planner s) (int i)))"
    and g: "\<And>e. Sent e \<le> Sent (g e) \<and> Times e - Sent e \<le> Times (g e) - Sent (g e) + 1"
  shows "rs_inv (s\<lparr>planner := pl, peers := (peers s)(peer \<mapsto> ps\<lparr>inflight := (inflight ps)[i := 0], peer_bitmap := b\<rparr>)\<rparr>)"
proof -
  note p = rs_inv_peers [OF s]
  have ok: "peer_ok (nat (totalChunks s)) ps" using peers_ok_peer [OF p peer] .
  have "inflight ps ! i \<le> in_flight (peers s) i"
    using in_flight_old [OF peers_ok_finite [OF p] peer, of i] in_flight_nonneg [OF peers_ok_remove [OF p] i, of peer] by simp
  moreover have counts: "rs_counts s" using s by (simp add: rs_inv_def)
  ultimately obtain e where e: "planner_map (planner s) (int i) = Some e"
    using rs_countsD(1) [OF counts i] one by (cases "planner_map (planner s) (int i)") auto
  have dom: "dom (planner_map pl) = dom (planner_map (planner s))" using e by (auto simp: pl(2) dom_def)
  have len: "i < length (inflight ps)" using ok i by (simp add: peer_ok_def)
  have "peer_ok (nat (totalChunks s)) (ps\<lparr>inflight := (inflight ps)[i := 0], peer_bitmap := b\<rparr>)"
    using ok b set_update_subset_insert [of "inflight ps" i 0] by (auto simp: peer_ok_def)
  then show ?thesis
    using rs_countsD(2) [OF counts i e] g [of e] one len
    by (intro balanced_inv [OF s peer i _ _ pl(1) dom _ e, where e' = "g e"]) (simp_all add: pl(2) e)
qed

lemma ChunkSent_inv:
  assumes "rs_inv s"
  shows "\<exists>s'. ChunkSent s peer handle err = Some s' \<and> rs_inv s'"
proof (cases "peers s peer = None \<or> sint handle < 0 \<or> totalChunks s \<le> sint handle")
  case False
  define i where "i = nat (sint handle)"
  have i: "sint handle = int i" "i < nat (totalChunks s)" using False unfolding i_def by linarith+
  have ni: "\<not> totalChunks s \<le> int i" using i(2) by linarith
  obtain ps where ps: "peers s peer = Some ps" using False by (cases "peers s peer") auto
  have ok: "peer_ok (nat (totalChunks s)) ps" using peers_ok_peer [OF rs_inv_peers [OF assms] ps] .
  have at: "index_at (inflight ps) (int i) = Some (inflight ps ! i)" using ok i by (simp add: peer_ok_def)
  have pl: "planner_inv (planner s)" using assms by (simp add: rs_inv_def rs_held_def)
  show ?thesis
  proof (cases "inflight ps ! i = 0")
    case True
    then have "ChunkSent s peer handle err = Some s" using ps i ni at by (simp add: ChunkSent_def Let_def)
    then show ?thesis using assms by blast
  next
    case False
    then have one: "inflight ps ! i = 1" using peer_ok_nth [OF ok i(2)] by simp
    note st = settle_inv [OF assms ps i(2) one]
    have "rs_inv (s\<lparr>planner := planner s, peers := (peers s)(peer \<mapsto> ps\<lparr>inflight := (inflight ps)[i := 0],
        peer_bitmap := Bitmap_Set (peer_bitmap ps) i\<rparr>)\<rparr>)"
      using pl by (intro st [where g = "\<lambda>e. e"]) (simp_all add: option.map_ident)
    moreover have "rs_inv (s\<lparr>planner := Planner_AddSent (planner s) (int i) 1, peers := (peers s)(peer \<mapsto> ps\<lparr>inflight := (inflight ps)[i := 0],
        peer_bitmap := Bitmap_Set (peer_bitmap ps) i\<rparr>)\<rparr>)"
      using AddSent_inv [OF pl, of "int i" 1] by (intro st [where g = "\<lambda>e. e\<lparr>Sent := Sent e + 1\<rparr>"]) simp_all
    moreover have "rs_inv (s\<lparr>planner := Planner_Decrement (planner s) (int i), peers := (peers s)(peer \<mapsto> ps\<lparr>inflight := (inflight ps)[i := 0],
        peer_bitmap := Bitmap_Unset (peer_bitmap ps) i\<rparr>)\<rparr>)"
      using Decrement_inv [OF pl, of "int i"] by (intro st [where g = "\<lambda>e. e\<lparr>Times := Times e - 1\<rparr>"]) simp_all
    ultimately show ?thesis using ps i ni at one by (simp add: ChunkSent_def Let_def)
  qed
next
  case True
  then have "ChunkSent s peer handle err = Some s" by (cases "peers s peer") (simp_all add: ChunkSent_def Let_def)
  then show ?thesis using assms by blast
qed

section \<open>Polling for chunks\<close>

text \<open>What the code says of a chunk that may be sent to a peer.\<close>

definition may_offer :: "strategy \<Rightarrow> peerState \<Rightarrow> nat \<Rightarrow> bool" where
  "may_offer s ps i \<longleftrightarrow> i < nat (totalChunks s) \<and> chunks s ! i \<noteq> None \<and> \<not> Bitmap_Get (peer_bitmap ps) i \<and>
     inflight ps ! i = 0 \<and>
     (isOrigin s \<or> (\<exists>n. map_option Sent (planner_map (planner s) (int i)) = Some n \<and> n < ForwardMultiplier (config s)))"

lemma eligible_may_offer:
  assumes "rs_inv s" "peers s peer = Some ps" "eligible s ps e"
  shows "may_offer s ps (nat (Idx e)) \<and> Idx e = int (nat (Idx e))"
  using assms(3) skip_entry_total [OF assms(1,2), of "Idx e" e] by (auto simp: eligible_def may_offer_def)

lemma may_offer_eligible:
  assumes "rs_inv s" "peers s peer = Some ps" "may_offer s ps i"
  shows "\<exists>e. Idx e = int i \<and> eligible s ps e"
proof -
  have "i < nat (totalChunks s)" "chunks s ! i \<noteq> None" using assms(3) by (auto simp: may_offer_def)
  then obtain e where e: "planner_map (planner s) (int i) = Some e" using held_iff(1) [OF assms(1), of i] by (cases "planner_map (planner s) (int i)") auto
  then have "Idx e = int i" using skip_entry_total [OF assms(1,2) e] by simp
  then show ?thesis using e assms(3) by (auto simp: eligible_def may_offer_def intro!: exI [of _ e])
qed

text \<open>Nothing but the peers and the times of planner entries has changed.\<close>

definition same_books :: "strategy \<Rightarrow> strategy \<Rightarrow> bool" where
  "same_books s s' \<longleftrightarrow> s' = s\<lparr>planner := planner s', peers := peers s'\<rparr> \<and>
     map_option Sent \<circ> planner_map (planner s') = map_option Sent \<circ> planner_map (planner s)"

lemma same_books_fields:
  assumes "same_books s s'"
  shows "totalChunks s' = totalChunks s" "chunks s' = chunks s" "isOrigin s' = isOrigin s" "config s' = config s"
proof -
  have s': "s' = s\<lparr>planner := planner s', peers := peers s'\<rparr>" using assms by (simp add: same_books_def)
  show "totalChunks s' = totalChunks s" "chunks s' = chunks s" "isOrigin s' = isOrigin s" "config s' = config s"
    by (subst s', simp)+
qed

lemma may_offer_same_books:
  assumes "same_books s s'"
  shows "may_offer s' ps i \<longleftrightarrow> may_offer s ps i"
proof -
  have "map_option Sent (planner_map (planner s') k) = map_option Sent (planner_map (planner s) k)" for k
    using assms by (simp add: same_books_def fun_eq_iff)
  then show ?thesis by (simp add: may_offer_def same_books_fields [OF assms])
qed

lemma same_books_trans:
  assumes "same_books s s1" "same_books s1 s2"
  shows "same_books s s2"
proof -
  have 1: "s1 = s\<lparr>planner := planner s1, peers := peers s1\<rparr>" and 2: "s2 = s1\<lparr>planner := planner s2, peers := peers s2\<rparr>"
    using assms by (simp_all add: same_books_def)
  have "s2 = s\<lparr>planner := planner s2, peers := peers s2\<rparr>" by (subst 2, subst 1) simp
  then show ?thesis using assms by (simp add: same_books_def)
qed

definition dispatch_ok :: "strategy \<Rightarrow> strategy \<Rightarrow> ChunkIdent ChunkDispatch \<Rightarrow> bool" where
  "dispatch_ok s s' d \<longleftrightarrow> (\<exists>ps i. peers s (dPeer d) = Some ps \<and> \<not> completed ps \<and> dChunkID d = ChunkIdent (int i) \<and>
     may_offer s ps i \<and> chunks s ! i = Some (dData d) \<and>
     peers s' (dPeer d) = Some (ps\<lparr>inflight := (inflight ps)[i := 1]\<rparr>))"

definition polled :: "strategy \<Rightarrow> PeerID list \<Rightarrow> ChunkIdent ChunkDispatch list \<Rightarrow> strategy \<Rightarrow> bool" where
  "polled s order ds s' \<longleftrightarrow> same_books s s' \<and> distinct (map dPeer ds) \<and> dPeer ` set ds \<subseteq> set order \<and>
     (\<forall>p. p \<notin> dPeer ` set ds \<longrightarrow> peers s' p = peers s p) \<and>
     (\<forall>d \<in> set ds. dispatch_ok s s' d) \<and>
     (\<forall>p \<in> set order. \<forall>ps i. peers s p = Some ps \<and> \<not> completed ps \<and> may_offer s ps i \<longrightarrow> p \<in> dPeer ` set ds)"

lemma polled_skip:
  assumes "polled s order ds s'" "\<And>ps i. peers s p = Some ps \<Longrightarrow> \<not> completed ps \<Longrightarrow> \<not> may_offer s ps i"
  shows "polled s (p # order) ds s'"
  using assms by (auto simp: polled_def)

lemma allocated_peers:
  assumes "allocated s peer ps e s1"
  shows "peers s1 = (peers s)(peer \<mapsto> ps\<lparr>inflight := (inflight ps)[nat (Idx e) := 1]\<rparr>)"
proof -
  have "s1 = s\<lparr>planner := planner s1, peers := (peers s)(peer \<mapsto> ps\<lparr>inflight := (inflight ps)[nat (Idx e) := 1]\<rparr>)\<rparr>"
    using assms by (simp add: allocated_def)
  from arg_cong [OF this, of peers] show ?thesis by simp
qed

lemma allocated_same_books:
  assumes "eligible s ps e" "allocated s peer ps e s1"
  shows "same_books s s1"
proof -
  have "s1 = s\<lparr>planner := planner s1, peers := peers s1\<rparr>"
    unfolding allocated_peers [OF assms(2)] using assms(2) by (simp add: allocated_def)
  moreover have "planner_map (planner s1) = (planner_map (planner s))(Idx e \<mapsto> e\<lparr>Times := Times e + 1\<rparr>)"
    using assms(2) by (simp add: allocated_def)
  then have "map_option Sent (planner_map (planner s1) k) = map_option Sent (planner_map (planner s) k)" for k
    using assms(1) by (simp add: eligible_def)
  ultimately show ?thesis by (simp add: same_books_def fun_eq_iff)
qed

text \<open>One more peer polled first.\<close>

lemma polled_Cons:
  assumes "rs_inv s" "peers s peer = Some ps" "\<not> completed ps" "eligible s ps e" "allocated s peer ps e s1"
    "chunks s ! nat (Idx e) = Some data" "polled s1 order ds s'" "peer \<notin> set order"
  shows "polled s (peer # order) (ChunkDispatch peer (ChunkIdent (Idx e)) data # ds) s'"
proof -
  note sb = allocated_same_books [OF assms(4,5)] and ps1 = allocated_peers [OF assms(5)]
  note mo = may_offer_same_books [OF sb] and e = eligible_may_offer [OF assms(1,2,4)]
  have other: "peers s1 p = peers s p" if "p \<in> set order" for p using that assms(8) by (auto simp: ps1)
  have notin: "peer \<notin> dPeer ` set ds" using assms(7,8) by (auto simp: polled_def)
  have "same_books s s'" using same_books_trans [OF sb] assms(7) by (simp add: polled_def)
  moreover have "peers s' peer = Some (ps\<lparr>inflight := (inflight ps)[nat (Idx e) := 1]\<rparr>)"
    using assms(7) notin by (simp add: polled_def ps1)
  then have "dispatch_ok s s' (ChunkDispatch peer (ChunkIdent (Idx e)) data)"
    unfolding dispatch_ok_def using assms(2,3,6) e by (intro exI [of _ ps] exI [of _ "nat (Idx e)"]) simp
  moreover have "dispatch_ok s s' d" if "d \<in> set ds" for d
  proof -
    have "dPeer d \<in> set order" "dispatch_ok s1 s' d" using that assms(7) by (auto simp: polled_def)
    then show ?thesis by (simp add: dispatch_ok_def other mo same_books_fields [OF sb])
  qed
  moreover have "p \<in> dPeer ` set ds" if "p \<in> set order" "peers s p = Some ps'" "\<not> completed ps'" "may_offer s ps' i" for p ps' i
  proof -
    have "\<forall>ps i. peers s1 p = Some ps \<and> \<not> completed ps \<and> may_offer s1 ps i \<longrightarrow> p \<in> dPeer ` set ds"
      using that(1) assms(7) by (simp add: polled_def)
    then show ?thesis using that other mo by metis
  qed
  moreover have "peers s' p = peers s p" if "p \<noteq> peer" "p \<notin> dPeer ` set ds" for p
    using that assms(7) by (auto simp: polled_def ps1)
  moreover have "distinct (map dPeer ds)" "dPeer ` set ds \<subseteq> set order" using assms(7) by (simp_all add: polled_def)
  ultimately show ?thesis using notin by (auto simp: polled_def)
qed

lemma relayout_inv:
  assumes "rs_inv s" "planner_inv pl" "planner_map pl = planner_map (planner s)"
  shows "rs_inv (s\<lparr>planner := pl\<rparr>)"
proof -
  have s: "rs_shape s" "rs_held s" "rs_counts s" using assms(1) by (simp_all add: rs_inv_def)
  have "rs_shape (s\<lparr>planner := pl\<rparr>)" using s(1) by (simp add: rs_shape_def)
  moreover have "rs_held (s\<lparr>planner := pl\<rparr>)" using s(2) assms(2,3) by (simp add: rs_held_def)
  moreover have "rs_counts (s\<lparr>planner := pl\<rparr>)" using s(3) assms(3) by (simp add: rs_counts_def cong: option.case_cong)
  ultimately show ?thesis using rs_inv_peers [OF assms(1)] by (simp add: rs_inv_def)
qed

lemma polled_relayout:
  assumes "planner_map pl = planner_map (planner s)" "polled (s\<lparr>planner := pl\<rparr>) order ds s'"
  shows "polled s order ds s'"
proof -
  have sb: "same_books s (s\<lparr>planner := pl\<rparr>)" using assms(1) by (simp add: same_books_def)
  note mo = may_offer_same_books [OF sb]
  have "dispatch_ok (s\<lparr>planner := pl\<rparr>) s' d = dispatch_ok s s' d" for d by (simp add: dispatch_ok_def mo)
  moreover have "same_books s s'" using assms(2) same_books_trans [OF sb] by (simp add: polled_def)
  ultimately show ?thesis using assms(2) by (simp add: polled_def mo)
qed

lemma PollChunks_spec:
  assumes "rs_inv s" "distinct order"
  shows "\<exists>ds s'. PollChunks s order = Some (ds, s') \<and> rs_inv s' \<and> polled s order ds s'"
  using assms
proof (induction order arbitrary: s)
  case Nil
  then show ?case by (auto simp: polled_def same_books_def)
next
  case (Cons peer order)
  show ?case
  proof (cases "\<exists>ps. peers s peer = Some ps \<and> \<not> completed ps")
    case False
    then have "PollChunks s (peer # order) = PollChunks s order" by (auto split: option.split)
    moreover obtain ds s' where "PollChunks s order = Some (ds, s')" "rs_inv s'" "polled s order ds s'"
      using Cons.IH [OF Cons.prems(1)] Cons.prems(2) by auto
    ultimately show ?thesis using False by (auto intro!: polled_skip)
  next
    case True
    then obtain ps where ps: "peers s peer = Some ps" "\<not> completed ps" by blast
    obtain r s1 where al: "allocate s peer ps = Some (r, s1)"
      and r: "case r of
       None \<Rightarrow> (\<forall>e. \<not> eligible s ps e) \<and> planner_inv (planner s1) \<and> planner_map (planner s1) = planner_map (planner s) \<and>
         s1 = s\<lparr>planner := planner s1\<rparr>
     | Some (ci, data) \<Rightarrow> \<exists>e. ci = ChunkIdent (Idx e) \<and> chunks s ! nat (Idx e) = Some data \<and>
         eligible s ps e \<and> (\<forall>e'. eligible s ps e' \<longrightarrow> ekey e \<le> ekey e') \<and> allocated s peer ps e s1"
      using allocate_spec [OF Cons.prems(1) ps(1)] by blast
    show ?thesis
    proof (cases r)
      case None
      then have s1: "s1 = s\<lparr>planner := planner s1\<rparr>" "rs_inv s1" "planner_map (planner s1) = planner_map (planner s)"
        and no: "\<And>i. \<not> may_offer s ps i"
        using r relayout_inv [OF Cons.prems(1), of "planner s1"] may_offer_eligible [OF Cons.prems(1) ps(1)] by auto
      obtain ds s' where rec: "PollChunks s1 order = Some (ds, s')" "rs_inv s'" "polled s1 order ds s'"
        using Cons.IH [OF s1(2)] Cons.prems(2) by auto
      have "polled s order ds s'" using polled_relayout [OF s1(3)] s1(1) rec(3) by simp
      then have "polled s (peer # order) ds s'" using no ps(1) by (intro polled_skip) auto
      then show ?thesis using None al ps rec by simp
    next
      case (Some cd)
      then obtain e data where e: "cd = (ChunkIdent (Idx e), data)" "chunks s ! nat (Idx e) = Some data" "eligible s ps e"
        "allocated s peer ps e s1" using r by (cases cd) auto
      obtain ds s' where rec: "PollChunks s1 order = Some (ds, s')" "rs_inv s'" "polled s1 order ds s'"
        using Cons.IH [OF allocated_inv [OF Cons.prems(1) ps(1) e(3,4)]] Cons.prems(2) by auto
      have "polled s (peer # order) (ChunkDispatch peer (ChunkIdent (Idx e)) data # ds) s'"
        using Cons.prems(2) by (intro polled_Cons [OF Cons.prems(1) ps e(3,4,2) rec(3)]) simp
      then show ?thesis using Some al ps rec e(1) by simp
    qed
  qed
qed

end
