(* ===== verification/RSCoding.thy ===== *)
theory RSCoding
  imports RSInvariant
begin

text \<open>
  Runs of the Reed-Solomon strategy from its constructors: reachable states satisfy the
  invariant, a relay keeps within its forwarding budget, a failed send leaves no trace, and a
  relay that is fed chunks of an origin decodes the origin's message.
\<close>

section \<open>Runs\<close>

text \<open>
  One call of the session into the strategy. Chunks are handed to \<open>TakeChunk\<close> only as \<open>ok\<close>
  allows; the order of the peers in \<open>PollChunks\<close> is any order without repetition.
\<close>

inductive rs_step :: "(nat \<Rightarrow> bytes \<Rightarrow> bool) \<Rightarrow> strategy \<Rightarrow> strategy \<Rightarrow> bool" for ok where
  attach: "rs_step ok s (AttachPeer s peer)"
| detach: "rs_step ok s (DetachPeer s peer fin)"
| take: "TakeChunk s peer ci data = Some (v, c, d, s') \<Longrightarrow> (0 \<le> Index ci \<Longrightarrow> Index ci < totalChunks s \<Longrightarrow> ok (nat (Index ci)) data) \<Longrightarrow> rs_step ok s s'"
| routing: "RoutingUpdate s peer update = (cancel, s') \<Longrightarrow> rs_step ok s s'"
| poll: "distinct order \<Longrightarrow> PollChunks s order = Some (ds, s') \<Longrightarrow> rs_step ok s s'"
| poll_routing: "PollRouting s force = Some (r, s') \<Longrightarrow> rs_step ok s s'"
| sent: "ChunkSent s peer handle err = Some s' \<Longrightarrow> rs_step ok s s'"

lemma rs_step_inv: "rs_step ok s s' \<Longrightarrow> rs_inv s \<Longrightarrow> rs_inv s'"
proof (induction rule: rs_step.induct)
  case (take s peer ci data v c d s')
  then show ?case using TakeChunk_inv [of s peer ci data] by auto
next
  case (routing s peer update cancel s')
  then show ?case using RoutingUpdate_inv [of s peer update] by simp
next
  case (poll order s ds s')
  then show ?case using PollChunks_spec [of s order] by auto
next
  case (poll_routing s force r s')
  then show ?case using PollRouting_inv [of s force] by auto
next
  case (sent s peer handle err s')
  then show ?case using ChunkSent_inv [of s peer handle err] by auto
qed (simp_all add: AttachPeer_inv DetachPeer_inv)

lemma rs_steps_inv: "(rs_step ok)\<^sup>*\<^sup>* s s' \<Longrightarrow> rs_inv s \<Longrightarrow> rs_inv s'"
  by (induction rule: rtranclp_induct) (auto intro: rs_step_inv)

section \<open>Constructors\<close>

lemma newRelay_inv:
  assumes "newRelayStrategy cfg rnd pre = Inr s"
  shows "rs_inv s" "\<not> isOrigin s" "peers s = Map.empty" "chunks s = replicate (nat (totalChunks s)) None"
    "pre = Some (preamble s)" "planner_map (planner s) = Map.empty"
proof -
  obtain p where p: "pre = Some p" "0 < DataChunks p" "0 \<le> ParityChunks p" "int (length (ChunkHashes p)) = TotalChunks p"
    using assms by (auto simp: newRelayStrategy_def split: option.splits if_splits)
  have s: "s = \<lparr>config = (if ForwardMultiplier cfg \<le> 0 then cfg\<lparr>ForwardMultiplier := 4\<rparr> else cfg), preamble = p,
      isOrigin = False, totalChunks = TotalChunks p, chunks = replicate (nat (TotalChunks p)) None, planner = newEmitPlanner,
      peers = Map.empty, routingDirty = False, seed = rnd, have_chunks = NewBitmap (nat (TotalChunks p)), complete = False\<rparr>"
    using assms p by (simp add: newRelayStrategy_def Let_def)
  have none: "ones (NewBitmap n) = {}" for n by (simp add: ones_def Get_New)
  have "rs_shape s" using p by (auto simp: s rs_shape_def TotalChunks_def OnesCount_card none)
  moreover have "rs_held s" by (auto simp: s rs_held_def none planner_inv_new)
  moreover have "rs_counts s" by (simp add: s rs_counts_def planner_inv_new in_flight_def)
  moreover have "peers_ok (nat (totalChunks s)) (peers s)" by (simp add: s peers_ok_def)
  ultimately show "rs_inv s" by (simp add: rs_inv_def)
  show "\<not> isOrigin s" "peers s = Map.empty" "chunks s = replicate (nat (totalChunks s)) None" "pre = Some (preamble s)"
    "planner_map (planner s) = Map.empty" by (simp_all add: s p planner_inv_new)
qed

lemma fold_Insert_range:
  "planner_inv (fold (\<lambda>i h. Planner_Insert h \<lparr>Idx = int i, Times = 0, Sent = 0, Priority = 0\<rparr>) [0..<n] newEmitPlanner) \<and>
   planner_map (fold (\<lambda>i h. Planner_Insert h \<lparr>Idx = int i, Times = 0, Sent = 0, Priority = 0\<rparr>) [0..<n] newEmitPlanner) =
     (\<lambda>k. if 0 \<le> k \<and> k < int n then Some \<lparr>Idx = k, Times = 0, Sent = 0, Priority = 0\<rparr> else None)"
proof (induction n)
  case 0
  then show ?case by (auto simp: planner_inv_new)
next
  case (Suc n)
  let ?h = "fold (\<lambda>i h. Planner_Insert h \<lparr>Idx = int i, Times = 0, Sent = 0, Priority = 0\<rparr>) [0..<n] newEmitPlanner"
  note i = Insert_inv [of ?h "\<lparr>Idx = int n, Times = 0, Sent = 0, Priority = 0\<rparr>"]
  show ?case using Suc i by (auto simp: fun_eq_iff)
qed

lemma slices_Chunk_exact:
  assumes "0 < n" "length xs = n * k"
  shows "length (slices_Chunk n xs) = k \<and> (\<forall>c \<in> set (slices_Chunk n xs). length c = n) \<and>
    concat (take d (slices_Chunk n xs)) = take (d * n) xs"
  using assms(2)
proof (induction k arbitrary: xs d)
  case 0
  then show ?case by (simp add: slices_Chunk.simps)
next
  case (Suc k)
  then have "xs \<noteq> []" "length (drop n xs) = n * k" using assms(1) by auto
  then have c: "slices_Chunk n xs = take n xs # slices_Chunk n (drop n xs)" using assms(1) by (simp add: slices_Chunk.simps)
  have "concat (take d (slices_Chunk n xs)) = take (d * n) xs"
  proof (cases d)
    case (Suc d')
    have "take (n + d' * n) xs = take n xs @ take (d' * n) (drop n xs)" by (rule take_add)
    then show ?thesis using Suc.IH [OF \<open>length (drop n xs) = n * k\<close>, of d'] c Suc by simp
  qed (simp add: c)
  moreover have "length (take n xs) = n" using Suc.prems by simp
  ultimately show ?case using Suc.IH [OF \<open>length (drop n xs) = n * k\<close>, of 0] c by auto
qed

section \<open>What a step changes\<close>

lemma ChunkSent_static:
  assumes "ChunkSent s peer handle err = Some s'"
  shows "s' = s\<lparr>planner := planner s', peers := peers s'\<rparr>"
  using assms by (auto simp: ChunkSent_def Let_def split: option.splits if_splits bind_splits)

lemma static_fields:
  assumes "s' = s\<lparr>planner := planner s', peers := peers s'\<rparr>"
  shows "preamble s' = preamble s" "config s' = config s" "isOrigin s' = isOrigin s" "totalChunks s' = totalChunks s"
    "chunks s' = chunks s" "complete s' = complete s" "have_chunks s' = have_chunks s"
  by (subst assms, simp)+

text \<open>
  The static part of the state never changes, and of the chunks only a missing one is filled,
  with data that was let through, and only before the strategy is complete.
\<close>

definition grows :: "(nat \<Rightarrow> bytes \<Rightarrow> bool) \<Rightarrow> strategy \<Rightarrow> strategy \<Rightarrow> bool" where
  "grows ok s s' \<longleftrightarrow> preamble s' = preamble s \<and> config s' = config s \<and> isOrigin s' = isOrigin s \<and> totalChunks s' = totalChunks s \<and>
     length (chunks s') = length (chunks s) \<and>
     (\<forall>i < length (chunks s). chunks s' ! i = chunks s ! i \<or>
        (chunks s ! i = None \<and> \<not> complete s \<and> (\<exists>data. chunks s' ! i = Some data \<and> ok i data))) \<and>
     (complete s \<longrightarrow> complete s')"

lemma growsI_static:
  assumes "s' = s\<lparr>planner := planner s', peers := peers s'\<rparr>"
  shows "grows ok s s'"
  by (simp add: grows_def static_fields [OF assms])

lemma mark_peer_static: "s' = mark_peer s peer i \<Longrightarrow> s' = s\<lparr>planner := planner s', peers := peers s'\<rparr>"
  by (auto simp: mark_peer_def split: option.splits)

lemma rs_step_grows:
  assumes "rs_step ok s s'" "rs_inv s"
  shows "grows ok s s'"
  using assms
proof (induction rule: rs_step.induct)
  case (attach s peer)
  then show ?case by (intro growsI_static) (simp add: AttachPeer_def)
next
  case (detach s peer fin)
  then show ?case by (intro growsI_static) (simp add: DetachPeer_def split: option.split)
next
  case (take s peer ci data v c d s')
  show ?case
  proof (cases "Index ci < 0 \<or> totalChunks s \<le> Index ci \<or> complete s \<or> chunks s ! nat (Index ci) \<noteq> None")
    case True
    then have "s' = s" using take.hyps TakeChunk_cases [OF take.prems, of peer ci data] by (auto split: if_splits)
    then show ?thesis by (simp add: growsI_static)
  next
    case False
    define i where "i = nat (Index ci)"
    have i: "ok i data" using False take.hyps(2) by (simp add: i_def)
    have s': "s' = mark_peer (store_chunk s i data) peer i"
      using False take.hyps(1) TakeChunk_cases [OF take.prems, of peer ci data] by (simp add: i_def Let_def)
    note f = static_fields [OF mark_peer_static [OF s']]
    have "i < nat (totalChunks s)" using False by (auto simp: i_def)
    from rs_have_range(2) [OF take.prems this] have "i < length (chunks s)" .
    moreover have "\<not> complete s" "chunks s ! i = None" using False by (auto simp: i_def)
    ultimately show ?thesis using i by (auto simp: grows_def f) (auto simp: store_chunk_def nth_list_update split: if_splits)
  qed
next
  case (routing s peer update cancel s')
  then show ?case by (intro growsI_static) (auto simp: RoutingUpdate_def Let_def split: option.splits)
next
  case (poll order s ds s')
  then have "same_books s s'" using PollChunks_spec [OF poll.prems poll.hyps(1)] by (auto simp: polled_def)
  then show ?case by (intro growsI_static) (simp add: same_books_def)
next
  case (poll_routing s force r s')
  then have "s' = s \<or> s' = s\<lparr>routingDirty := False\<rparr>" by (auto simp: PollRouting_def split: if_splits bind_splits)
  then show ?case by (auto simp: grows_def)
next
  case (sent s peer handle err s')
  then show ?case by (intro growsI_static ChunkSent_static)
qed

lemma grows_trans: "grows ok s s1 \<Longrightarrow> grows ok s1 s2 \<Longrightarrow> grows ok s s2"
  unfolding grows_def by (auto 0 4)

lemma rs_steps_grow:
  "(rs_step ok)\<^sup>*\<^sup>* s s' \<Longrightarrow> rs_inv s \<Longrightarrow> grows ok s s'"
proof (induction rule: rtranclp_induct)
  case base
  then show ?case by (simp add: grows_def)
next
  case (step s1 s2)
  then show ?case using rs_steps_inv rs_step_grows grows_trans by blast
qed

section \<open>Decoding\<close>

text \<open>
  What the library documents for \<open>d\<close> data and \<open>p\<close> parity shards: \<open>Encode\<close> keeps the data shards,
  and any \<open>d\<close> of the shards it leaves let \<open>ReconstructData\<close> fill in the data shards. With 256
  shards or more the shard length must be a multiple of 64.
\<close>

definition recovers :: "reedsolomon \<Rightarrow> int \<Rightarrow> int \<Rightarrow> bytes list \<Rightarrow> bool" where
  "recovers rs d p enc \<longleftrightarrow> length enc = nat (d + p) \<and>
     (\<forall>part. length part = nat (d + p) \<and> (\<forall>i < nat (d + p). part ! i = None \<or> part ! i = Some (enc ! i)) \<and>
        d \<le> int (card {i. i < nat (d + p) \<and> part ! i \<noteq> None}) \<longrightarrow>
        (\<exists>out. rs_ReconstructData rs d p part = Inr out \<and> length out = nat (d + p) \<and> (\<forall>i < nat d. out ! i = Some (enc ! i))))"

definition erasure_code :: "reedsolomon \<Rightarrow> int \<Rightarrow> int \<Rightarrow> bool" where
  "erasure_code rs d p \<longleftrightarrow> rs_New rs d p = None \<and>
     (\<forall>L shards. 0 < L \<and> length shards = nat (d + p) \<and> (\<forall>c \<in> set shards. length c = L) \<and> (256 \<le> d + p \<longrightarrow> 64 dvd L) \<longrightarrow>
        (\<exists>enc. rs_Encode rs d p shards = Inr enc \<and> take (nat d) enc = take (nat d) shards \<and> recovers rs d p enc))"

lemma recovers_length: "recovers rs d p enc \<Longrightarrow> length enc = nat (d + p)"
  by (simp add: recovers_def)

text \<open>The state a successful origin starts from.\<close>

lemma origin_state_inv:
  assumes "0 < DataChunks p" "0 \<le> ParityChunks p" "length enc = nat (TotalChunks p)" "length (ChunkHashes p) = nat (TotalChunks p)"
    and pl: "planner_inv pl" "planner_map pl = (\<lambda>k. if 0 \<le> k \<and> k < int (length enc) then Some \<lparr>Idx = k, Times = 0, Sent = 0, Priority = 0\<rparr> else None)"
  shows "rs_inv \<lparr>config = cfg, preamble = p, isOrigin = True, totalChunks = TotalChunks p, chunks = map Some enc, planner = pl,
     peers = Map.empty, routingDirty = True, seed = 0, have_chunks = AllOnesBitmap (nat (TotalChunks p)), complete = False\<rparr>" (is "rs_inv ?s")
proof -
  have t: "0 < TotalChunks p" using assms(1,2) by (simp add: TotalChunks_def)
  have o: "ones (AllOnesBitmap (nat (TotalChunks p))) = {..<nat (TotalChunks p)}" by (auto simp: ones_def Get_AllOnes)
  have "rs_shape ?s" using assms t by (simp add: rs_shape_def length_AllOnesBitmap)
  moreover have "dom (planner_map pl) = {0..<int (length enc)}" by (auto simp: pl dom_def)
  then have "dom (planner_map pl) = int ` {..<nat (TotalChunks p)}"
    using assms(3) by (simp add: lessThan_atLeast0 image_int_atLeastLessThan)
  then have "rs_held ?s" using pl(1) assms(3) o by (auto simp: rs_held_def)
  moreover have "rs_counts ?s" by (simp add: rs_counts_def in_flight_def pl)
  ultimately show ?thesis by (simp add: rs_inv_def peers_ok_def)
qed

lemma origin_spec:
  assumes "payload \<noteq> []" "initPreamble cfg (int (length payload)) = Some (p, L)"
    "0 < DataChunks p" "0 < ParityChunks p" "MessageLength p = int (length payload)" "1 \<le> L" "int (length payload) \<le> L * DataChunks p"
    "erasure_code rs (DataChunks p) (ParityChunks p)" "256 \<le> TotalChunks p \<longrightarrow> 64 dvd L"
  shows "\<exists>s enc. newOriginStrategy rs cfg payload = Some (Inr s) \<and> rs_inv s \<and> chunks s = map Some enc \<and>
    preamble s = p\<lparr>ChunkHashes := map Sum256 enc, MessageHash := Sum256 payload\<rparr> \<and>
    recovers rs (DataChunks p) (ParityChunks p) enc \<and>
    length payload \<le> length (concat (take (nat (DataChunks p)) enc)) \<and>
    take (length payload) (concat (take (nat (DataChunks p)) enc)) = payload"
proof -
  let ?d = "DataChunks p" and ?p = "ParityChunks p"
  define msg where "msg = payload @ replicate (nat (L * TotalChunks p - int (length payload))) 0"
  have "L * ?d \<le> L * TotalChunks p" using assms(4,6) by (simp add: TotalChunks_def)
  with assms(7) have ge: "int (length payload) \<le> L * TotalChunks p" by linarith
  then have "int (length msg) = L * TotalChunks p" by (simp add: msg_def)
  then have lm: "length msg = nat L * nat (TotalChunks p)" using assms(6)
    by (metis int_nat_eq nat_int nat_mult_distrib zero_le_one order_trans)
  have "0 < nat L" using assms(6) by simp
  note ch = slices_Chunk_exact [OF this lm, of "nat ?d"]
  have al: "256 \<le> ?d + ?p \<longrightarrow> 64 dvd nat L" using assms(9) by (auto simp: TotalChunks_def nat_mult_distrib elim!: dvdE)
  obtain enc where enc: "rs_Encode rs ?d ?p (slices_Chunk (nat L) msg) = Inr enc"
    "take (nat ?d) enc = take (nat ?d) (slices_Chunk (nat L) msg)" "recovers rs ?d ?p enc"
    using assms(8) [unfolded erasure_code_def, THEN conjunct2, rule_format, of "nat L" "slices_Chunk (nat L) msg"] ch al \<open>0 < nat L\<close>
    by (auto simp: TotalChunks_def)
  let ?p' = "p\<lparr>ChunkHashes := map Sum256 enc, MessageHash := Sum256 payload\<rparr>"
  have le: "length enc = nat (TotalChunks p)" using recovers_length [OF enc(3)] by (simp add: TotalChunks_def)
  have inv: "rs_inv \<lparr>config = cfg, preamble = ?p', isOrigin = True, totalChunks = TotalChunks ?p', chunks = map Some enc,
     planner = fold (\<lambda>i h. Planner_Insert h \<lparr>Idx = int i, Times = 0, Sent = 0, Priority = 0\<rparr>) [0..<length enc] newEmitPlanner,
     peers = Map.empty, routingDirty = True, seed = 0, have_chunks = AllOnesBitmap (nat (TotalChunks ?p')), complete = False\<rparr>"
    using assms(3,4) le fold_Insert_range [of "length enc"] by (intro origin_state_inv) (simp_all add: TotalChunks_def)
  have new: "newOriginStrategy rs cfg payload = Some (Inr \<lparr>config = cfg, preamble = ?p', isOrigin = True, totalChunks = TotalChunks ?p',
     chunks = map Some enc,
     planner = fold (\<lambda>i h. Planner_Insert h \<lparr>Idx = int i, Times = 0, Sent = 0, Priority = 0\<rparr>) [0..<length enc] newEmitPlanner,
     peers = Map.empty, routingDirty = True, seed = 0, have_chunks = AllOnesBitmap (nat (TotalChunks ?p')), complete = False\<rparr>)"
    using assms(2,6,8) ge enc(1) by (simp add: newOriginStrategy_def erasure_code_def Let_def msg_def)
  have "length payload \<le> nat ?d * nat L" using assms(3,6,7) by (simp add: nat_mult_distrib [symmetric] mult.commute)
  moreover have "length payload \<le> length msg" by (simp add: msg_def)
  moreover have "take (length payload) msg = payload" by (simp add: msg_def)
  ultimately have "length payload \<le> length (concat (take (nat ?d) enc))" "take (length payload) (concat (take (nat ?d) enc)) = payload"
    using ch enc(2) by (simp_all add: min_def)
  then show ?thesis using new inv enc(3) by auto
qed


lemma decode_spec:
  assumes "rs_New rs (DataChunks (preamble s)) (ParityChunks (preamble s)) = None" "recovers rs (DataChunks (preamble s)) (ParityChunks (preamble s)) enc"
    "rs_inv s" "\<forall>i < nat (totalChunks s). chunks s ! i = None \<or> chunks s ! i = Some (enc ! i)" "DataChunks (preamble s) \<le> int (Bitmap_OnesCount (have_chunks s))"
    "MessageLength (preamble s) = int (length payload)" "payload \<noteq> []" "MessageHash (preamble s) = Sum256 payload"
    "length payload \<le> length (concat (take (nat (DataChunks (preamble s))) enc))"
    "take (length payload) (concat (take (nat (DataChunks (preamble s))) enc)) = payload" "0 \<le> ParityChunks (preamble s)"
  shows "tryDecode rs s = Some (Inr payload)"
proof -
  let ?d = "DataChunks (preamble s)" and ?p = "ParityChunks (preamble s)"
  have sh: "rs_shape s" "rs_held s" using assms(3) by (simp_all add: rs_inv_def)
  then have tot: "totalChunks s = ?d + ?p" "0 < ?d" "length (chunks s) = nat (?d + ?p)" by (auto simp: rs_shape_def TotalChunks_def)
  have "ones (have_chunks s) = {i. i < nat (?d + ?p) \<and> chunks s ! i \<noteq> None}" using sh(2) tot(1) by (simp add: rs_held_def)
  then have "?d \<le> int (card {i. i < nat (?d + ?p) \<and> chunks s ! i \<noteq> None})" using assms(5) by (simp add: OnesCount_card)
  then obtain out where out: "rs_ReconstructData rs ?d ?p (chunks s) = Inr out" "length out = nat (?d + ?p)" "\<forall>i < nat ?d. out ! i = Some (enc ! i)"
    using assms(2) [unfolded recovers_def, THEN conjunct2, rule_format, of "chunks s"] assms(4) tot(1,3) by auto
  have le: "nat ?d \<le> length out" "nat ?d \<le> length enc" using out(2) recovers_length [OF assms(2)] assms(11) tot(2) by auto
  have "map (case_option [] (\<lambda>d. d)) (take (nat ?d) out) = take (nat ?d) enc"
    using le out(3) by (intro nth_equalityI) auto
  moreover have "\<not> (out = [] \<or> int (length out) < ?d)" using le tot(2) by auto
  moreover have "\<not> (int (length payload) \<le> 0 \<or> int (length (concat (take (nat ?d) enc))) < int (length payload))"
    using assms(7,9) by (simp only: of_nat_less_iff not_less de_Morgan_disj) simp
  ultimately show ?thesis using assms(1,6,8,10) out(1) by (simp add: tryDecode_def Let_def del: length_concat)
qed

section \<open>The end of a send\<close>

lemma sent_entry:
  assumes "rs_inv s" "peers s peer = Some ps" "i < nat (totalChunks s)" "inflight ps ! i = 1"
  shows "\<exists>e. planner_map (planner s) (int i) = Some e"
proof -
  note p = rs_inv_peers [OF assms(1)]
  have "inflight ps ! i \<le> in_flight (peers s) i"
    using in_flight_old [OF peers_ok_finite [OF p] assms(2), of i] in_flight_nonneg [OF peers_ok_remove [OF p] assms(3), of peer] by simp
  moreover have "rs_counts s" using assms(1) by (simp add: rs_inv_def)
  ultimately show ?thesis
    using rs_countsD(1) [OF _ assms(3)] assms(4) by (cases "planner_map (planner s) (int i)") auto
qed

definition settled :: "strategy \<Rightarrow> PeerID \<Rightarrow> nat \<Rightarrow> bool \<Rightarrow> strategy \<Rightarrow> bool" where
  "settled s peer i failed s' \<longleftrightarrow> (\<exists>ps e. peers s peer = Some ps \<and> i < nat (totalChunks s) \<and> inflight ps ! i = 1 \<and>
     planner_map (planner s) (int i) = Some e \<and> planner_inv (planner s') \<and>
     planner_map (planner s') = (planner_map (planner s))
       (int i \<mapsto> (if failed then e\<lparr>Times := Times e - 1\<rparr> else if isOrigin s then e else e\<lparr>Sent := Sent e + 1\<rparr>)) \<and>
     peers s' = (peers s)(peer \<mapsto> ps\<lparr>inflight := (inflight ps)[i := 0],
       peer_bitmap := (if failed then Bitmap_Unset else Bitmap_Set) (peer_bitmap ps) i\<rparr>))"

lemma ChunkSent_effect:
  assumes "rs_inv s" "ChunkSent s peer handle err = Some s'"
  shows "s' = s \<or> (\<exists>i. sint handle = int i \<and> settled s peer i (err \<noteq> None) s')"
proof (cases "peers s peer = None \<or> sint handle < 0 \<or> totalChunks s \<le> sint handle")
  case True
  then have "ChunkSent s peer handle err = Some s" by (cases "peers s peer") (simp_all add: ChunkSent_def Let_def)
  then show ?thesis using assms(2) by simp
next
  case False
  define i where "i = nat (sint handle)"
  have i: "sint handle = int i" "i < nat (totalChunks s)" "\<not> totalChunks s \<le> int i" using False unfolding i_def by linarith+
  obtain ps where ps: "peers s peer = Some ps" using False by (cases "peers s peer") auto
  have ok: "peer_ok (nat (totalChunks s)) ps" using peers_ok_peer [OF rs_inv_peers [OF assms(1)] ps] .
  have at: "index_at (inflight ps) (int i) = Some (inflight ps ! i)" using ok i by (simp add: peer_ok_def)
  have pl: "planner_inv (planner s)" using assms(1) by (simp add: rs_inv_def rs_held_def)
  show ?thesis
  proof (cases "inflight ps ! i = 1")
    case True
    obtain e where e: "planner_map (planner s) (int i) = Some e" using sent_entry [OF assms(1) ps i(2) True] by blast
    have "settled s peer i (err \<noteq> None) s'"
      using assms(2) ps i at True e pl AddSent_inv [OF pl, of "int i" 1] Decrement_inv [OF pl, of "int i"]
      by (auto simp: settled_def ChunkSent_def Let_def)
    then show ?thesis using i(1) by blast
  next
    case False
    then have "inflight ps ! i = 0" using peer_ok_nth [OF ok i(2)] by simp
    then have "ChunkSent s peer handle err = Some s" using ps i at by (simp add: ChunkSent_def Let_def)
    then show ?thesis using assms(2) by simp
  qed
qed

section \<open>The forwarding budget\<close>

definition relay_budget :: "int \<Rightarrow> strategy \<Rightarrow> bool" where
  "relay_budget N s \<longleftrightarrow> (\<forall>i < nat (totalChunks s). \<forall>e. planner_map (planner s) (int i) = Some e \<longrightarrow>
     in_flight (peers s) i + Sent e \<le> ForwardMultiplier (config s) - 1 + N)"

lemma in_flight_le_card:
  assumes "peers_ok n m" "i < n"
  shows "in_flight m i \<le> int (card (dom m))"
proof -
  have "inflight (the (m p)) ! i \<le> 1" if "p \<in> dom m" for p
    using that peer_ok_nth [OF peers_ok_peer [OF assms(1)] assms(2)] by fastforce
  then show ?thesis using sum_bounded_above [of "dom m" "\<lambda>p. inflight (the (m p)) ! i" 1] by (simp add: in_flight_def)
qed

lemma budget_poll:
  assumes "rs_inv s" "rs_inv s'" "polled s order ds s'" "\<not> isOrigin s" "int (card (dom (peers s))) \<le> N" "relay_budget N s"
  shows "relay_budget N s'"
  unfolding relay_budget_def
proof (intro allI impI)
  fix i e' assume "i < nat (totalChunks s')" and e': "planner_map (planner s') (int i) = Some e'"
  have sb: "same_books s s'" using assms(3) by (simp add: polled_def)
  note f = same_books_fields [OF sb]
  then have i: "i < nat (totalChunks s)" using \<open>i < nat (totalChunks s')\<close> by simp
  have "map_option Sent (planner_map (planner s') (int i)) = map_option Sent (planner_map (planner s) (int i))"
    using sb by (simp add: same_books_def fun_eq_iff)
  then obtain e where e: "planner_map (planner s) (int i) = Some e" "Sent e' = Sent e" using e' by (cases "planner_map (planner s) (int i)") auto
  have dom: "dom (peers s') = dom (peers s)"
  proof -
    have "(p \<in> dom (peers s')) = (p \<in> dom (peers s))" for p
      using assms(3) by (cases "p \<in> dPeer ` set ds") (auto simp: polled_def dispatch_ok_def domIff)
    then show ?thesis by blast
  qed
  show "in_flight (peers s') i + Sent e' \<le> ForwardMultiplier (config s') - 1 + N"
  proof (cases "\<exists>d \<in> set ds. dChunkID d = ChunkIdent (int i)")
    case True
    then have "Sent e < ForwardMultiplier (config s)" using assms(3,4) e(1) by (auto simp: polled_def dispatch_ok_def may_offer_def)
    moreover have "in_flight (peers s') i \<le> N"
      using in_flight_le_card [OF rs_inv_peers [OF assms(2)], of i] i f(1) dom assms(5) by simp
    ultimately show ?thesis using e(2) f(4) by simp
  next
    case False
    have "inflight (the (peers s' p)) ! i = inflight (the (peers s p)) ! i" if "p \<in> dom (peers s)" for p
    proof (cases "p \<in> dPeer ` set ds")
      case True
      then obtain d where "d \<in> set ds" "p = dPeer d" "dispatch_ok s s' d" "dChunkID d \<noteq> ChunkIdent (int i)"
        using assms(3) False by (auto simp: polled_def)
      then show ?thesis by (auto simp: dispatch_ok_def)
    qed (use assms(3) in \<open>auto simp: polled_def\<close>)
    then have "in_flight (peers s') i = in_flight (peers s) i" by (simp add: in_flight_def dom)
    then show ?thesis using assms(6) i e f by (simp add: relay_budget_def)
  qed
qed

lemma budget_mono:
  assumes "relay_budget N s" "totalChunks s' = totalChunks s" "planner s' = planner s" "config s' = config s"
    "\<And>i. i < nat (totalChunks s) \<Longrightarrow> in_flight (peers s') i \<le> in_flight (peers s) i"
  shows "relay_budget N s'"
  unfolding relay_budget_def
proof (intro allI impI)
  fix i e assume "i < nat (totalChunks s')" "planner_map (planner s') (int i) = Some e"
  then have "in_flight (peers s) i + Sent e \<le> ForwardMultiplier (config s) - 1 + N" "in_flight (peers s') i \<le> in_flight (peers s) i"
    using assms by (simp_all add: relay_budget_def)
  then show "in_flight (peers s') i + Sent e \<le> ForwardMultiplier (config s') - 1 + N" using assms(4) by simp
qed

lemma in_flight_same:
  assumes "finite (dom m)" "m p = Some ps" "inflight ps' ! i = inflight ps ! i"
  shows "in_flight (m(p \<mapsto> ps')) i = in_flight m i"
  using assms(3) by (simp add: in_flight_upd [OF assms(1)] in_flight_old [OF assms(1,2)])

lemma budget_peer:
  assumes "relay_budget N s" "finite (dom (peers s))" "peers s peer = Some ps" "inflight ps' = inflight ps"
  shows "relay_budget N (s\<lparr>peers := (peers s)(peer \<mapsto> ps')\<rparr>)"
proof -
  have "in_flight ((peers s)(peer \<mapsto> ps')) k = in_flight (peers s) k" for k
    by (rule in_flight_same [OF assms(2,3)]) (simp add: assms(4))
  then show ?thesis by (intro budget_mono [OF assms(1)]) simp_all
qed

lemma budget_take:
  assumes "rs_inv s" "\<not> isOrigin s" "0 \<le> N" "relay_budget N s" "i < nat (totalChunks s)" "chunks s ! i = None"
  shows "relay_budget N (mark_peer (store_chunk s i data) peer i)"
proof -
  let ?s = "store_chunk s i data"
  have pl: "planner_inv (planner s)" using assms(1) by (simp add: rs_inv_def rs_held_def)
  have fm: "0 < ForwardMultiplier (config s)" using assms(1,2) by (simp add: rs_inv_def rs_shape_def)
  have "in_flight (peers s) i = 0" using rs_countsD(1) [OF _ assms(5)] held_iff(1) [OF assms(1,5)] assms(1,6) by (simp add: rs_inv_def)
  moreover have "planner_map (planner ?s) = (planner_map (planner s))
      (int i \<mapsto> \<lparr>Idx = int i, Times = 0, Sent = 0, Priority = chunkPriority s (int i)\<rparr>)"
    using Insert_inv [OF pl] by (simp add: store_chunk_def)
  moreover have "totalChunks ?s = totalChunks s" "config ?s = config s" "peers ?s = peers s" by (simp_all add: store_chunk_def)
  ultimately have "relay_budget N ?s" using assms(3,4) fm by (auto simp: relay_budget_def)
  moreover have f: "finite (dom (peers ?s))" using peers_ok_finite [OF rs_inv_peers [OF assms(1)]] by (simp add: store_chunk_def)
  ultimately show ?thesis
  proof (cases "peers ?s peer")
    case (Some ps)
    then show ?thesis using budget_peer [OF \<open>relay_budget N ?s\<close> f Some] by (simp add: mark_peer_def)
  qed (simp add: mark_peer_def)
qed

lemma budget_sent:
  assumes "rs_inv s" "relay_budget N s" "settled s peer i failed s'" "s' = s\<lparr>planner := planner s', peers := peers s'\<rparr>"
  shows "relay_budget N s'"
proof -
  note f = static_fields [OF assms(4)] and p = rs_inv_peers [OF assms(1)]
  obtain ps e where st: "peers s peer = Some ps" "i < nat (totalChunks s)" "inflight ps ! i = 1" "planner_map (planner s) (int i) = Some e"
    "planner_map (planner s') = (planner_map (planner s))
       (int i \<mapsto> (if failed then e\<lparr>Times := Times e - 1\<rparr> else if isOrigin s then e else e\<lparr>Sent := Sent e + 1\<rparr>))"
    "peers s' = (peers s)(peer \<mapsto> ps\<lparr>inflight := (inflight ps)[i := 0],
       peer_bitmap := (if failed then Bitmap_Unset else Bitmap_Set) (peer_bitmap ps) i\<rparr>)"
    using assms(3) unfolding settled_def by blast
  have len: "i < length (inflight ps)" using peers_ok_peer [OF p st(1)] st(2) by (simp add: peer_ok_def)
  have fl: "in_flight (peers s') k = in_flight (peers s) k - (if k = i then 1 else 0)" for k
    unfolding st(6) in_flight_upd [OF peers_ok_finite [OF p]] in_flight_old [OF peers_ok_finite [OF p] st(1)]
    using st(3) len by (simp add: nth_list_update)
  show ?thesis unfolding relay_budget_def
  proof (intro allI impI)
    fix k x assume k: "k < nat (totalChunks s')" "planner_map (planner s') (int k) = Some x"
    have b: "in_flight (peers s) k + Sent y \<le> ForwardMultiplier (config s) - 1 + N" if "planner_map (planner s) (int k) = Some y" for y
      using that assms(2) k(1) f(4) by (simp add: relay_budget_def)
    show "in_flight (peers s') k + Sent x \<le> ForwardMultiplier (config s') - 1 + N"
      using k(2) b st(4) by (cases "k = i") (auto simp: fl f st(5) split: if_splits)
  qed
qed

lemma budget_step:
  assumes "rs_step ok s s'" "rs_inv s" "\<not> isOrigin s" "int (card (dom (peers s))) \<le> N" "relay_budget N s"
  shows "relay_budget N s'"
  using assms
proof (induction rule: rs_step.induct)
  case (attach s peer)
  note p = rs_inv_peers [OF attach(1)]
  show ?case
  proof (rule budget_mono [OF attach(4)])
    show "in_flight (peers (AttachPeer s peer)) i \<le> in_flight (peers s) i" if "i < nat (totalChunks s)" for i
      using in_flight_remove_le [OF p that, of peer] that by (simp add: AttachPeer_def in_flight_upd [OF peers_ok_finite [OF p]])
  qed (simp_all add: AttachPeer_def)
next
  case (detach s peer fin)
  note p = rs_inv_peers [OF detach(1)]
  show ?case
  proof (cases "peers s peer")
    case (Some ps)
    have "relay_budget N (s\<lparr>peers := (peers s)(peer := None)\<rparr>)"
      using in_flight_remove_le [OF p] by (intro budget_mono [OF detach(4)]) simp_all
    then show ?thesis using budget_peer [OF detach(4) peers_ok_finite [OF p] Some] Some by (simp add: DetachPeer_def)
  qed (use detach in \<open>simp add: DetachPeer_def\<close>)
next
  case (take s peer ci data v c d s')
  show ?case
  proof (cases "Index ci < 0 \<or> totalChunks s \<le> Index ci \<or> complete s \<or> chunks s ! nat (Index ci) \<noteq> None")
    case True
    then have "s' = s" using take.hyps TakeChunk_cases [OF take.prems(1), of peer ci data] by (auto split: if_splits)
    then show ?thesis using take.prems by simp
  next
    case False
    then have "s' = mark_peer (store_chunk s (nat (Index ci)) data) peer (nat (Index ci))"
      using take.hyps(1) TakeChunk_cases [OF take.prems(1), of peer ci data] by (simp add: Let_def)
    then show ?thesis using False take.prems by (auto intro!: budget_take)
  qed
next
  case (routing s peer update cancel s')
  note p = rs_inv_peers [OF routing(2)]
  show ?case
  proof (cases "peers s peer")
    case (Some ps)
    then show ?thesis using routing(1) budget_peer [OF routing(5) peers_ok_finite [OF p] Some]
      by (auto simp: RoutingUpdate_def Let_def split: option.splits)
  qed (use routing in \<open>simp add: RoutingUpdate_def\<close>)
next
  case (poll order s ds s')
  then show ?case using PollChunks_spec [OF poll.prems(1) poll.hyps(1)] budget_poll [OF poll.prems(1)] by auto
next
  case (poll_routing s force r s')
  then have "s' = s \<or> s' = s\<lparr>routingDirty := False\<rparr>" by (auto simp: PollRouting_def split: if_splits bind_splits)
  then show ?case using poll_routing.prems(4) by (auto simp: relay_budget_def)
next
  case (sent s peer handle err s')
  then show ?case using ChunkSent_effect [OF sent.prems(1) sent.hyps] budget_sent [OF sent.prems(1,4) _ ChunkSent_static [OF sent.hyps]]
    by auto
qed

section \<open>Properties\<close>

lemma Unset_absent: "\<not> Bitmap_Get b i \<Longrightarrow> Bitmap_Unset b i = b"
proof -
  assume a: "\<not> Bitmap_Get b i"
  have "w AND NOT (push_bit k 1) = w" if "\<not> bit w k" for w :: byte and k
    using that by (intro bit_eqI) (auto simp: bit_simps)
  then show ?thesis using a by (auto simp: Bitmap_Unset_def Get_bit)
qed

text \<open>A relay's run on chunks of an encoded message.\<close>

definition encoded :: "reedsolomon \<Rightarrow> Preamble \<Rightarrow> bytes \<Rightarrow> bytes list \<Rightarrow> bool" where
  "encoded rs p payload enc \<longleftrightarrow> rs_New rs (DataChunks p) (ParityChunks p) = None \<and>
     0 \<le> ParityChunks p \<and> payload \<noteq> [] \<and> MessageLength p = int (length payload) \<and>
     MessageHash p = Sum256 payload \<and> ChunkHashes p = map Sum256 enc \<and> recovers rs (DataChunks p) (ParityChunks p) enc \<and>
     length payload \<le> length (concat (take (nat (DataChunks p)) enc)) \<and>
     take (length payload) (concat (take (nat (DataChunks p)) enc)) = payload"

lemma relay_verifies:
  assumes "newRelayStrategy cfg rnd (Some p) = Inr sr" "encoded rs p payload enc" "i < length enc"
  shows "VerifyChunk sr peer (ChunkIdent (int i)) (enc ! i) = VerdictAccepted"
proof -
  have "preamble sr = p" "totalChunks sr = TotalChunks p"
    using newRelay_inv(1,5) [OF assms(1)] by (auto simp: rs_inv_def rs_shape_def)
  then show ?thesis using assms(2,3) recovers_length [of rs "DataChunks p" "ParityChunks p" enc]
    by (auto simp: VerifyChunk_def verifyChunk_def TotalChunks_def encoded_def)
qed

lemma relay_decodes:
  assumes "newRelayStrategy cfg rnd (Some p) = Inr sr" "encoded rs p payload enc" "(rs_step (\<lambda>i data. data = enc ! i))\<^sup>*\<^sup>* sr s"
  shows "(complete s \<longleftrightarrow> DataChunks p \<le> int (card {i. i < length enc \<and> chunks s ! i \<noteq> None})) \<and>
    (complete s \<longrightarrow> Decode_strategy rs s = Some (Inr payload))"
proof -
  note r = newRelay_inv [OF assms(1)]
  have inv: "rs_inv s" by (rule rs_steps_inv [OF assms(3) r(1)])
  have g: "grows (\<lambda>i data. data = enc ! i) sr s" by (rule rs_steps_grow [OF assms(3) r(1)])
  then have pre: "preamble s = p" "\<not> isOrigin s" using r(2,5) by (auto simp: grows_def)
  have le: "length enc = nat (DataChunks p + ParityChunks p)" using assms(2) by (auto simp: encoded_def intro: recovers_length)
  have tot: "totalChunks s = DataChunks p + ParityChunks p" using inv pre(1) by (simp add: rs_inv_def rs_shape_def TotalChunks_def)
  have "ones (have_chunks s) = {i. i < length enc \<and> chunks s ! i \<noteq> None}" using inv tot le by (simp add: rs_inv_def rs_held_def)
  then have c: "complete s \<longleftrightarrow> DataChunks p \<le> int (card {i. i < length enc \<and> chunks s ! i \<noteq> None})"
    "complete s \<longleftrightarrow> DataChunks p \<le> int (Bitmap_OnesCount (have_chunks s))"
    using inv pre by (auto simp: rs_inv_def rs_shape_def OnesCount_card)
  have "chunks s ! i = None \<or> chunks s ! i = Some (enc ! i)" if "i < nat (totalChunks s)" for i
    using g r(4) that by (auto simp: grows_def)
  then have "tryDecode rs s = Some (Inr payload)" if "complete s"
    using that c(2) inv assms(2) pre(1) by (intro decode_spec [where enc = enc]) (simp_all add: encoded_def)
  then show ?thesis using c(1) by (simp add: Decode_strategy_def)
qed

text \<open>
  C1 (from origin to relay): for a valid configuration and a non-empty message, with a library
  that is an erasure code for the chosen numbers of chunks and an aligned chunk length, the
  origin strategy is created; its preamble is accepted by every relay, which verifies each of
  the origin's chunks as valid; and however a relay's run interleaves its operations, as long
  as it is handed chunks of the origin, it is complete exactly when it holds as many chunks as
  there are data chunks, and then decoding returns the message.
\<close>
theorem origin_relay_decode:
  assumes "Config_Validate cfg = None" "payload \<noteq> []" "initPreamble cfg (int (length payload)) = Some (p, L)"
    "erasure_code rs (DataChunks p) (ParityChunks p)" "256 \<le> TotalChunks p \<longrightarrow> 64 dvd L"
  shows "\<exists>so enc. newOriginStrategy rs cfg payload = Some (Inr so) \<and> chunks so = map Some enc \<and>
    (\<forall>cfg' rnd. \<exists>sr. newRelayStrategy cfg' rnd (Some (preamble so)) = Inr sr \<and>
      (\<forall>peer. \<forall>i < length enc. VerifyChunk sr peer (ChunkIdent (int i)) (enc ! i) = VerdictAccepted) \<and>
      (\<forall>s. (rs_step (\<lambda>i data. data = enc ! i))\<^sup>*\<^sup>* sr s \<longrightarrow>
        (complete s \<longleftrightarrow> DataChunks p \<le> int (card {i. i < length enc \<and> chunks s ! i \<noteq> None})) \<and>
        (complete s \<longrightarrow> Decode_strategy rs s = Some (Inr payload))))"
proof -
  have "0 < int (length payload)" using assms(2) by simp
  from initPreamble_layout [OF assms(1) this] assms(3)
  have lay: "0 < DataChunks p" "0 < ParityChunks p" "MessageLength p = int (length payload)" "1 \<le> L" "int (length payload) \<le> L * DataChunks p"
    by auto
  obtain so enc where o: "newOriginStrategy rs cfg payload = Some (Inr so)" "chunks so = map Some enc"
    "preamble so = p\<lparr>ChunkHashes := map Sum256 enc, MessageHash := Sum256 payload\<rparr>"
    "recovers rs (DataChunks p) (ParityChunks p) enc" "length payload \<le> length (concat (take (nat (DataChunks p)) enc))"
    "take (length payload) (concat (take (nat (DataChunks p)) enc)) = payload"
    using origin_spec [OF assms(2,3) lay assms(4,5)] by blast
  have enc: "encoded rs (preamble so) payload enc"
    unfolding encoded_def using lay o assms(2,4) by (simp add: erasure_code_def)
  have d: "DataChunks (preamble so) = DataChunks p" by (simp add: o(3))
  show ?thesis
  proof (rule exI [of _ so], rule exI [of _ enc], intro conjI allI o(1,2))
    fix cfg' rnd
    obtain sr where sr: "newRelayStrategy cfg' rnd (Some (preamble so)) = Inr sr"
      using lay recovers_length [OF o(4)] by (auto simp: newRelayStrategy_def o(3) TotalChunks_def Let_def)
    show "\<exists>sr. newRelayStrategy cfg' rnd (Some (preamble so)) = Inr sr \<and>
      (\<forall>peer. \<forall>i < length enc. VerifyChunk sr peer (ChunkIdent (int i)) (enc ! i) = VerdictAccepted) \<and>
      (\<forall>s. (rs_step (\<lambda>i data. data = enc ! i))\<^sup>*\<^sup>* sr s \<longrightarrow>
        (complete s \<longleftrightarrow> DataChunks p \<le> int (card {i. i < length enc \<and> chunks s ! i \<noteq> None})) \<and>
        (complete s \<longrightarrow> Decode_strategy rs s = Some (Inr payload)))"
      using sr relay_verifies [OF sr enc] relay_decodes [OF sr enc] by (simp add: d)
  qed
qed

text \<open>The code with one data and one parity shard repeats the data shard.\<close>

definition repetition_code :: reedsolomon where
  "repetition_code = \<lparr>rs_New = \<lambda>d p. if d = 1 \<and> p = 1 then None else Some (ErrNew ''unsupported''),
     rs_Encode = \<lambda>d p shards. Inr [shards ! 0, shards ! 0],
     rs_ReconstructData = \<lambda>d p part.
       (case part of [Some a, b] \<Rightarrow> Inr [Some a, b] | [None, Some b] \<Rightarrow> Inr [Some b, Some b] | _ \<Rightarrow> Inl (ErrNew ''too few shards''))\<rparr>"

lemma repetition_code_erasure: "erasure_code repetition_code 1 1"
proof -
  have two: "nat (1 + 1) = Suc (Suc 0)" by simp
  have "recovers repetition_code 1 1 [c, c]" for c
    unfolding recovers_def
  proof (intro conjI allI impI)
    fix part :: "bytes option list"
    assume a: "length part = nat (1 + 1) \<and> (\<forall>i < nat (1 + 1). part ! i = None \<or> part ! i = Some ([c, c] ! i)) \<and>
      1 \<le> int (card {i. i < nat (1 + 1) \<and> part ! i \<noteq> None})"
    then obtain x y where part: "part = [x, y]" unfolding two by (auto simp: length_Suc_conv)
    have "x = None \<or> x = Some c" "y = None \<or> y = Some c" using a unfolding two part by (auto simp: less_Suc_eq all_conj_distrib)
    moreover have "\<not> (x = None \<and> y = None)"
    proof
      assume "x = None \<and> y = None"
      then have "{i. i < nat (1 + 1) \<and> part ! i \<noteq> None} = {}" unfolding two part by (auto simp: less_Suc_eq nth_Cons split: nat.splits)
      then have "card {i. i < nat (1 + 1) \<and> part ! i \<noteq> None} = 0" by (simp only: card.empty)
      with a show False by linarith
    qed
    ultimately show "\<exists>out. rs_ReconstructData repetition_code 1 1 part = Inr out \<and> length out = nat (1 + 1) \<and>
        (\<forall>i < nat 1. out ! i = Some ([c, c] ! i))" by (auto simp: part repetition_code_def)
  qed simp
  then show ?thesis unfolding erasure_code_def
    by (auto simp: repetition_code_def length_Suc_conv take_Suc_conv_app_nth)
qed


theorem origin_relay_decode_witness:
  "\<exists>so sr. newOriginStrategy repetition_code \<lparr>DataShards = 1, ParityShards = 1, ChunkLen = 0, BitmapThreshold = 50,
       ForwardMultiplier = 4, DisableBitmap = False\<rparr> [1, 2, 3] = Some (Inr so) \<and>
     newRelayStrategy DefaultConfig 7 (Some (preamble so)) = Inr sr \<and>
     (complete sr \<longrightarrow> Decode_strategy repetition_code sr = Some (Inr [1, 2, 3]))"
proof -
  let ?cfg = "\<lparr>DataShards = 1, ParityShards = 1, ChunkLen = 0, BitmapThreshold = 50, ForwardMultiplier = 4, DisableBitmap = False\<rparr> :: Config"
  let ?p = "\<lparr>DataChunks = 1, ParityChunks = 1, MessageLength = 3, ChunkHashes = [], MessageHash = []\<rparr> :: Preamble"
  have "Config_Validate ?cfg = None" by (simp add: Config_Validate_def)
  moreover have "initPreamble ?cfg (int (length [1, 2, 3 :: byte])) = Some (?p, 3)"
    by (simp add: initPreamble_def int_divCeil_def sdiv_nonneg TotalChunks_def)
  moreover have "erasure_code repetition_code (DataChunks ?p) (ParityChunks ?p)" by (simp add: repetition_code_erasure)
  moreover have "256 \<le> TotalChunks ?p \<longrightarrow> (64 :: int) dvd 3" by (simp add: TotalChunks_def)
  ultimately show ?thesis using origin_relay_decode [of ?cfg "[1, 2, 3]" ?p 3 repetition_code] rtranclp.rtrancl_refl by blast
qed

text \<open>
  C2 (runs of a relay): whatever sequence of calls a relay's strategy sees, no call panics; a
  chunk is held exactly when its bit is set and the planner has an entry for it; a peer has at
  most one send of each chunk under way; the strategy is complete exactly when it holds as many
  chunks as there are data chunks; and once complete its chunks are frozen.
\<close>
theorem relay_run_safe:
  assumes "newRelayStrategy cfg rnd pre = Inr s0" "(rs_step ok)\<^sup>*\<^sup>* s0 s"
  shows "TakeChunk s peer ci data \<noteq> None \<and> (distinct order \<longrightarrow> PollChunks s order \<noteq> None) \<and>
    PollRouting s force \<noteq> None \<and> ChunkSent s peer handle err \<noteq> None \<and>
    (\<forall>i < nat (totalChunks s). (HaveChunk s (ChunkIdent (int i)) \<longleftrightarrow> chunks s ! i \<noteq> None) \<and>
       (Planner_Contains (planner s) (int i) \<longleftrightarrow> chunks s ! i \<noteq> None) \<and>
       (\<forall>ps. peers s peer = Some ps \<longrightarrow> inflight ps ! i \<in> {0, 1})) \<and>
    (complete s \<longleftrightarrow> DataChunks (preamble s) \<le> int (card {i. i < nat (totalChunks s) \<and> chunks s ! i \<noteq> None})) \<and>
    (complete s \<longrightarrow> (\<forall>s'. rs_step ok s s' \<longrightarrow> chunks s' = chunks s))"
proof -
  note r = newRelay_inv [OF assms(1)]
  have inv: "rs_inv s" by (rule rs_steps_inv [OF assms(2) r(1)])
  have "isOrigin s = isOrigin s0" using rs_steps_grow [OF assms(2) r(1)] by (simp add: grows_def)
  then have c: "complete s \<longleftrightarrow> DataChunks (preamble s) \<le> int (card {i. i < nat (totalChunks s) \<and> chunks s ! i \<noteq> None})"
    using inv r(2) by (simp add: rs_inv_def rs_shape_def rs_held_def OnesCount_card)
  have "chunks s' = chunks s" if "complete s" "rs_step ok s s'" for s'
    using rs_step_grows [OF that(2) inv] that(1) by (auto simp: grows_def list_eq_iff_nth_eq)
  moreover have "inflight ps ! i \<in> {0, 1}" if "peers s peer = Some ps" "i < nat (totalChunks s)" for ps i
    using peer_ok_nth [OF peers_ok_peer [OF rs_inv_peers [OF inv] that(1)] that(2)] by simp
  moreover have "(HaveChunk s (ChunkIdent (int i)) \<longleftrightarrow> chunks s ! i \<noteq> None) \<and> (Planner_Contains (planner s) (int i) \<longleftrightarrow> chunks s ! i \<noteq> None)"
    if "i < nat (totalChunks s)" for i
    using held_iff [OF inv that] that by (auto simp: HaveChunk_def Contains_iff)
  moreover have "TakeChunk s peer ci data \<noteq> None" "PollRouting s force \<noteq> None" "ChunkSent s peer handle err \<noteq> None"
    using TakeChunk_inv [OF inv] PollRouting_inv [OF inv] ChunkSent_inv [OF inv] by fastforce+
  moreover have "PollChunks s order \<noteq> None" if "distinct order" using PollChunks_spec [OF inv that] by auto
  ultimately show ?thesis using c by blast
qed

text \<open>A relay of a message of one data and one parity chunk, with one chunk and two peers.\<close>

definition example_preamble :: Preamble where
  "example_preamble = \<lparr>DataChunks = 1, ParityChunks = 1, MessageLength = 3, ChunkHashes = [[], []], MessageHash = []\<rparr>"

definition example_new :: strategy where
  "example_new = \<lparr>config = DefaultConfig, preamble = example_preamble, isOrigin = False, totalChunks = 2, chunks = [None, None],
     planner = newEmitPlanner, peers = Map.empty, routingDirty = False, seed = 7, have_chunks = [0], complete = False\<rparr>"

definition example_relay :: strategy where
  "example_relay = mark_peer (store_chunk (AttachPeer (AttachPeer example_new [1]) [2]) 0 [5]) [1] 0"

lemma example_new: "newRelayStrategy DefaultConfig 7 (Some example_preamble) = Inr example_new"
  by (simp add: newRelayStrategy_def example_preamble_def DefaultConfig_def TotalChunks_def example_new_def
      NewBitmap_def divCeil_def numeral_2_eq_2)

lemma example_run: "(rs_step (\<lambda>_ _. True))\<^sup>*\<^sup>* example_new example_relay" "rs_inv example_relay"
proof -
  let ?s = "AttachPeer (AttachPeer example_new [1]) [2]"
  have inv: "rs_inv ?s" by (intro AttachPeer_inv newRelay_inv [OF example_new])
  have st: "(rs_step (\<lambda>_ _. True))\<^sup>*\<^sup>* example_new ?s"
    by (meson rs_step.attach rtranclp.rtrancl_into_rtrancl rtranclp.rtrancl_refl)
  have "TakeChunk ?s [1] (ChunkIdent 0) [5] = Some (VerdictAccepted, complete example_relay, True, example_relay)"
    unfolding TakeChunk_cases [OF inv] by (simp add: example_relay_def Let_def AttachPeer_def example_new_def)
  then have "rs_step (\<lambda>_ _. True) ?s example_relay" by (rule rs_step.take) simp
  then show run: "(rs_step (\<lambda>_ _. True))\<^sup>*\<^sup>* example_new example_relay" using st by simp
  show "rs_inv example_relay" by (rule rs_steps_inv [OF run newRelay_inv(1) [OF example_new]])
qed

lemma example_may_offer:
  "peers example_relay [2] = Some \<lparr>peer_bitmap = [0], inflight = [0, 0], completed = False\<rparr>"
  "may_offer example_relay \<lparr>peer_bitmap = [0], inflight = [0, 0], completed = False\<rparr> 0"
proof -
  have "planner_map (planner example_relay) 0 = Some \<lparr>Idx = 0, Times = 0, Sent = 0, Priority = chunkPriority (AttachPeer (AttachPeer example_new [1]) [2]) 0\<rparr>"
    using Insert_inv [OF planner_inv_new(1)]
    by (simp add: example_relay_def mark_peer_def store_chunk_def AttachPeer_def example_new_def)
  then show "may_offer example_relay \<lparr>peer_bitmap = [0], inflight = [0, 0], completed = False\<rparr> 0"
    by (simp add: may_offer_def) (simp add: example_relay_def mark_peer_def store_chunk_def AttachPeer_def example_new_def Bitmap_Get_def DefaultConfig_def)
  show "peers example_relay [2] = Some \<lparr>peer_bitmap = [0], inflight = [0, 0], completed = False\<rparr>"
    by (simp add: example_relay_def mark_peer_def store_chunk_def AttachPeer_def example_new_def NewBitmap_def divCeil_def numeral_2_eq_2)
qed

theorem relay_run_safe_witness:
  "(rs_step (\<lambda>_ _. True))\<^sup>*\<^sup>* example_new example_relay \<and> TakeChunk example_relay [1] (ChunkIdent 1) [9] \<noteq> None"
  using relay_run_safe [OF example_new example_run(1)] example_run(1) by blast

text \<open>
  C10 (dispatch): \<open>PollChunks\<close> returns one dispatch for every attached peer, not completed, that
  may be offered some chunk (a held chunk it is not known to have, not on its way to it, and at
  a relay within the forwarding budget), and for no other peer; each dispatch carries such a
  chunk with its data, and records it as in flight to that peer; nothing else of the peers and
  the chunks changes.
\<close>
theorem PollChunks_dispatches:
  assumes "rs_inv s" "distinct order"
  shows "\<exists>ds s'. PollChunks s order = Some (ds, s') \<and> distinct (map dPeer ds) \<and>
    dPeer ` set ds = {p \<in> set order. \<exists>ps i. peers s p = Some ps \<and> \<not> completed ps \<and> may_offer s ps i} \<and>
    (\<forall>d \<in> set ds. \<exists>ps i. peers s (dPeer d) = Some ps \<and> dChunkID d = ChunkIdent (int i) \<and> may_offer s ps i \<and>
       chunks s ! i = Some (dData d) \<and> peers s' (dPeer d) = Some (ps\<lparr>inflight := (inflight ps)[i := 1]\<rparr>)) \<and>
    (\<forall>p. p \<notin> dPeer ` set ds \<longrightarrow> peers s' p = peers s p) \<and> chunks s' = chunks s"
proof -
  obtain ds s' where p: "PollChunks s order = Some (ds, s')" "polled s order ds s'" using PollChunks_spec [OF assms] by blast
  then have "dPeer ` set ds = {p \<in> set order. \<exists>ps i. peers s p = Some ps \<and> \<not> completed ps \<and> may_offer s ps i}"
    by (fastforce simp: polled_def dispatch_ok_def)
  moreover have "\<exists>ps i. peers s (dPeer d) = Some ps \<and> dChunkID d = ChunkIdent (int i) \<and> may_offer s ps i \<and>
       chunks s ! i = Some (dData d) \<and> peers s' (dPeer d) = Some (ps\<lparr>inflight := (inflight ps)[i := 1]\<rparr>)" if "d \<in> set ds" for d
    using p(2) that by (auto simp: polled_def dispatch_ok_def)
  moreover have "distinct (map dPeer ds)" "\<forall>p. p \<notin> dPeer ` set ds \<longrightarrow> peers s' p = peers s p" "chunks s' = chunks s"
    using p(2) same_books_fields(2) by (auto simp: polled_def)
  ultimately show ?thesis using p(1) by blast
qed

theorem PollChunks_dispatches_witness:
  "\<exists>ds s'. PollChunks example_relay [[2]] = Some (ds, s') \<and> dPeer ` set ds = {[2]}"
proof -
  obtain ds s' where "PollChunks example_relay [[2]] = Some (ds, s')"
    "dPeer ` set ds = {p \<in> set [[2]]. \<exists>ps i. peers example_relay p = Some ps \<and> \<not> completed ps \<and> may_offer example_relay ps i}"
    using PollChunks_dispatches [OF example_run(2), of "[[2]]"] by auto
  then show ?thesis using example_may_offer by auto
qed

lemma budget_run:
  assumes "newRelayStrategy cfg rnd pre = Inr s0" "(\<lambda>s s'. rs_step ok s s' \<and> int (card (dom (peers s))) \<le> N)\<^sup>*\<^sup>* s0 s"
  shows "relay_budget N s \<and> rs_inv s \<and> isOrigin s = isOrigin s0 \<and> config s = config s0"
  using assms(2)
proof (induction rule: rtranclp_induct)
  case base
  then show ?case using newRelay_inv [OF assms(1)] by (simp add: relay_budget_def)
next
  case (step s1 s2)
  then show ?case using budget_step [of ok s1 s2 N] rs_step_inv [of ok s1 s2] rs_step_grows [of ok s1 s2] newRelay_inv(2) [OF assms(1)]
    by (simp add: grows_def)
qed

text \<open>
  C13 (forwarding budget): in a run of a relay that never has more than N peers attached, the
  credited sends of a chunk together with those under way never exceed the forwarding
  multiplier (4 where the configuration has none) by N or more.
\<close>
theorem relay_forward_bound:
  assumes "newRelayStrategy cfg rnd pre = Inr s0" "(\<lambda>s s'. rs_step ok s s' \<and> int (card (dom (peers s))) \<le> N)\<^sup>*\<^sup>* s0 s"
    "i < nat (totalChunks s)" "Planner_GetSent (planner s) (int i) = Some n"
  shows "0 \<le> n \<and> n + in_flight (peers s) i < (if ForwardMultiplier cfg \<le> 0 then 4 else ForwardMultiplier cfg) + N"
proof -
  note b = budget_run [OF assms(1,2)]
  obtain e where e: "planner_map (planner s) (int i) = Some e" "Sent e = n" using assms(4) by (auto simp: GetSent_eq)
  have "ForwardMultiplier (config s0) = (if ForwardMultiplier cfg \<le> 0 then 4 else ForwardMultiplier cfg)"
    using assms(1) by (auto simp: newRelayStrategy_def Let_def split: option.splits if_splits)
  moreover have "0 \<le> Sent e" using b rs_countsD(2) [OF _ assms(3) e(1)] by (simp add: rs_inv_def)
  moreover have "in_flight (peers s) i + Sent e \<le> ForwardMultiplier (config s) - 1 + N"
    using b assms(3) e(1) unfolding relay_budget_def by blast
  ultimately show ?thesis using b e(2) by (auto split: if_splits)
qed

theorem relay_forward_bound_witness:
  "Planner_GetSent (planner example_relay) 0 = Some 0 \<and> 0 + in_flight (peers example_relay) 0 < 4 + 2"
proof -
  let ?s = "AttachPeer example_new [1]"
  have run: "(\<lambda>s s'. rs_step (\<lambda>_ _. True) s s' \<and> int (card (dom (peers s))) \<le> 2)\<^sup>*\<^sup>* example_new (AttachPeer ?s [2])"
  proof (rule rtranclp.rtrancl_into_rtrancl, rule r_into_rtranclp)
    show "rs_step (\<lambda>_ _. True) example_new ?s \<and> int (card (dom (peers example_new))) \<le> 2"
      by (simp add: rs_step.attach) (simp add: example_new_def)
    show "rs_step (\<lambda>_ _. True) ?s (AttachPeer ?s [2]) \<and> int (card (dom (peers ?s))) \<le> 2"
      by (simp add: rs_step.attach) (simp add: AttachPeer_def example_new_def)
  qed
  have inv: "rs_inv (AttachPeer ?s [2])" by (intro AttachPeer_inv newRelay_inv [OF example_new])
  have "TakeChunk (AttachPeer ?s [2]) [1] (ChunkIdent 0) [5] = Some (VerdictAccepted, complete example_relay, True, example_relay)"
    unfolding TakeChunk_cases [OF inv] by (simp add: example_relay_def Let_def AttachPeer_def example_new_def)
  then have "rs_step (\<lambda>_ _. True) (AttachPeer ?s [2]) example_relay" by (rule rs_step.take) simp
  moreover have "int (card (dom (peers (AttachPeer ?s [2])))) \<le> 2"
    by (simp add: AttachPeer_def example_new_def)
  ultimately have "(\<lambda>s s'. rs_step (\<lambda>_ _. True) s s' \<and> int (card (dom (peers s))) \<le> 2)\<^sup>*\<^sup>* example_new example_relay"
    using run by (simp add: rtranclp.rtrancl_into_rtrancl)
  moreover have t: "totalChunks example_relay = 2"
    by (simp add: example_relay_def mark_peer_def store_chunk_def AttachPeer_def example_new_def)
  moreover have g: "Planner_GetSent (planner example_relay) 0 = Some 0"
    using example_may_offer(1) Insert_inv [OF planner_inv_new(1)]
    by (simp add: GetSent_eq example_relay_def mark_peer_def store_chunk_def AttachPeer_def example_new_def)
  ultimately show ?thesis
    using relay_forward_bound [OF example_new, of "\<lambda>_ _. True" 2 example_relay 0 0] by (simp add: DefaultConfig_def)
qed

lemma PollChunks_one:
  assumes "rs_inv s" "PollChunks s [peer] = Some (ds, s1)" "d \<in> set ds"
  shows "\<exists>ps e. peers s peer = Some ps \<and> dChunkID d = ChunkIdent (Idx e) \<and> eligible s ps e \<and> allocated s peer ps e s1"
proof -
  obtain ps where ps: "peers s peer = Some ps" "\<not> completed ps" using assms(2,3) by (auto split: option.splits if_splits)
  obtain r s' where al: "allocate s peer ps = Some (r, s')" "case r of
       None \<Rightarrow> (\<forall>e. \<not> eligible s ps e) \<and> planner_inv (planner s') \<and> planner_map (planner s') = planner_map (planner s) \<and> s' = s\<lparr>planner := planner s'\<rparr>
     | Some (ci, data) \<Rightarrow> \<exists>e. ci = ChunkIdent (Idx e) \<and> chunks s ! nat (Idx e) = Some data \<and>
         eligible s ps e \<and> (\<forall>e'. eligible s ps e' \<longrightarrow> ekey e \<le> ekey e') \<and> allocated s peer ps e s'"
    using allocate_spec [OF assms(1) ps(1)] by blast
  have "s' = s1" "r \<noteq> None" using assms(2,3) ps al(1) by (auto split: option.splits)
  then obtain ci data where r: "r = Some (ci, data)" by auto
  then have "dChunkID d = ci" using assms(2,3) ps al(1) by auto
  then show ?thesis using al(2) r \<open>s' = s1\<close> ps(1) by auto
qed

lemma sint_handle: "0 \<le> k \<Longrightarrow> k < 2 ^ 63 \<Longrightarrow> sint (ChunkIdent_Handle (ChunkIdent k)) = k"
  by (simp add: ChunkIdent_Handle_def sint_sbintrunc' signed_take_bit_int_eq_self_iff)

text \<open>
  C14 (failed sends): when the one peer polled is given a chunk and the send then fails, the
  strategy is back where it was: the same peers, the same planner entries and the same rest.
\<close>
theorem failed_send_invisible:
  assumes "rs_inv s" "totalChunks s \<le> 2 ^ 63" "PollChunks s [peer] = Some (ds, s1)" "d \<in> set ds"
  shows "\<exists>s2. ChunkSent s1 peer (ChunkIdent_Handle (dChunkID d)) (Some err) = Some s2 \<and>
    peers s2 = peers s \<and> planner_map (planner s2) = planner_map (planner s) \<and> s2 = s\<lparr>planner := planner s2\<rparr>"
proof -
  obtain ps e where ps: "peers s peer = Some ps" "dChunkID d = ChunkIdent (Idx e)" "eligible s ps e" "allocated s peer ps e s1"
    using PollChunks_one [OF assms(1,3,4)] by blast
  define i where "i = nat (Idx e)"
  have e: "planner_map (planner s) (Idx e) = Some e" "\<not> Bitmap_Get (peer_bitmap ps) i" "inflight ps ! i = 0"
    using ps(3) by (auto simp: eligible_def i_def)
  have i: "Idx e = int i" "i < nat (totalChunks s)" using skip_entry_total [OF assms(1) ps(1) e(1)] by (auto simp: i_def)
  have len: "i < length (inflight ps)" using peers_ok_peer [OF rs_inv_peers [OF assms(1)] ps(1)] i(2) by (simp add: peer_ok_def)
  have s1: "s1 = s\<lparr>planner := planner s1, peers := (peers s)(peer \<mapsto> ps\<lparr>inflight := (inflight ps)[i := 1]\<rparr>)\<rparr>"
    "planner_inv (planner s1)" "planner_map (planner s1) = (planner_map (planner s))(int i \<mapsto> e\<lparr>Times := Times e + 1\<rparr>)"
    using ps(4) i(1) by (simp_all add: allocated_def)
  have h: "sint (ChunkIdent_Handle (dChunkID d)) = int i" using i assms(2) by (simp add: ps(2) sint_handle)
  let ?h = "ChunkIdent_Handle (dChunkID d)" and ?pl = "Planner_Decrement (planner s1) (int i)"
    and ?m = "(peers s)(peer \<mapsto> ps\<lparr>inflight := (inflight ps)[i := 0], peer_bitmap := Bitmap_Unset (peer_bitmap ps) i\<rparr>)"
  have f: "peers s1 = (peers s)(peer \<mapsto> ps\<lparr>inflight := (inflight ps)[i := 1]\<rparr>)" "totalChunks s1 = totalChunks s"
    using arg_cong [OF s1(1), of peers] arg_cong [OF s1(1), of totalChunks] by simp_all
  have "\<not> totalChunks s \<le> int i" using i(2) by linarith
  then have "ChunkSent s1 peer ?h (Some err) = Some (s1\<lparr>planner := ?pl, peers := ?m\<rparr>)"
    using len h f by (simp add: ChunkSent_def Let_def)
  moreover have "s1\<lparr>planner := ?pl, peers := ?m\<rparr> = s\<lparr>planner := ?pl, peers := ?m\<rparr>" by (subst s1(1)) simp
  moreover have "?m = peers s"
    using ps(1) e(3) Unset_absent [OF e(2)] by (metis fun_upd_triv list_update_id peerState.surjective peerState.update_convs(1,2))
  ultimately have "ChunkSent s1 peer ?h (Some err) = Some (s\<lparr>planner := ?pl\<rparr>)" by simp
  moreover have "planner_map ?pl = planner_map (planner s)"
    using Decrement_inv [OF s1(2), of "int i"] e(1) i(1) s1(3) by (auto simp: fun_eq_iff)
  ultimately show ?thesis by simp
qed

theorem failed_send_invisible_witness:
  "\<exists>d s1 s2. PollChunks example_relay [[2]] = Some ([d], s1) \<and>
     ChunkSent s1 [2] (ChunkIdent_Handle (dChunkID d)) (Some ErrUnexpectedEOF) = Some s2 \<and> peers s2 = peers example_relay"
proof -
  obtain ds s1 where p: "PollChunks example_relay [[2]] = Some (ds, s1)" "polled example_relay [[2]] ds s1"
    using PollChunks_spec [OF example_run(2), of "[[2]]"] by auto
  then have "[2] \<in> dPeer ` set ds" using example_may_offer by (auto simp: polled_def)
  moreover have "dPeer ` set ds \<subseteq> {[2]}" "distinct (map dPeer ds)" using p(2) by (auto simp: polled_def)
  ultimately obtain d where d: "ds = [d]"
    by (cases ds; cases "tl ds") auto
  have "totalChunks example_relay \<le> 2 ^ 63"
    by (simp add: example_relay_def mark_peer_def store_chunk_def AttachPeer_def example_new_def)
  from failed_send_invisible [OF example_run(2) this, of "[2]" ds s1 d ErrUnexpectedEOF] p(1) d show ?thesis by auto
qed

text \<open>
  C11 (fair allocation): the chunk allocated to a peer is one it may be offered, and among all
  such chunks it has been handed out least often and then has the least priority value; none is
  allocated exactly when there is none to offer; and allocation changes the planner only by
  counting the allocation.
\<close>
theorem allocate_least:
  assumes "rs_inv s" "peers s peer = Some ps"
  shows "\<exists>r s'. allocate s peer ps = Some (r, s') \<and>
    (case r of
       None \<Rightarrow> (\<forall>i. \<not> may_offer s ps i) \<and> planner_map (planner s') = planner_map (planner s) \<and> peers s' = peers s
     | Some (ci, data) \<Rightarrow> \<exists>i e. ci = ChunkIdent (int i) \<and> may_offer s ps i \<and> chunks s ! i = Some data \<and>
         planner_map (planner s) (int i) = Some e \<and>
         (\<forall>j e'. may_offer s ps j \<and> planner_map (planner s) (int j) = Some e' \<longrightarrow> (Times e, Priority e) \<le> (Times e', Priority e')) \<and>
         planner_map (planner s') = (planner_map (planner s))(int i \<mapsto> e\<lparr>Times := Times e + 1\<rparr>))"
proof -
  obtain r s' where al: "allocate s peer ps = Some (r, s')" and r: "case r of
       None \<Rightarrow> (\<forall>e. \<not> eligible s ps e) \<and> planner_inv (planner s') \<and> planner_map (planner s') = planner_map (planner s) \<and> s' = s\<lparr>planner := planner s'\<rparr>
     | Some (ci, data) \<Rightarrow> \<exists>e. ci = ChunkIdent (Idx e) \<and> chunks s ! nat (Idx e) = Some data \<and>
         eligible s ps e \<and> (\<forall>e'. eligible s ps e' \<longrightarrow> ekey e \<le> ekey e') \<and> allocated s peer ps e s'"
    using allocate_spec [OF assms] by blast
  note off = may_offer_eligible [OF assms]
  show ?thesis
  proof (cases r)
    case None
    then have s': "s' = s\<lparr>planner := planner s'\<rparr>" using r by simp
    have "peers s' = peers s" using arg_cong [OF s', of peers] by simp
    then show ?thesis using None r al off by auto
  next
    case (Some cd)
    then obtain e data where e: "cd = (ChunkIdent (Idx e), data)" "chunks s ! nat (Idx e) = Some data" "eligible s ps e"
      "\<forall>e'. eligible s ps e' \<longrightarrow> ekey e \<le> ekey e'" "allocated s peer ps e s'" using r by (cases cd) auto
    define i where "i = nat (Idx e)"
    have i: "may_offer s ps i" "Idx e = int i" using eligible_may_offer [OF assms e(3)] by (auto simp: i_def)
    have "(Times e, Priority e) \<le> (Times e', Priority e')"
      if m: "may_offer s ps j" and e': "planner_map (planner s) (int j) = Some e'" for j e'
    proof -
      obtain x where "Idx x = int j" "eligible s ps x" using off [OF m] by blast
      moreover from this have "x = e'" using e' by (simp add: eligible_def)
      ultimately have "ekey e \<le> ekey e'" using e(4) by blast
      then show ?thesis by (simp only: ekey_def)
    qed
    moreover have "planner_map (planner s) (int i) = Some e" using e(3) i(2) by (simp add: eligible_def)
    moreover have "planner_map (planner s') = (planner_map (planner s))(int i \<mapsto> e\<lparr>Times := Times e + 1\<rparr>)"
      using e(5) i(2) by (simp add: allocated_def)
    moreover have "cd = (ChunkIdent (int i), data)" "chunks s ! i = Some data" using e(1,2) i(2) by simp_all
    ultimately have "\<exists>i' e. ChunkIdent (int i) = ChunkIdent (int i') \<and> may_offer s ps i' \<and> chunks s ! i' = Some data \<and>
         planner_map (planner s) (int i') = Some e \<and>
         (\<forall>j e'. may_offer s ps j \<and> planner_map (planner s) (int j) = Some e' \<longrightarrow> (Times e, Priority e) \<le> (Times e', Priority e')) \<and>
         planner_map (planner s') = (planner_map (planner s))(int i' \<mapsto> e\<lparr>Times := Times e + 1\<rparr>)" using i by blast
    moreover have "r = Some (ChunkIdent (int i), data)" using Some e(1) i(2) by simp
    ultimately show ?thesis by (intro exI [of _ r] exI [of _ s'] conjI al) (simp only: option.case prod.case)
  qed
qed

theorem allocate_least_witness:
  "\<exists>r s'. allocate example_relay [2] \<lparr>peer_bitmap = [0], inflight = [0, 0], completed = False\<rparr> = Some (Some r, s')"
proof -
  obtain r s' where "allocate example_relay [2] \<lparr>peer_bitmap = [0], inflight = [0, 0], completed = False\<rparr> = Some (r, s')"
    "r = None \<longrightarrow> (\<forall>i. \<not> may_offer example_relay \<lparr>peer_bitmap = [0], inflight = [0, 0], completed = False\<rparr> i)"
    using allocate_least [OF example_run(2) example_may_offer(1)] by (auto split: option.splits)
  then show ?thesis using example_may_offer(2) by (cases r) auto
qed



end
