(* ===== verification/BcastWire.thy ===== *)
theory BcastWire
  imports Wire
begin

text \<open>
  \<open>src/broadcast/protocol.go\<close> and \<open>src/broadcast/wire.go\<close>: the protocols and frame types of the
  broadcast family, the codes with which its streams end, and the reading and writing of its
  frames. Protobuf marshalling is a parameter. A Go \<open>error\<close> that may be \<open>nil\<close> is an option. The
  lemmas show which byte streams are accepted as the payload of a chunk, and that the code a
  reader sends back tells a malformed stream from a truncated one, a redundant chunk and a
  timeout.
\<close>

section \<open>Protocol numbers, frame types and codes\<close>

definition bcast_Family :: "32 word" where "bcast_Family = 1"

definition BCAST :: "32 word" where "BCAST = 1"
definition SESS :: "32 word" where "SESS = 2"
definition CHUNK :: "32 word" where "CHUNK = 3"

definition handshakeFrame :: "64 word" where "handshakeFrame = 0"
definition subscribeFrame :: "64 word" where "subscribeFrame = 1"
definition unsubscribeFrame :: "64 word" where "unsubscribeFrame = 2"
definition openFrame :: "64 word" where "openFrame = 0"
definition updateFrame :: "64 word" where "updateFrame = 1"
definition headerFrame :: "64 word" where "headerFrame = 0"
definition dataFrame :: "64 word" where "dataFrame = 1"

definition Reconstructed :: code where "Reconstructed = ProtocolCode 1"
definition Redundant :: code where "Redundant = ProtocolCode 2"

definition errChunkRedundant :: goerr where "errChunkRedundant = ErrNew ''chunk is no longer needed''"
definition errStreamRefused :: goerr where "errStreamRefused = ErrNew ''stream will not be processed''"
definition errUnexpectedFrame :: goerr where "errUnexpectedFrame = Wrap ''frame type not allowed here'' errStreamRefused"

lemmas bcast_error_defs = errChunkRedundant_def errStreamRefused_def errUnexpectedFrame_def

text \<open>\<open>errors.Join\<close>: the errors that are not \<open>nil\<close>, or \<open>nil\<close> when there are none.\<close>

definition errors_Join :: "goerr option list \<Rightarrow> goerr option" where
  "errors_Join es = (case List.map_filter (\<lambda>e. e) es of [] \<Rightarrow> None | es' \<Rightarrow> Some (Join es'))"

definition streamFailureCode :: "goerr option \<Rightarrow> code" where
  "streamFailureCode err = (case err of None \<Rightarrow> Unspecified | Some e \<Rightarrow> TimeoutOr e Unspecified)"

definition streamCancellationCode :: "goerr option \<Rightarrow> code" where
  "streamCancellationCode cause =
     (if streamFailureCode cause = Timeout then Timeout
      else case cause of
        None \<Rightarrow> Unspecified
      | Some e \<Rightarrow>
          if errors_Is e errChunkRedundant then Redundant
          else if errors_Is e errStreamRefused then Refused
          else Unspecified)"

section \<open>Frames\<close>

definition maxBroadcastFrame :: nat where "maxBroadcastFrame = 2 ^ 20"

text \<open>
  \<open>writeFrame\<close>: the one write it performs, if any, and its error; \<open>w\<close> is the error the writer
  returns for those bytes.
\<close>

definition writeFrame :: "(bytes \<Rightarrow> goerr option) \<Rightarrow> ('m \<Rightarrow> goerr + bytes) \<Rightarrow> 64 word \<Rightarrow> 'm \<Rightarrow> bytes option \<times> goerr option" where
  "writeFrame w marshal ty msg =
     (case marshal msg of
        Inl e \<Rightarrow> (None, Some (Wrap ''marshal'' e))
      | Inr data \<Rightarrow> (let b = AppendFrame [] ty data in (Some b, w b)))"

definition unmarshalFrame :: "(bytes \<Rightarrow> goerr + 'm) \<Rightarrow> bytes \<Rightarrow> goerr + 'm" where
  "unmarshalFrame unmarshal data = (case unmarshal data of Inl e \<Rightarrow> Inl (Wrap ''unmarshal'' e) | Inr m \<Rightarrow> Inr m)"

definition readFrame :: "(bytes \<Rightarrow> goerr + 'm) \<Rightarrow> 64 word \<Rightarrow> reader \<Rightarrow> (goerr + 'm) \<times> reader" where
  "readFrame unmarshal want r =
     rthen (ReadFrame maxBroadcastFrame r) (\<lambda>(ty, data) r'.
       if ty \<noteq> want then (Inl errUnexpectedFrame, r') else (unmarshalFrame unmarshal data, r'))"

definition readChunkData :: "32 word \<Rightarrow> reader \<Rightarrow> (goerr + bytes) \<times> reader" where
  "readChunkData dataLen r =
     (case ReadFrame (unat dataLen) r of
        (Inl err, r1) \<Rightarrow>
          if errors_Is err EOF \<or> errors_Is err ErrFrameTooLarge then (Inl errUnexpectedFrame, r1) else (Inl err, r1)
      | (Inr (ty, data), r1) \<Rightarrow>
          if ty \<noteq> dataFrame \<or> length data \<noteq> unat dataLen then (Inl errUnexpectedFrame, r1)
          else (case readFull 1 r1 of
                  (Inl err, r2) \<Rightarrow> if errors_Is err EOF then (Inr data, r2) else (Inl err, r2)
                | (Inr _, r2) \<Rightarrow> (Inl errUnexpectedFrame, r2)))"

section \<open>Lemmas\<close>

lemma readFull_1: "readFull (Suc 0) r =
    (case rdata r of
       [] \<Rightarrow> (Inl (rend r), r\<lparr>rdata := []\<rparr>)
     | b # bs \<Rightarrow> (Inr [b], r\<lparr>rdata := bs\<rparr>))"
proof (cases r)
  case (fields d e)
  then show ?thesis by (cases d) (simp_all add: reader_simps)
qed

lemma dataLen_bound: "unat (n :: 32 word) < 2 ^ 63"
  using unat_bound [of n] by simp

lemma AppendFrame_nonempty: "AppendFrame [] ty p \<noteq> []"
  by (simp add: AppendFrame_eq)

text \<open>A malformed stream as the reader of the payload sees it, without the stream's own errors.\<close>

lemma readChunkData_accepts:
  "readChunkData n r = (Inr data, r') \<longleftrightarrow>
     errors_Is (rend r) EOF \<and> length data = unat n \<and> rdata r = AppendFrame [] dataFrame data \<and>
     r' = \<lparr>rdata = [], rend = rend r\<rparr>"
proof
  assume a: "readChunkData n r = (Inr data, r')"
  obtain res r1 where rf: "ReadFrame (unat n) r = (res, r1)" by (cases "ReadFrame (unat n) r")
  have r1: "res = Inr (dataFrame, data) \<and> length data = unat n \<and> rdata r1 = [] \<and> errors_Is (rend r1) EOF \<and> r' = r1\<lparr>rdata := []\<rparr>"
    using a unfolding readChunkData_def rf readFull_1
    by (auto simp: readFull_1 split: sum.splits if_splits list.splits prod.splits)
  with rf have "ReadFrame (unat n) r = (Inr (dataFrame, data), r1)" by simp
  from ReadFrame_InrD [OF this] r1 show "errors_Is (rend r) EOF \<and> length data = unat n \<and> rdata r = AppendFrame [] dataFrame data \<and>
     r' = \<lparr>rdata = [], rend = rend r\<rparr>" by (cases r1) simp
next
  assume a: "errors_Is (rend r) EOF \<and> length data = unat n \<and> rdata r = AppendFrame [] dataFrame data \<and> r' = \<lparr>rdata = [], rend = rend r\<rparr>"
  obtain d e where r: "r = \<lparr>rdata = d, rend = e\<rparr>" by (cases r)
  from a r have d: "d = AppendFrame [] dataFrame data" and e: "errors_Is e EOF" and le: "length data \<le> unat n" by simp_all
  from ReadFrame_AppendFrame [OF le dataLen_bound, of dataFrame "[]" e] a e
  show "readChunkData n r = (Inr data, r')" by (simp add: readChunkData_def readFull_1 r d)
qed

lemma readFrame_AppendFrame:
  assumes "length payload \<le> maxBroadcastFrame"
  shows "readFrame unmarshal want \<lparr>rdata = AppendFrame [] ty payload @ rest, rend = e\<rparr> =
    ((if ty \<noteq> want then Inl errUnexpectedFrame else unmarshalFrame unmarshal payload), \<lparr>rdata = rest, rend = e\<rparr>)"
  using ReadFrame_AppendFrame [OF assms, of ty rest e] by (simp add: readFrame_def maxBroadcastFrame_def)

lemma unexpected_refused: "streamCancellationCode (Some errUnexpectedFrame) = Refused"
  by (simp add: streamCancellationCode_def streamFailureCode_def TimeoutOr_def bcast_error_defs errors_AsType.simps stack_code_defs)

lemma truncated_unspecified: "streamCancellationCode (Some ErrUnexpectedEOF) = Unspecified"
  by (simp add: streamCancellationCode_def streamFailureCode_def TimeoutOr_def bcast_error_defs errors_AsType.simps stack_code_defs)

lemma ReadFrame_TooLarge:
  assumes "maxLen < length payload" "length payload < 2 ^ 63"
  shows "fst (ReadFrame maxLen \<lparr>rdata = AppendFrame [] ty payload @ rest, rend = e\<rparr>) = Inl ErrFrameTooLarge"
proof -
  have "unat (of_nat (length payload) :: 64 word) = length payload"
    using assms by (simp add: unat_of_nat take_bit_nat_eq_self)
  then show ?thesis using assms
    by (simp add: ReadFrame_def AppendFrame_eq readMinimalUvarint_uvarint readMinimalUvarint_length)
qed

lemma readChunkData_wrong_frame:
  assumes "ty \<noteq> dataFrame \<or> length p \<noteq> unat n" "length p < 2 ^ 63"
  shows "fst (readChunkData n \<lparr>rdata = AppendFrame [] ty p @ rest, rend = e\<rparr>) = Inl errUnexpectedFrame"
proof (cases "length p \<le> unat n")
  case True
  then show ?thesis using assms ReadFrame_AppendFrame [OF True dataLen_bound, of ty rest e] by (simp add: readChunkData_def)
next
  case False
  then have "fst (ReadFrame (unat n) \<lparr>rdata = AppendFrame [] ty p @ rest, rend = e\<rparr>) = Inl ErrFrameTooLarge"
    using assms(2) by (intro ReadFrame_TooLarge) auto
  then show ?thesis by (auto simp: readChunkData_def split: prod.split sum.split)
qed

lemma readChunkData_trailing:
  assumes "length p = unat n" "rest \<noteq> []"
  shows "fst (readChunkData n \<lparr>rdata = AppendFrame [] dataFrame p @ rest, rend = e\<rparr>) = Inl errUnexpectedFrame"
  using assms ReadFrame_AppendFrame [of p "unat n" dataFrame rest e] dataLen_bound [of n]
  by (auto simp: readChunkData_def readFull_1 split: list.split)

lemma readChunkData_truncated:
  assumes "length data = unat n" "AppendFrame [] dataFrame data = p @ q" "q \<noteq> []"
  shows "fst (readChunkData n \<lparr>rdata = p, rend = EOF\<rparr>) = Inl (if p = [] then errUnexpectedFrame else ErrUnexpectedEOF)"
proof -
  have "length data \<le> unat n" using assms(1) by simp
  from ReadFrame_truncated_aux [OF this dataLen_bound assms(2,3), of EOF]
  have "fst (ReadFrame (unat n) \<lparr>rdata = p, rend = EOF\<rparr>) = Inl (if p = [] then EOF else ErrUnexpectedEOF)" by (simp add: cut_error_def)
  then show ?thesis by (cases "ReadFrame (unat n) \<lparr>rdata = p, rend = EOF\<rparr>") (simp add: readChunkData_def split: if_splits)
qed

section \<open>Properties\<close>

text \<open>
  C15 (chunk payloads): after the header of a chunk stream exactly one byte string is accepted
  per payload: its DATA frame of the announced length, and then the end of the stream.
  Otherwise the reader ends the stream with a code that tells what was wrong: \<open>Refused\<close> when
  the stream ends where DATA belongs, when the frame has another type or length, or when
  something follows it; \<open>Unspecified\<close> when the frame is cut short.
\<close>
theorem readChunkData_codes:
  assumes "length data = unat n"
  shows "(readChunkData n r = (Inr data, r') \<longleftrightarrow>
      errors_Is (rend r) EOF \<and> rdata r = AppendFrame [] dataFrame data \<and> r' = \<lparr>rdata = [], rend = rend r\<rparr>) \<and>
    (\<forall>ty p rest. ty \<noteq> dataFrame \<or> length p \<noteq> unat n \<longrightarrow> length p < 2 ^ 63 \<longrightarrow>
       (\<exists>e. fst (readChunkData n \<lparr>rdata = AppendFrame [] ty p @ rest, rend = EOF\<rparr>) = Inl e \<and> streamCancellationCode (Some e) = Refused)) \<and>
    (\<forall>rest. rest \<noteq> [] \<longrightarrow>
       (\<exists>e. fst (readChunkData n \<lparr>rdata = AppendFrame [] dataFrame data @ rest, rend = EOF\<rparr>) = Inl e \<and> streamCancellationCode (Some e) = Refused)) \<and>
    (\<forall>p q. AppendFrame [] dataFrame data = p @ q \<longrightarrow> q \<noteq> [] \<longrightarrow>
       (\<exists>e. fst (readChunkData n \<lparr>rdata = p, rend = EOF\<rparr>) = Inl e \<and>
          streamCancellationCode (Some e) = (if p = [] then Refused else Unspecified)))"
  (is "_ \<and> ?frame \<and> ?trailing \<and> ?cut")
proof (intro conjI)
  show ?frame using readChunkData_wrong_frame unexpected_refused by blast
  show ?trailing using readChunkData_trailing [OF assms] unexpected_refused by blast
  show ?cut
  proof (intro allI impI)
    fix p q assume "AppendFrame [] dataFrame data = p @ q" "q \<noteq> []"
    from readChunkData_truncated [OF assms this] show "\<exists>e. fst (readChunkData n \<lparr>rdata = p, rend = EOF\<rparr>) = Inl e \<and>
          streamCancellationCode (Some e) = (if p = [] then Refused else Unspecified)"
      by (simp add: unexpected_refused truncated_unspecified)
  qed
qed (simp add: readChunkData_accepts assms)

theorem readChunkData_codes_witness:
  "readChunkData 2 \<lparr>rdata = AppendFrame [] dataFrame [7, 8], rend = EOF\<rparr> = (Inr [7, 8], \<lparr>rdata = [], rend = EOF\<rparr>)"
  using readChunkData_codes [of "[7, 8]" 2 "\<lparr>rdata = AppendFrame [] dataFrame [7, 8], rend = EOF\<rparr>" "\<lparr>rdata = [], rend = EOF\<rparr>"]
  by simp

text \<open>
  C36 (frames of the broadcast protocols): what \<open>writeFrame\<close> writes for a message of at most 1 MiB,
  followed by anything, \<open>readFrame\<close> reads back as that message when it expects that type, without
  touching what follows; it is an unexpected frame, refused, when another type is expected. A
  longer message is written all the same, and whoever reads it finds the frame too large. The
  error of a failed marshalling is returned without writing.
\<close>
theorem writeFrame_readFrame:
  assumes "\<And>m data. marshal m = Inr data \<Longrightarrow> unmarshal data = Inr m"
  shows "(case marshal msg of
      Inl e' \<Rightarrow> writeFrame w marshal ty msg = (None, Some (Wrap ''marshal'' e'))
    | Inr data \<Rightarrow> (\<exists>b. writeFrame w marshal ty msg = (Some b, w b) \<and>
        (length data \<le> maxBroadcastFrame \<longrightarrow>
          readFrame unmarshal ty \<lparr>rdata = b @ rest, rend = e\<rparr> = (Inr msg, \<lparr>rdata = rest, rend = e\<rparr>) \<and>
          (want \<noteq> ty \<longrightarrow> (\<exists>e'. fst (readFrame unmarshal want \<lparr>rdata = b @ rest, rend = e\<rparr>) = Inl e' \<and> streamCancellationCode (Some e') = Refused))) \<and>
        (maxBroadcastFrame < length data \<and> length data < 2 ^ 63 \<longrightarrow>
          fst (readFrame unmarshal want \<lparr>rdata = b @ rest, rend = e\<rparr>) = Inl ErrFrameTooLarge)))"
proof (cases "marshal msg")
  case (Inr data)
  have "fst (readFrame unmarshal want \<lparr>rdata = AppendFrame [] ty data @ rest, rend = e\<rparr>) = Inl ErrFrameTooLarge"
    if "maxBroadcastFrame < length data" "length data < 2 ^ 63"
    using ReadFrame_TooLarge [OF that, of ty rest e]
    by (cases "ReadFrame maxBroadcastFrame \<lparr>rdata = AppendFrame [] ty data @ rest, rend = e\<rparr>") (simp add: readFrame_def)
  then show ?thesis using Inr assms [OF Inr]
    by (simp add: writeFrame_def unmarshalFrame_def Let_def readFrame_AppendFrame unexpected_refused)
qed (simp add: writeFrame_def)

theorem writeFrame_readFrame_witness:
  "readFrame (\<lambda>d. Inr d) subscribeFrame \<lparr>rdata = AppendFrame [] subscribeFrame [10, 1, 97] @ [5], rend = EOF\<rparr> =
     (Inr [10, 1, 97], \<lparr>rdata = [5], rend = EOF\<rparr>) \<and>
   fst (readFrame (\<lambda>d. Inr d) subscribeFrame \<lparr>rdata = AppendFrame [] subscribeFrame (replicate 1048577 0) @ [5], rend = EOF\<rparr>) = Inl ErrFrameTooLarge"
proof -
  note w = writeFrame_readFrame [of Inr Inr, where w = "\<lambda>b. None" and ty = subscribeFrame and want = subscribeFrame and rest = "[5]" and e = EOF]
  show ?thesis using w [of "[10, 1, 97]"] w [of "replicate 1048577 0"] by (simp add: writeFrame_def Let_def maxBroadcastFrame_def)
qed

end
