(* ===== verification/Queue.thy ===== *)
theory Queue
  imports Prelude
begin

text \<open>
  The two queues that hand values from producers that never block to one consumer:
  \<open>fifo\<close> of \<open>src/broadcast/queue.go\<close> and \<open>streamQueue\<close> of \<open>src/transport/queue.go\<close>. Every
  operation runs under the queue's mutex, so it is one step. The channel \<open>ready\<close> of capacity
  one is a flag: whether a token is in it. The lemmas show, once for both, that nothing is
  lost, duplicated or reordered, and that a consumer that waits for the token is never left
  waiting while the queue holds something.
\<close>

section \<open>The queue of the broadcast package\<close>

record 'a fifo =
  fifo_items :: "'a list"
  fifo_ready :: bool
  fifo_closed :: bool

definition newFIFO :: "'a fifo" where
  "newFIFO = \<lparr>fifo_items = [], fifo_ready = False, fifo_closed = False\<rparr>"

definition fifo_signal :: "'a fifo \<Rightarrow> 'a fifo" where
  "fifo_signal q = q\<lparr>fifo_ready := True\<rparr>"

definition fifo_push :: "'a \<Rightarrow> 'a fifo \<Rightarrow> bool \<times> 'a fifo" where
  "fifo_push v q =
     (if fifo_closed q then (False, q)
      else (True, fifo_signal (q\<lparr>fifo_items := fifo_items q @ [v]\<rparr>)))"

definition fifo_pop :: "'a fifo \<Rightarrow> 'a option \<times> 'a fifo" where
  "fifo_pop q =
     (case fifo_items q of
        [] \<Rightarrow> (None, q)
      | v # rest \<Rightarrow>
          let q' = q\<lparr>fifo_items := rest\<rparr> in
          (Some v, if 0 < length (fifo_items q') then fifo_signal q' else q'))"

text \<open>\<open>close\<close> drains the list from its front.\<close>

fun fifo_drain :: "'a list \<Rightarrow> 'a list \<Rightarrow> 'a list" where
  "fifo_drain pending [] = pending"
| "fifo_drain pending (v # rest) = fifo_drain (pending @ [v]) rest"

definition fifo_close :: "'a fifo \<Rightarrow> 'a list \<times> 'a fifo" where
  "fifo_close q = (fifo_drain [] (fifo_items q), q\<lparr>fifo_closed := True, fifo_items := []\<rparr>)"

section \<open>The queue of the transport package\<close>

record 'a streamQueue =
  sq_items :: "'a list"
  sq_closed :: bool
  sq_ready :: bool

definition newStreamQueue :: "'a streamQueue" where
  "newStreamQueue = \<lparr>sq_items = [], sq_closed = False, sq_ready = False\<rparr>"

definition sq_signal :: "'a streamQueue \<Rightarrow> 'a streamQueue" where
  "sq_signal q = q\<lparr>sq_ready := True\<rparr>"

definition sq_push :: "'a \<Rightarrow> 'a streamQueue \<Rightarrow> bool \<times> 'a streamQueue" where
  "sq_push item q =
     (if sq_closed q then (False, q) else (True, sq_signal (q\<lparr>sq_items := sq_items q @ [item]\<rparr>)))"

definition sq_tryPop :: "'a streamQueue \<Rightarrow> 'a option \<times> 'a streamQueue" where
  "sq_tryPop q =
     (if length (sq_items q) = 0 then (None, q)
      else
        let item = sq_items q ! 0; q' = q\<lparr>sq_items := drop 1 (sq_items q)\<rparr> in
        (Some item, if length (sq_items q') \<noteq> 0 then sq_signal q' else q'\<lparr>sq_items := []\<rparr>))"

definition sq_close :: "'a streamQueue \<Rightarrow> 'a list \<times> 'a streamQueue" where
  "sq_close q = (sq_items q, q\<lparr>sq_closed := True, sq_items := []\<rparr>)"

section \<open>Producers and a consumer\<close>

text \<open>
  What the clients of a queue do: producers push, somebody closes it, and one consumer pops
  when it likes and waits for a token, but after a token pops at least once before it waits
  again, as \<open>runChunkAcceptLoop\<close> of \<open>src/broadcast/peer.go\<close>, the supervisor of
  \<open>src/supervisor.go\<close> and the accept call of \<open>src/transport/libp2p.go\<close> do. The state has the
  queue, whether the consumer owes that pop, and a log of what went in and came out.
\<close>

datatype 'a queue_op = Push 'a | Await | Pop | CloseQueue

record ('a, 'q) queue_ops =
  q_push :: "'a \<Rightarrow> 'q \<Rightarrow> bool \<times> 'q"
  q_pop :: "'q \<Rightarrow> 'a option \<times> 'q"
  q_close :: "'q \<Rightarrow> 'a list \<times> 'q"
  q_ready :: "'q \<Rightarrow> bool"
  q_receive :: "'q \<Rightarrow> 'q"

record 'a queue_log =
  accepted :: "'a list"
  refused :: "'a list"
  popped :: "'a list"
  pending :: "'a list"

definition empty_log :: "'a queue_log" where
  "empty_log = \<lparr>accepted = [], refused = [], popped = [], pending = []\<rparr>"

fun queue_step :: "('a, 'q) queue_ops \<Rightarrow> 'q \<times> bool \<times> 'a queue_log \<Rightarrow> 'a queue_op \<Rightarrow> 'q \<times> bool \<times> 'a queue_log" where
  "queue_step ops (q, owes, l) (Push v) =
     (case q_push ops v q of
        (ok, q') \<Rightarrow> (q', owes, if ok then l\<lparr>accepted := accepted l @ [v]\<rparr> else l\<lparr>refused := refused l @ [v]\<rparr>))"
| "queue_step ops (q, owes, l) Await =
     (if \<not> owes \<and> q_ready ops q then (q_receive ops q, True, l) else (q, owes, l))"
| "queue_step ops (q, owes, l) Pop =
     (case q_pop ops q of
        (None, q') \<Rightarrow> (q', False, l)
      | (Some v, q') \<Rightarrow> (q', False, l\<lparr>popped := popped l @ [v]\<rparr>))"
| "queue_step ops (q, owes, l) CloseQueue =
     (case q_close ops q of (vs, q') \<Rightarrow> (q', owes, l\<lparr>pending := pending l @ vs\<rparr>))"

definition fifo_ops :: "('a, 'a fifo) queue_ops" where
  "fifo_ops = \<lparr>q_push = fifo_push, q_pop = fifo_pop, q_close = fifo_close, q_ready = fifo_ready,
     q_receive = (\<lambda>q. q\<lparr>fifo_ready := False\<rparr>)\<rparr>"

definition sq_ops :: "('a, 'a streamQueue) queue_ops" where
  "sq_ops = \<lparr>q_push = sq_push, q_pop = sq_tryPop, q_close = sq_close, q_ready = sq_ready,
     q_receive = (\<lambda>q. q\<lparr>sq_ready := False\<rparr>)\<rparr>"

section \<open>The contract of both queues\<close>

locale handoff_queue =
  fixes ops :: "('a, 'q) queue_ops" and items :: "'q \<Rightarrow> 'a list" and is_closed :: "'q \<Rightarrow> bool"
  assumes push_closed: "is_closed q \<Longrightarrow> q_push ops v q = (False, q)"
    and push_open: "\<not> is_closed q \<Longrightarrow> q_push ops v q = (ok, q') \<Longrightarrow>
      ok \<and> items q' = items q @ [v] \<and> q_ready ops q' \<and> \<not> is_closed q'"
    and pop_empty: "items q = [] \<Longrightarrow> q_pop ops q = (None, q)"
    and pop_item: "items q = v # rest \<Longrightarrow> q_pop ops q = (r, q') \<Longrightarrow>
      r = Some v \<and> items q' = rest \<and> (rest \<noteq> [] \<longrightarrow> q_ready ops q') \<and> is_closed q' = is_closed q"
    and close_all: "q_close ops q = (vs, q') \<Longrightarrow> vs = items q \<and> items q' = [] \<and> is_closed q'"
    and receive: "items (q_receive ops q) = items q" "is_closed (q_receive ops q) = is_closed q"
begin

text \<open>
  The invariant of every run: what was accepted is what came out, in order, and what is still
  inside; a closed queue is empty; and a consumer that owes no pop has a token to receive
  when there is something to pop.
\<close>

definition handoff_inv :: "'q \<times> bool \<times> 'a queue_log \<Rightarrow> bool" where
  "handoff_inv s \<longleftrightarrow> (case s of (q, owes, l) \<Rightarrow>
     accepted l = popped l @ pending l @ items q \<and>
     (pending l \<noteq> [] \<longrightarrow> is_closed q) \<and> (is_closed q \<longrightarrow> items q = []) \<and>
     (items q \<noteq> [] \<longrightarrow> owes \<or> q_ready ops q))"

lemma handoff_inv_step:
  assumes "handoff_inv s"
  shows "handoff_inv (queue_step ops s op)"
proof (cases s)
  case (fields q owes l)
  show ?thesis
  proof (cases op)
    case (Push v)
    obtain ok q' where p: "q_push ops v q = (ok, q')" by (cases "q_push ops v q")
    show ?thesis
    proof (cases "is_closed q")
      case True
      then show ?thesis using assms by (simp add: fields Push push_closed handoff_inv_def)
    next
      case False
      from push_open [OF False p] False assms show ?thesis by (auto simp: fields Push p handoff_inv_def)
    qed
  next
    case Await
    then show ?thesis using assms by (simp add: fields handoff_inv_def receive)
  next
    case Pop
    show ?thesis
    proof (cases "items q")
      case Nil
      then show ?thesis using assms by (simp add: fields Pop pop_empty handoff_inv_def)
    next
      case (Cons v rest)
      obtain r q' where p: "q_pop ops q = (r, q')" by (cases "q_pop ops q")
      from pop_item [OF Cons p] Cons assms show ?thesis by (auto simp: fields Pop p handoff_inv_def)
    qed
  next
    case CloseQueue
    obtain vs q' where p: "q_close ops q = (vs, q')" by (cases "q_close ops q")
    from close_all [OF p] assms show ?thesis by (auto simp: fields CloseQueue p handoff_inv_def)
  qed
qed

lemma handoff_inv_run: "handoff_inv s \<Longrightarrow> handoff_inv (foldl (queue_step ops) s cmds)"
  by (induction cmds arbitrary: s) (simp_all add: handoff_inv_step)

lemma handoff_run:
  assumes "foldl (queue_step ops) (q0, owes0, empty_log) cmds = (q, owes, l)"
    and "items q0 = []"
  shows "accepted l = popped l @ pending l @ items q \<and> (is_closed q \<longrightarrow> items q = []) \<and>
    (items q \<noteq> [] \<longrightarrow> owes \<or> q_ready ops q)"
proof -
  have "handoff_inv (q0, owes0, empty_log)" using assms(2) by (simp add: handoff_inv_def empty_log_def)
  from handoff_inv_run [OF this, of cmds] show ?thesis by (simp add: assms(1) handoff_inv_def)
qed

end

lemma fifo_drain_append: "fifo_drain p xs = p @ xs"
  by (induction p xs rule: fifo_drain.induct) simp_all

lemmas fifo_defs = fifo_ops_def fifo_push_def fifo_pop_def fifo_close_def fifo_signal_def newFIFO_def
lemmas sq_defs = sq_ops_def sq_push_def sq_tryPop_def sq_close_def sq_signal_def newStreamQueue_def

interpretation fifo_queue: handoff_queue fifo_ops fifo_items fifo_closed
  by unfold_locales (auto simp: fifo_defs fifo_drain_append Let_def split: if_splits)

interpretation stream_queue: handoff_queue sq_ops sq_items sq_closed
  by unfold_locales (auto simp: sq_defs Let_def split: if_splits)

section \<open>Properties\<close>

text \<open>
  C16 (hand-off queues): in every run of producers, a consumer and closings on either queue,
  from an empty one, what was accepted is, in order, what the consumer popped, what closing
  returned and what is still inside; a closed queue is empty; and whenever something is
  inside, the consumer is about to pop or finds the token when it waits, so no wake-up is lost.
\<close>
theorem handoff_queues:
  "(foldl (queue_step fifo_ops) (newFIFO, owes0, empty_log) cmds = (q, owes, l) \<longrightarrow>
      accepted l = popped l @ pending l @ fifo_items q \<and> (fifo_closed q \<longrightarrow> fifo_items q = []) \<and>
      (fifo_items q \<noteq> [] \<longrightarrow> owes \<or> fifo_ready q)) \<and>
   (foldl (queue_step sq_ops) (newStreamQueue, owes0, empty_log) cmds = (q', owes', l') \<longrightarrow>
      accepted l' = popped l' @ pending l' @ sq_items q' \<and> (sq_closed q' \<longrightarrow> sq_items q' = []) \<and>
      (sq_items q' \<noteq> [] \<longrightarrow> owes' \<or> sq_ready q'))"
proof (intro conjI [OF impI impI])
  have "fifo_items newFIFO = []" by (simp add: newFIFO_def)
  then show "accepted l = popped l @ pending l @ fifo_items q \<and> (fifo_closed q \<longrightarrow> fifo_items q = []) \<and>
      (fifo_items q \<noteq> [] \<longrightarrow> owes \<or> fifo_ready q)"
    if "foldl (queue_step fifo_ops) (newFIFO, owes0, empty_log) cmds = (q, owes, l)"
    using fifo_queue.handoff_run [OF that] unfolding fifo_ops_def queue_ops.simps by blast
  have "sq_items newStreamQueue = []" by (simp add: newStreamQueue_def)
  then show "accepted l' = popped l' @ pending l' @ sq_items q' \<and> (sq_closed q' \<longrightarrow> sq_items q' = []) \<and>
      (sq_items q' \<noteq> [] \<longrightarrow> owes' \<or> sq_ready q')"
    if "foldl (queue_step sq_ops) (newStreamQueue, owes0, empty_log) cmds = (q', owes', l')"
    using stream_queue.handoff_run [OF that] unfolding sq_ops_def queue_ops.simps by blast
qed

theorem handoff_queues_witness:
  "foldl (queue_step fifo_ops) (newFIFO, False, empty_log) [Push (1::nat), Push 2, Await, Pop, CloseQueue, Push 3] =
     (\<lparr>fifo_items = [], fifo_ready = True, fifo_closed = True\<rparr>, False,
      \<lparr>accepted = [1, 2], refused = [3], popped = [1], pending = [2]\<rparr>) \<and>
   accepted \<lparr>accepted = [1, 2], refused = [3], popped = [1], pending = [2 :: nat]\<rparr> = [1] @ [2] @ []"
proof -
  have run: "foldl (queue_step fifo_ops) (newFIFO, False, empty_log) [Push (1::nat), Push 2, Await, Pop, CloseQueue, Push 3] =
     (\<lparr>fifo_items = [], fifo_ready = True, fifo_closed = True\<rparr>, False,
      \<lparr>accepted = [1, 2], refused = [3], popped = [1], pending = [2]\<rparr>)"
    by (simp add: fifo_defs empty_log_def)
  from handoff_queues [THEN conjunct1, rule_format, OF run] run show ?thesis by simp
qed

end
