(* ===== verification/CtrlOut.thy ===== *)
theory CtrlOut
  imports BcastTypes "HOL-Library.AList"
begin

text \<open>
  \<open>src/broadcast/ctrl_out.go\<close>: the state that collects what a peer still has to be told, which
  channels we subscribe to and which sessions are open, until the peer's control loop takes
  the transitions out one by one. Every operation runs under the state's mutex, so it is one
  step. Go maps are association lists without repeated keys; the order in which the runtime
  ranges over the channels is an argument of \<open>next\<close>. \<open>nextOrder\<close> counts sessions, as a
  natural number.
\<close>

section \<open>State\<close>

record channelOut =
  want :: bool
  announced :: bool
  retire :: bool

record sessionOut =
  pendingOpen :: "peerOpenSession option"
  so_open :: bool
  so_routing :: "bytes option"
  closeStream :: bool
  so_close :: bool
  so_order :: nat

record ctrlOutState =
  co_ready :: bool
  co_closed :: bool
  co_channels :: "(ChannelID \<times> channelOut) list"
  co_sessions :: "(sessionKey \<times> sessionOut) list"
  nextOrder :: nat

definition newCtrlOutState :: ctrlOutState where
  "newCtrlOutState = \<lparr>co_ready = False, co_closed = False, co_channels = [], co_sessions = [], nextOrder = 0\<rparr>"

section \<open>Requests\<close>

definition ctrl_signal :: "ctrlOutState \<Rightarrow> ctrlOutState" where
  "ctrl_signal s = s\<lparr>co_ready := True\<rparr>"

definition announceInitial :: "ChannelID list \<Rightarrow> ctrlOutState \<Rightarrow> ctrlOutState" where
  "announceInitial ids s =
     (if co_closed s then s
      else foldl (\<lambda>s i.
        if map_of (co_channels s) i = None
        then s\<lparr>co_channels := AList.update i \<lparr>want = True, announced = True, retire = False\<rparr> (co_channels s)\<rparr>
        else s) s ids)"

text \<open>Withdrawing a channel drops the routing updates that wait for its sessions.\<close>

definition drop_routing :: "ChannelID \<Rightarrow> sessionKey \<times> sessionOut \<Rightarrow> sessionKey \<times> sessionOut" where
  "drop_routing i = (\<lambda>(key, out). (key, if sk_channelID key = i then out\<lparr>so_routing := None\<rparr> else out))"

definition announce :: "ChannelID \<Rightarrow> bool \<Rightarrow> ctrlOutState \<Rightarrow> ctrlOutState" where
  "announce i present s =
     (if co_closed s then s
      else
        let c = (case map_of (co_channels s) i of None \<Rightarrow> \<lparr>want = False, announced = False, retire = False\<rparr> | Some c \<Rightarrow> c) in
        ctrl_signal
          (if present
           then s\<lparr>co_channels := AList.update i (c\<lparr>retire := retire c \<or> (announced c \<and> \<not> want c), want := True\<rparr>) (co_channels s)\<rparr>
           else s\<lparr>co_channels := AList.update i (c\<lparr>want := False\<rparr>) (co_channels s),
                  co_sessions := map (drop_routing i) (co_sessions s)\<rparr>))"

definition ctrl_session :: "sessionKey \<Rightarrow> ctrlOutState \<Rightarrow> sessionOut \<times> ctrlOutState" where
  "ctrl_session key s =
     (case map_of (co_sessions s) key of
        Some out \<Rightarrow> (out, s)
      | None \<Rightarrow>
          let n = nextOrder s + 1;
              out = \<lparr>pendingOpen = None, so_open = False, so_routing = None, closeStream = False, so_close = False, so_order = n\<rparr>
          in (out, s\<lparr>nextOrder := n, co_sessions := AList.update key out (co_sessions s)\<rparr>))"

definition set_session :: "sessionKey \<Rightarrow> sessionOut \<Rightarrow> ctrlOutState \<Rightarrow> ctrlOutState" where
  "set_session key out s = s\<lparr>co_sessions := AList.update key out (co_sessions s)\<rparr>"

definition openSession :: "peerOpenSession \<Rightarrow> ctrlOutState \<Rightarrow> ctrlOutState" where
  "openSession event s =
     (if co_closed s then s
      else
        let key = sessionKey (os_channelID event) (os_messageID event); (out, s) = ctrl_session key s;
            out = (if so_close out then out\<lparr>closeStream := False, so_routing := None, so_close := False\<rparr> else out)
        in ctrl_signal (set_session key (out\<lparr>pendingOpen := Some event\<rparr>) s))"

definition closeSession :: "sessionKey \<Rightarrow> ctrlOutState \<Rightarrow> ctrlOutState" where
  "closeSession key s =
     (if co_closed s then s
      else case ctrl_session key s of (out, s) \<Rightarrow> ctrl_signal (set_session key (out\<lparr>so_close := True\<rparr>) s))"

definition closeSessionStream :: "sessionKey \<Rightarrow> ctrlOutState \<Rightarrow> ctrlOutState" where
  "closeSessionStream key s =
     (if co_closed s then s
      else case ctrl_session key s of (out, s) \<Rightarrow> ctrl_signal (set_session key (out\<lparr>closeStream := True\<rparr>) s))"

text \<open>A \<open>nil\<close> update and an empty one are both the empty list here.\<close>

definition setRouting :: "sessionKey \<Rightarrow> bytes \<Rightarrow> ctrlOutState \<Rightarrow> bool \<times> ctrlOutState" where
  "setRouting key update s =
     (if co_closed s then (False, s)
      else case map_of (co_sessions s) key of
        None \<Rightarrow> (False, s)
      | Some out \<Rightarrow> (True, ctrl_signal (set_session key (out\<lparr>so_routing := Some update\<rparr>) s)))"

definition ctrl_close :: "ctrlOutState \<Rightarrow> ctrlOutState" where
  "ctrl_close s = s\<lparr>co_closed := True, co_channels := [], co_sessions := []\<rparr>"

section \<open>Taking transitions out\<close>

fun firstSession_from :: "(sessionOut \<Rightarrow> bool) \<Rightarrow> (sessionKey \<times> sessionOut) option \<Rightarrow> (sessionKey \<times> sessionOut) list \<Rightarrow>
    (sessionKey \<times> sessionOut) option" where
  "firstSession_from match first [] = first"
| "firstSession_from match first ((key, out) # rest) =
     firstSession_from match
       (if match out \<and> (case first of None \<Rightarrow> True | Some (_, f) \<Rightarrow> so_order out < so_order f)
        then Some (key, out) else first) rest"

definition firstSession :: "(sessionOut \<Rightarrow> bool) \<Rightarrow> ctrlOutState \<Rightarrow> (sessionKey \<times> sessionOut) option" where
  "firstSession match s = firstSession_from match None (co_sessions s)"

lemma firstSession_from_in:
  "firstSession_from match first ss = Some (k, out) \<Longrightarrow> first = Some (k, out) \<or> (k, out) \<in> set ss \<and> match out"
  by (induction match first ss rule: firstSession_from.induct) (auto split: if_splits)

lemma firstSession_in: "firstSession match s = Some (k, out) \<Longrightarrow> (k, out) \<in> set (co_sessions s) \<and> match out"
  unfolding firstSession_def by (drule firstSession_from_in) simp

text \<open>The closed sessions: those that were never opened go without a word.\<close>

lemma delete_shrinks: "(k, v) \<in> set xs \<Longrightarrow> length (AList.delete k xs) < length xs"
  by (induction xs) (auto simp: AList.delete_eq intro: le_imp_less_Suc length_filter_le)

function next_close :: "ctrlOutState \<Rightarrow> sessionKey option \<times> ctrlOutState" where
  "next_close s =
     (case firstSession so_close s of
        None \<Rightarrow> (None, s)
      | Some (key, out) \<Rightarrow>
          if pendingOpen out \<noteq> None \<and> \<not> so_open out then next_close (s\<lparr>co_sessions := AList.delete key (co_sessions s)\<rparr>)
          else if \<not> so_open out then next_close (s\<lparr>co_sessions := AList.delete key (co_sessions s)\<rparr>)
          else
            (Some key,
             if pendingOpen out = None then s\<lparr>co_sessions := AList.delete key (co_sessions s)\<rparr>
             else set_session key (out\<lparr>so_close := False, so_open := False\<rparr>) s))"
  by pat_completeness auto
termination
  by (relation "measure (\<lambda>s. length (co_sessions s))") (auto dest!: firstSession_in intro: delete_shrinks)

declare next_close.simps [simp del]

fun next_unsubscribe :: "ChannelID list \<Rightarrow> ctrlOutState \<Rightarrow> ChannelID option \<times> ctrlOutState" where
  "next_unsubscribe [] s = (None, s)"
| "next_unsubscribe (i # ids) s =
     (case map_of (co_channels s) i of
        None \<Rightarrow> next_unsubscribe ids s
      | Some out \<Rightarrow>
          if \<not> want out \<and> \<not> announced out \<and> \<not> retire out
          then next_unsubscribe ids (s\<lparr>co_channels := AList.delete i (co_channels s)\<rparr>)
          else if retire out \<or> (\<not> want out \<and> announced out)
          then (Some i,
                s\<lparr>co_channels :=
                   if \<not> want out then AList.delete i (co_channels s)
                   else AList.update i (out\<lparr>announced := False, retire := False\<rparr>) (co_channels s)\<rparr>)
          else next_unsubscribe ids s)"

fun next_subscribe :: "ChannelID list \<Rightarrow> ctrlOutState \<Rightarrow> ChannelID option \<times> ctrlOutState" where
  "next_subscribe [] s = (None, s)"
| "next_subscribe (i # ids) s =
     (case map_of (co_channels s) i of
        None \<Rightarrow> next_subscribe ids s
      | Some out \<Rightarrow>
          if want out \<and> \<not> announced out
          then (Some i, s\<lparr>co_channels := AList.update i (out\<lparr>announced := True\<rparr>) (co_channels s)\<rparr>)
          else next_subscribe ids s)"

definition next_open :: "ctrlOutState \<Rightarrow> peerCtrlEvent option \<times> ctrlOutState" where
  "next_open s =
     (case firstSession (\<lambda>out. pendingOpen out \<noteq> None) s of
        Some (key, out) \<Rightarrow>
          (map_option OpenSession (pendingOpen out), set_session key (out\<lparr>pendingOpen := None, so_open := True\<rparr>) s)
      | None \<Rightarrow>
     (case firstSession (\<lambda>out. closeStream out \<and> so_open out) s of
        Some (key, out) \<Rightarrow> (Some (CloseStream key), set_session key (out\<lparr>closeStream := False\<rparr>) s)
      | None \<Rightarrow>
     (case firstSession (\<lambda>out. so_routing out \<noteq> None \<and> so_open out) s of
        Some (key, out) \<Rightarrow>
          (map_option (SendRouting key) (so_routing out), set_session key (out\<lparr>so_routing := None\<rparr>) s)
      | None \<Rightarrow> (None, s))))"

definition ctrl_next :: "(ChannelID list \<Rightarrow> ChannelID list) \<Rightarrow> ctrlOutState \<Rightarrow> peerCtrlEvent option \<times> ctrlOutState" where
  "ctrl_next ord s =
     (if co_closed s then (None, s)
      else case next_close s of
        (Some key, s1) \<Rightarrow> (Some (CloseSession key), s1)
      | (None, s1) \<Rightarrow>
     (case next_unsubscribe (ord (map fst (co_channels s1))) s1 of
        (Some i, s2) \<Rightarrow> (Some (Unsubscribe i), s2)
      | (None, s2) \<Rightarrow>
     (case next_subscribe (ord (map fst (co_channels s2))) s2 of
        (Some i, s3) \<Rightarrow> (Some (Subscribe i), s3)
      | (None, s3) \<Rightarrow> next_open s3)))"

text \<open>
  The inner loop of \<open>runCtrlLoop\<close>: transitions are taken until there is none; \<open>None\<close> when
  \<open>fuel\<close> does not suffice.
\<close>

fun ctrl_drain :: "nat \<Rightarrow> (ChannelID list \<Rightarrow> ChannelID list) \<Rightarrow> ctrlOutState \<Rightarrow> (peerCtrlEvent list \<times> ctrlOutState) option" where
  "ctrl_drain 0 ord s = None"
| "ctrl_drain (Suc fuel) ord s =
     (case ctrl_next ord s of
        (None, s') \<Rightarrow> Some ([], s')
      | (Some ev, s') \<Rightarrow> map_option (\<lambda>(evs, s''). (ev # evs, s'')) (ctrl_drain fuel ord s'))"

section \<open>What each phase does\<close>

abbreviation chan_of :: "ctrlOutState \<Rightarrow> ChannelID \<Rightarrow> channelOut option" where
  "chan_of s \<equiv> map_of (co_channels s)"

abbreviation sess_of :: "ctrlOutState \<Rightarrow> sessionKey \<Rightarrow> sessionOut option" where
  "sess_of s \<equiv> map_of (co_sessions s)"

definition ctrl_wf :: "ctrlOutState \<Rightarrow> bool" where
  "ctrl_wf s \<longleftrightarrow> distinct (map fst (co_channels s)) \<and> distinct (map fst (co_sessions s))"

lemmas alist_simps = AList.update_conv' AList.delete_conv' AList.distinct_update AList.distinct_delete

lemma firstSession_from_None: "firstSession_from match first ss = None \<longleftrightarrow> first = None \<and> (\<forall>(k, out) \<in> set ss. \<not> match out)"
  by (induction match first ss rule: firstSession_from.induct) auto

lemma firstSession_None:
  assumes "ctrl_wf s" "firstSession match s = None" "sess_of s k = Some out"
  shows "\<not> match out"
  using assms map_of_SomeD [OF assms(3)] by (auto simp: firstSession_def firstSession_from_None)

lemma firstSession_Some:
  assumes "ctrl_wf s" "firstSession match s = Some (k, out)"
  shows "sess_of s k = Some out \<and> match out"
  using firstSession_in [OF assms(2)] assms(1) by (simp add: ctrl_wf_def)

lemma firstSession_from_least:
  "firstSession_from match first ss = Some (k, out) \<Longrightarrow>
   (\<forall>(k', out') \<in> set ss. match out' \<longrightarrow> so_order out \<le> so_order out') \<and> (\<forall>k' f. first = Some (k', f) \<longrightarrow> so_order out \<le> so_order f)"
proof (induction match first ss rule: firstSession_from.induct)
  case (2 match first key o' rest)
  let ?first = "if match o' \<and> (case first of None \<Rightarrow> True | Some (_, f) \<Rightarrow> so_order o' < so_order f) then Some (key, o') else first"
  from 2 have "(\<forall>(k', out') \<in> set rest. match out' \<longrightarrow> so_order out \<le> so_order out') \<and>
      (\<forall>k' f. ?first = Some (k', f) \<longrightarrow> so_order out \<le> so_order f)" by simp
  then show ?case by (auto split: if_splits option.splits)
qed simp

lemma next_close_spec:
  assumes "ctrl_wf s" "next_close s = (r, s')"
  shows "ctrl_wf s' \<and> co_channels s' = co_channels s \<and> co_closed s' = co_closed s \<and> co_ready s' = co_ready s \<and>
    (\<forall>k. r \<noteq> Some k \<longrightarrow> sess_of s' k = sess_of s k \<or> (\<exists>out. sess_of s k = Some out \<and> so_close out \<and> \<not> so_open out \<and> sess_of s' k = None)) \<and>
    (case r of
       None \<Rightarrow> \<forall>k out. sess_of s' k = Some out \<longrightarrow> \<not> so_close out
     | Some key \<Rightarrow> \<exists>out. sess_of s key = Some out \<and> so_close out \<and> so_open out \<and>
         sess_of s' key = (if pendingOpen out = None then None else Some (out\<lparr>so_close := False, so_open := False\<rparr>)))"
  using assms
proof (induction s rule: next_close.induct)
  case (1 s)
  show ?case
  proof (cases "firstSession so_close s")
    case None
    then have "r = None" "s' = s" using 1(4) by (simp_all add: next_close.simps [of s])
    then show ?thesis using 1(3) firstSession_None [OF 1(3) None] by simp
  next
    case (Some p)
    obtain key out where p: "p = (key, out)" by (cases p)
    note fs = firstSession_Some [OF 1(3) Some [unfolded p]]
    show ?thesis
    proof (cases "so_open out")
      case False
      let ?t = "s\<lparr>co_sessions := AList.delete key (co_sessions s)\<rparr>"
      have wf: "ctrl_wf ?t" using 1(3) by (simp add: ctrl_wf_def alist_simps)
      have n: "next_close ?t = (r, s')" using 1(4) Some False by (simp add: next_close.simps [of s] p split: if_splits)
      have sess: "sess_of ?t k = (if k = key then None else sess_of s k)" for k by (simp add: alist_simps)
      from False 1(1) [OF Some [unfolded p] refl _ wf n] 1(2) [OF Some [unfolded p] refl _ False wf n]
      have ih: "ctrl_wf s' \<and> co_channels s' = co_channels ?t \<and> co_closed s' = co_closed ?t \<and> co_ready s' = co_ready ?t \<and>
        (\<forall>k. r \<noteq> Some k \<longrightarrow> sess_of s' k = sess_of ?t k \<or> (\<exists>out. sess_of ?t k = Some out \<and> so_close out \<and> \<not> so_open out \<and> sess_of s' k = None)) \<and>
        (case r of None \<Rightarrow> \<forall>k out. sess_of s' k = Some out \<longrightarrow> \<not> so_close out
         | Some key \<Rightarrow> \<exists>out. sess_of ?t key = Some out \<and> so_close out \<and> so_open out \<and>
             sess_of s' key = (if pendingOpen out = None then None else Some (out\<lparr>so_close := False, so_open := False\<rparr>)))"
        by (cases "pendingOpen out \<noteq> None \<and> \<not> so_open out") blast+
      then show ?thesis using fs False unfolding sess by (auto split: option.splits if_splits)
    next
      case True
      then have r: "r = Some key" "s' = (if pendingOpen out = None then s\<lparr>co_sessions := AList.delete key (co_sessions s)\<rparr>
             else set_session key (out\<lparr>so_close := False, so_open := False\<rparr>) s)"
        using 1(4) Some by (simp_all add: next_close.simps [of s] p)
      have "ctrl_wf s'" using 1(3) by (simp add: r set_session_def ctrl_wf_def alist_simps)
      moreover have "sess_of s' key = (if pendingOpen out = None then None else Some (out\<lparr>so_close := False, so_open := False\<rparr>))"
        by (simp add: r set_session_def alist_simps)
      moreover have "sess_of s' k = sess_of s k" if "r \<noteq> Some k" for k
        using that by (simp add: r set_session_def alist_simps)
      moreover have "co_channels s' = co_channels s \<and> co_closed s' = co_closed s \<and> co_ready s' = co_ready s"
        by (simp add: r set_session_def)
      ultimately show ?thesis using fs True r(1) by auto
    qed
  qed
qed

lemma next_unsubscribe_spec:
  assumes "ctrl_wf s" "next_unsubscribe ids s = (r, s')"
  shows "ctrl_wf s' \<and> co_sessions s' = co_sessions s \<and> co_closed s' = co_closed s \<and> co_ready s' = co_ready s \<and>
    (\<forall>i. r \<noteq> Some i \<longrightarrow> chan_of s' i = chan_of s i \<or>
       (\<exists>out. chan_of s i = Some out \<and> \<not> want out \<and> \<not> announced out \<and> \<not> retire out \<and> chan_of s' i = None)) \<and>
    (case r of
       None \<Rightarrow> \<forall>i \<in> set ids. \<forall>out. chan_of s' i = Some out \<longrightarrow> \<not> retire out \<and> (announced out \<longrightarrow> want out)
     | Some i \<Rightarrow> \<exists>out. chan_of s i = Some out \<and> (retire out \<or> \<not> want out \<and> announced out) \<and>
         chan_of s' i = (if \<not> want out then None else Some (out\<lparr>announced := False, retire := False\<rparr>)))"
  using assms
proof (induction ids s rule: next_unsubscribe.induct)
  case (2 i ids s)
  show ?case
  proof (cases "chan_of s i")
    case None
    then have n: "next_unsubscribe ids s = (r, s')" using 2(5) by simp
    note ih = 2(1) [OF None 2(4) n]
    have "chan_of s' i = None" if "r = None" using ih None that by (metis option.distinct(1))
    then show ?thesis using ih by (cases r) simp_all
  next
    case (Some out)
    show ?thesis
    proof (cases "\<not> want out \<and> \<not> announced out \<and> \<not> retire out")
      case True
      let ?t = "s\<lparr>co_channels := AList.delete i (co_channels s)\<rparr>"
      have wf: "ctrl_wf ?t" using 2(4) by (simp add: ctrl_wf_def alist_simps)
      have n: "next_unsubscribe ids ?t = (r, s')" using 2(5) Some True by simp
      have chan: "chan_of ?t j = (if j = i then None else chan_of s j)" for j by (simp add: alist_simps)
      note ih = 2(2) [OF Some True wf n, unfolded chan]
      have "chan_of s' i = None" if "r = None" using ih that by (metis option.distinct(1))
      then show ?thesis using ih Some True by (cases r) (auto split: if_splits)
    next
      case False
      show ?thesis
      proof (cases "retire out \<or> \<not> want out \<and> announced out")
        case True
        then have r: "r = Some i" "s' = s\<lparr>co_channels := if \<not> want out then AList.delete i (co_channels s)
             else AList.update i (out\<lparr>announced := False, retire := False\<rparr>) (co_channels s)\<rparr>"
          using 2(5) Some False by simp_all
        have "ctrl_wf s'" using 2(4) by (simp add: r ctrl_wf_def alist_simps)
        moreover have "chan_of s' i = (if \<not> want out then None else Some (out\<lparr>announced := False, retire := False\<rparr>))"
          by (simp add: r alist_simps)
        moreover have "chan_of s' j = chan_of s j" if "r \<noteq> Some j" for j using that by (simp add: r alist_simps)
        ultimately show ?thesis using True Some r by auto
      next
        case False2: False
        have n: "next_unsubscribe ids s = (r, s')" using 2(5) Some False False2 by simp
        note ih = 2(3) [OF Some False False2 2(4) n]
        have "chan_of s' i = Some out" if "r = None" using ih Some False that by (metis option.distinct(1) option.inject)
        then show ?thesis using ih False2 by (cases r) auto
      qed
    qed
  qed
qed simp

lemma next_subscribe_spec:
  assumes "ctrl_wf s" "next_subscribe ids s = (r, s')"
  shows "ctrl_wf s' \<and> co_sessions s' = co_sessions s \<and> co_closed s' = co_closed s \<and> co_ready s' = co_ready s \<and>
    (\<forall>i. r \<noteq> Some i \<longrightarrow> chan_of s' i = chan_of s i) \<and>
    (case r of
       None \<Rightarrow> s' = s \<and> (\<forall>i \<in> set ids. \<forall>out. chan_of s i = Some out \<longrightarrow> want out \<longrightarrow> announced out)
     | Some i \<Rightarrow> \<exists>out. chan_of s i = Some out \<and> want out \<and> \<not> announced out \<and> chan_of s' i = Some (out\<lparr>announced := True\<rparr>))"
  using assms
proof (induction ids s rule: next_subscribe.induct)
  case (2 i ids s)
  show ?case
  proof (cases "chan_of s i")
    case None
    with 2 show ?thesis by (auto split: option.splits)
  next
    case (Some out)
    show ?thesis
    proof (cases "want out \<and> \<not> announced out")
      case True
      then have r: "r = Some i" "s' = s\<lparr>co_channels := AList.update i (out\<lparr>announced := True\<rparr>) (co_channels s)\<rparr>"
        using 2(4) Some by simp_all
      have "ctrl_wf s'" using 2(3) by (simp add: r ctrl_wf_def alist_simps)
      then show ?thesis using True Some r by (auto simp: alist_simps)
    next
      case False
      with 2 Some show ?thesis by (auto split: option.splits)
    qed
  qed
qed simp

lemma next_open_spec:
  assumes "ctrl_wf s" "next_open s = (r, s')"
  shows "ctrl_wf s' \<and> co_channels s' = co_channels s \<and> co_closed s' = co_closed s \<and> co_ready s' = co_ready s \<and>
    (case r of
       None \<Rightarrow> s' = s \<and> (\<forall>k out. sess_of s k = Some out \<longrightarrow> pendingOpen out = None \<and> \<not> (closeStream out \<and> so_open out) \<and>
         \<not> (so_routing out \<noteq> None \<and> so_open out))
     | Some ev \<Rightarrow> \<exists>key out out'. sess_of s key = Some out \<and> (\<forall>k. sess_of s' k = (if k = key then Some out' else sess_of s k)) \<and>
         ((\<exists>e. ev = OpenSession e \<and> pendingOpen out = Some e \<and> out' = out\<lparr>pendingOpen := None, so_open := True\<rparr>) \<or>
          (ev = CloseStream key \<and> so_open out \<and> closeStream out \<and> out' = out\<lparr>closeStream := False\<rparr>) \<or>
          (\<exists>u. ev = SendRouting key u \<and> so_open out \<and> so_routing out = Some u \<and> out' = out\<lparr>so_routing := None\<rparr>)))"
proof -
  have wf: "ctrl_wf (set_session key out s)" for key out
    using assms(1) by (simp add: set_session_def ctrl_wf_def alist_simps)
  have upd: "sess_of (set_session key out s) k = (if k = key then Some out else sess_of s k)" for key out k
    by (simp add: set_session_def alist_simps)
  show ?thesis
  proof (cases "firstSession (\<lambda>out. pendingOpen out \<noteq> None) s")
    case (Some p)
    obtain key out where p: "p = (key, out)" by (cases p)
    from firstSession_Some [OF assms(1) Some [unfolded p]] obtain e where
      "sess_of s key = Some out" "pendingOpen out = Some e" by auto
    with assms(2) Some p show ?thesis
      by (auto simp: next_open_def wf upd intro!: exI [of _ key]) (simp_all add: set_session_def)
  next
    case n1: None
    show ?thesis
    proof (cases "firstSession (\<lambda>out. closeStream out \<and> so_open out) s")
      case (Some p)
      obtain key out where p: "p = (key, out)" by (cases p)
      from firstSession_Some [OF assms(1) Some [unfolded p]] assms(2) n1 Some p show ?thesis
        by (auto simp: next_open_def wf upd intro!: exI [of _ key]) (simp_all add: set_session_def)
    next
      case n2: None
      show ?thesis
      proof (cases "firstSession (\<lambda>out. so_routing out \<noteq> None \<and> so_open out) s")
        case (Some p)
        obtain key out where p: "p = (key, out)" by (cases p)
        from firstSession_Some [OF assms(1) Some [unfolded p]] assms(2) n1 n2 Some p show ?thesis
          by (auto simp: next_open_def wf upd intro!: exI [of _ key]) (simp_all add: set_session_def)
      next
        case None
        then have "r = None" "s' = s" using assms(2) n1 n2 by (simp_all add: next_open_def)
        then show ?thesis using assms(1) firstSession_None [OF assms(1) n1] firstSession_None [OF assms(1) n2]
            firstSession_None [OF assms(1) None] by auto
      qed
    qed
  qed
qed

section \<open>What the peer has been told\<close>

text \<open>
  The channels the peer believes we subscribe to and those we want, and the sessions that are
  open at the peer's loop and those that should be.
\<close>

definition told_channels :: "ctrlOutState \<Rightarrow> ChannelID set" where
  "told_channels s = {i. \<exists>out. chan_of s i = Some out \<and> announced out}"

definition wanted_channels :: "ctrlOutState \<Rightarrow> ChannelID set" where
  "wanted_channels s = {i. \<exists>out. chan_of s i = Some out \<and> want out}"

definition open_sessions :: "ctrlOutState \<Rightarrow> sessionKey set" where
  "open_sessions s = {k. \<exists>out. sess_of s k = Some out \<and> so_open out}"

definition live_sessions :: "ctrlOutState \<Rightarrow> sessionKey set" where
  "live_sessions s = {k. \<exists>out. sess_of s k = Some out \<and> \<not> so_close out \<and> (pendingOpen out \<noteq> None \<or> so_open out)}"

text \<open>
  A session is overtaken when it is closed while a first open has reached the peer's loop and
  a second one still waits.
\<close>

definition overtaken :: "sessionKey \<Rightarrow> ctrlOutState \<Rightarrow> bool" where
  "overtaken k s \<longleftrightarrow> (\<exists>out. sess_of s k = Some out \<and> so_close out \<and> so_open out \<and> pendingOpen out \<noteq> None)"

abbreviation open_key :: "peerOpenSession \<Rightarrow> sessionKey" where
  "open_key e \<equiv> sessionKey (os_channelID e) (os_messageID e)"

definition ctrl_ok :: "ctrlOutState \<Rightarrow> bool" where
  "ctrl_ok s \<longleftrightarrow> ctrl_wf s \<and>
     (\<forall>k out e. sess_of s k = Some out \<longrightarrow> pendingOpen out = Some e \<longrightarrow> open_key e = k) \<and>
     (\<forall>i out. chan_of s i = Some out \<longrightarrow> retire out \<longrightarrow> announced out)"

fun told :: "peerCtrlEvent \<Rightarrow> ChannelID set \<Rightarrow> ChannelID set" where
  "told (Subscribe i) C = insert i C"
| "told (Unsubscribe i) C = C - {i}"
| "told _ C = C"

fun opened :: "peerCtrlEvent \<Rightarrow> sessionKey set \<Rightarrow> sessionKey set" where
  "opened (OpenSession e) K = insert (open_key e) K"
| "opened (CloseSession k) K = K - {k}"
| "opened _ K = K"

text \<open>An event that makes sense to a peer in that state.\<close>

fun in_order :: "peerCtrlEvent \<Rightarrow> ChannelID set \<Rightarrow> sessionKey set \<Rightarrow> bool" where
  "in_order (Subscribe i) C K \<longleftrightarrow> i \<notin> C"
| "in_order (Unsubscribe i) C K \<longleftrightarrow> i \<in> C"
| "in_order (OpenSession e) C K \<longleftrightarrow> True"
| "in_order (CloseSession k) C K \<longleftrightarrow> k \<in> K"
| "in_order (CloseStream k) C K \<longleftrightarrow> k \<in> K"
| "in_order (SendRouting k u) C K \<longleftrightarrow> k \<in> K"

lemma views_cong:
  "co_channels s' = co_channels s \<Longrightarrow> told_channels s' = told_channels s \<and> wanted_channels s' = wanted_channels s"
  "co_sessions s' = co_sessions s \<Longrightarrow> open_sessions s' = open_sessions s \<and> live_sessions s' = live_sessions s"
  by (simp_all add: told_channels_def wanted_channels_def open_sessions_def live_sessions_def)

lemma ctrl_okI:
  assumes "ctrl_wf s"
    and "\<And>k out e. sess_of s k = Some out \<Longrightarrow> pendingOpen out = Some e \<Longrightarrow> open_key e = k"
    and "\<And>i out. chan_of s i = Some out \<Longrightarrow> retire out \<Longrightarrow> announced out"
  shows "ctrl_ok s"
  using assms by (auto simp: ctrl_ok_def)

lemma ctrl_okD:
  assumes "ctrl_ok s"
  shows "ctrl_wf s"
    and "\<And>k out e. sess_of s k = Some out \<Longrightarrow> pendingOpen out = Some e \<Longrightarrow> open_key e = k"
    and "\<And>i out. chan_of s i = Some out \<Longrightarrow> retire out \<Longrightarrow> announced out"
  using assms by (auto simp: ctrl_ok_def)

text \<open>The phase that closes sessions.\<close>

lemma next_close_other:
  assumes "ctrl_ok s" "next_close s = (r, s')" "r \<noteq> Some k"
  obtains "sess_of s' k = sess_of s k"
    | out where "sess_of s k = Some out" "so_close out" "\<not> so_open out" "sess_of s' k = None"
  using next_close_spec [OF ctrl_okD(1) [OF assms(1)] assms(2)] assms(3) by blast

lemma next_close_ctrl_ok:
  assumes "ctrl_ok s" "next_close s = (r, s')"
  shows "ctrl_ok s'" "overtaken k s' \<Longrightarrow> overtaken k s"
proof -
  note sp = next_close_spec [OF ctrl_okD(1) [OF assms(1)] assms(2)]
  have pend: "\<exists>out0. sess_of s k = Some out0 \<and> pendingOpen out0 = pendingOpen out" if "sess_of s' k = Some out" for k out
  proof (cases "r = Some k")
    case True
    then show ?thesis using sp that by (auto split: if_splits)
  next
    case False
    from assms False show ?thesis by (rule next_close_other) (metis that, metis that option.distinct(1))
  qed
  show "ctrl_ok s'"
  proof (rule ctrl_okI)
    show "ctrl_wf s'" using sp by blast
    show "open_key e = k" if "sess_of s' k = Some out" "pendingOpen out = Some e" for k out e
      using pend [OF that(1)] ctrl_okD(2) [OF assms(1)] that(2) by auto
    show "announced out" if "chan_of s' i = Some out" "retire out" for i out
      using sp that ctrl_okD(3) [OF assms(1)] by auto
  qed
  show "overtaken k s" if "overtaken k s'"
  proof (cases "r = Some k")
    case True
    then show ?thesis using sp that by (auto simp: overtaken_def split: if_splits)
  next
    case False
    from assms False show ?thesis by (rule next_close_other) (use that in \<open>simp_all add: overtaken_def\<close>)
  qed
qed

lemma next_close_ok:
  assumes "ctrl_ok s" "next_close s = (r, s')"
  shows "co_channels s' = co_channels s \<and>
    (case r of
       None \<Rightarrow> open_sessions s' = open_sessions s \<and> live_sessions s' = live_sessions s \<and> (\<forall>k out. sess_of s' k = Some out \<longrightarrow> \<not> so_close out)
     | Some key \<Rightarrow> key \<in> open_sessions s \<and> open_sessions s' = open_sessions s - {key} \<and>
         live_sessions s' = (if overtaken key s then insert key (live_sessions s) else live_sessions s))"
proof -
  note sp = next_close_spec [OF ctrl_okD(1) [OF assms(1)] assms(2)]
  have same: "(k \<in> open_sessions s' \<longleftrightarrow> k \<in> open_sessions s) \<and> (k \<in> live_sessions s' \<longleftrightarrow> k \<in> live_sessions s)" if "r \<noteq> Some k" for k
    using assms that by (rule next_close_other) (simp_all add: open_sessions_def live_sessions_def)
  show ?thesis
  proof (cases r)
    case None
    then have "open_sessions s' = open_sessions s" "live_sessions s' = live_sessions s" using same by auto
    then show ?thesis using sp None by simp
  next
    case (Some key)
    then obtain out where out: "sess_of s key = Some out" "so_close out" "so_open out"
      "sess_of s' key = (if pendingOpen out = None then None else Some (out\<lparr>so_close := False, so_open := False\<rparr>))"
      using sp by auto
    have k: "key \<in> open_sessions s" "key \<notin> open_sessions s'" "key \<notin> live_sessions s"
      "key \<in> live_sessions s' \<longleftrightarrow> overtaken key s"
      using out by (auto simp: open_sessions_def live_sessions_def overtaken_def split: if_splits)
    have "k \<in> open_sessions s' \<longleftrightarrow> k \<in> open_sessions s - {key}" for k
      using same [of k] k(2) Some by (cases "k = key") simp_all
    then have "open_sessions s' = open_sessions s - {key}" by blast
    moreover have "k \<in> live_sessions s' \<longleftrightarrow> k \<in> (if overtaken key s then insert key (live_sessions s) else live_sessions s)" for k
      using same [of k] k(3,4) Some by (cases "k = key") simp_all
    then have "live_sessions s' = (if overtaken key s then insert key (live_sessions s) else live_sessions s)" by blast
    ultimately show ?thesis using sp Some k(1) by simp
  qed
qed

text \<open>The phases that withdraw and announce channels.\<close>

lemma next_unsubscribe_ok:
  assumes "ctrl_ok s" "next_unsubscribe ids s = (r, s')" "set ids = dom (chan_of s)"
  shows "ctrl_ok s' \<and> co_sessions s' = co_sessions s \<and> wanted_channels s' = wanted_channels s \<and>
    (case r of
       None \<Rightarrow> told_channels s' = told_channels s \<and> (\<forall>i out. chan_of s' i = Some out \<longrightarrow> announced out \<longrightarrow> want out)
     | Some i \<Rightarrow> i \<in> told_channels s \<and> told_channels s' = told_channels s - {i})"
proof -
  note sp = next_unsubscribe_spec [OF ctrl_okD(1) [OF assms(1)] assms(2)]
  have other: "chan_of s' i = chan_of s i \<or>
       (\<exists>out. chan_of s i = Some out \<and> \<not> want out \<and> \<not> announced out \<and> \<not> retire out \<and> chan_of s' i = None)"
    if "r \<noteq> Some i" for i using sp that by blast
  have same: "(i \<in> told_channels s' \<longleftrightarrow> i \<in> told_channels s) \<and> (i \<in> wanted_channels s' \<longleftrightarrow> i \<in> wanted_channels s)" if "r \<noteq> Some i" for i
    using other [OF that] by (elim disjE exE conjE) (simp_all add: told_channels_def wanted_channels_def)
  have ok: "ctrl_ok s'"
  proof (rule ctrl_okI)
    show "ctrl_wf s'" using sp by blast
    show "open_key e = k" if "sess_of s' k = Some out" "pendingOpen out = Some e" for k out e
      using sp that ctrl_okD(2) [OF assms(1)] by auto
    show "announced out" if "chan_of s' i = Some out" "retire out" for i out
    proof (cases "r = Some i")
      case True
      then show ?thesis using sp that by (auto split: if_splits)
    next
      case False
      from other [OF False] that ctrl_okD(3) [OF assms(1)] show ?thesis by (elim disjE exE conjE) simp_all
    qed
  qed
  show ?thesis
  proof (cases r)
    case None
    then have "told_channels s' = told_channels s" "wanted_channels s' = wanted_channels s" using same by auto
    moreover have "want out" if "chan_of s' i = Some out" "announced out" for i out
    proof -
      have "chan_of s i \<noteq> None" using other [of i] None that(1) by (metis option.distinct(1))
      then have "i \<in> set ids" using assms(3) by blast
      then show ?thesis using sp None that by auto
    qed
    ultimately show ?thesis using ok sp None by auto
  next
    case (Some i)
    then obtain out where out: "chan_of s i = Some out" "retire out \<or> \<not> want out \<and> announced out"
         "chan_of s' i = (if \<not> want out then None else Some (out\<lparr>announced := False, retire := False\<rparr>))"
      using sp by auto
    have k: "i \<in> told_channels s" "i \<notin> told_channels s'" "i \<in> wanted_channels s' \<longleftrightarrow> i \<in> wanted_channels s"
      using out ctrl_okD(3) [OF assms(1) out(1)] by (auto simp: told_channels_def wanted_channels_def)
    have "j \<in> wanted_channels s' \<longleftrightarrow> j \<in> wanted_channels s" for j using same [of j] k(3) Some by (cases "j = i") simp_all
    moreover have "j \<in> told_channels s' \<longleftrightarrow> j \<in> told_channels s - {i}" for j using same [of j] k(2) Some by (cases "j = i") simp_all
    ultimately show ?thesis using ok sp Some k(1) by (simp add: set_eq_iff)
  qed
qed

lemma next_subscribe_ok:
  assumes "ctrl_ok s" "next_subscribe ids s = (r, s')" "set ids = dom (chan_of s)"
  shows "ctrl_ok s' \<and> co_sessions s' = co_sessions s \<and> wanted_channels s' = wanted_channels s \<and>
    (case r of
       None \<Rightarrow> s' = s \<and> wanted_channels s \<subseteq> told_channels s
     | Some i \<Rightarrow> i \<notin> told_channels s \<and> told_channels s' = insert i (told_channels s))"
proof (cases r)
  case None
  with next_subscribe_spec [OF ctrl_okD(1) [OF assms(1)] assms(2)] assms(1,3) show ?thesis
    by (auto simp: told_channels_def wanted_channels_def Ball_def dom_def)
next
  case (Some i)
  note sp = next_subscribe_spec [OF ctrl_okD(1) [OF assms(1)] assms(2)]
  from sp Some obtain out where out: "chan_of s i = Some out" "want out" "\<not> announced out" "chan_of s' i = Some (out\<lparr>announced := True\<rparr>)"
    by auto
  have other: "chan_of s' j = chan_of s j" if "j \<noteq> i" for j using sp Some that by auto
  have "ctrl_ok s'"
  proof (rule ctrl_okI)
    show "ctrl_wf s'" using sp by blast
    show "open_key e = k" if "sess_of s' k = Some out" "pendingOpen out = Some e" for k out e
      using sp that ctrl_okD(2) [OF assms(1)] by auto
    show "announced o'" if "chan_of s' j = Some o'" "retire o'" for j o'
      using that out other [of j] ctrl_okD(3) [OF assms(1)] by (cases "j = i") auto
  qed
  moreover have "j \<in> wanted_channels s' \<longleftrightarrow> j \<in> wanted_channels s" for j
    using out other [of j] by (cases "j = i") (simp_all add: wanted_channels_def)
  moreover have "j \<in> told_channels s' \<longleftrightarrow> j \<in> insert i (told_channels s)" for j
    using out other [of j] by (cases "j = i") (simp_all add: told_channels_def)
  moreover have "i \<notin> told_channels s" using out by (simp add: told_channels_def)
  ultimately show ?thesis using sp Some by (simp add: set_eq_iff)
qed

text \<open>The phases that open sessions, end their streams and send routing updates.\<close>

lemma next_open_ok:
  assumes "ctrl_ok s" "next_open s = (r, s')" "\<forall>k out. sess_of s k = Some out \<longrightarrow> \<not> so_close out"
  shows "ctrl_ok s' \<and> co_channels s' = co_channels s \<and> live_sessions s' = live_sessions s \<and> (\<forall>k. \<not> overtaken k s') \<and>
    (case r of
       None \<Rightarrow> s' = s \<and> open_sessions s = live_sessions s
     | Some ev \<Rightarrow> open_sessions s' = opened ev (open_sessions s) \<and> in_order ev C (open_sessions s) \<and> told ev C = C \<and> (\<forall>k. ev \<noteq> CloseSession k))"
proof (cases r)
  case None
  with next_open_spec [OF ctrl_okD(1) [OF assms(1)] assms(2)] assms show ?thesis
    by (auto simp: open_sessions_def live_sessions_def overtaken_def)
next
  case (Some ev)
  note sp = next_open_spec [OF ctrl_okD(1) [OF assms(1)] assms(2)]
  with Some obtain key out out' where k: "sess_of s key = Some out" "\<And>k. sess_of s' k = (if k = key then Some out' else sess_of s k)"
    and c: "(\<exists>e. ev = OpenSession e \<and> pendingOpen out = Some e \<and> out' = out\<lparr>pendingOpen := None, so_open := True\<rparr>) \<or>
          (ev = CloseStream key \<and> so_open out \<and> closeStream out \<and> out' = out\<lparr>closeStream := False\<rparr>) \<or>
          (\<exists>u. ev = SendRouting key u \<and> so_open out \<and> so_routing out = Some u \<and> out' = out\<lparr>so_routing := None\<rparr>)"
    by auto
  from c have c': "so_close out' = so_close out" "pendingOpen out' = pendingOpen out \<or> pendingOpen out' = None" "so_open out' \<longleftrightarrow> pendingOpen out' \<noteq> pendingOpen out \<or> so_open out"
    by auto
  have "ctrl_ok s'"
  proof (rule ctrl_okI)
    show "ctrl_wf s'" using sp by blast
    show "open_key e = j" if "sess_of s' j = Some o'" "pendingOpen o' = Some e" for j o' e
      using that k c'(2) ctrl_okD(2) [OF assms(1)] by (auto split: if_splits)
    show "announced o'" if "chan_of s' i = Some o'" "retire o'" for i o'
      using sp that ctrl_okD(3) [OF assms(1)] by auto
  qed
  moreover have "\<not> overtaken j s'" for j using assms(3) k c' by (auto simp: overtaken_def split: if_splits)
  moreover have "j \<in> live_sessions s' \<longleftrightarrow> j \<in> live_sessions s" for j
    using assms(3) k c' by (cases "j = key"; cases "pendingOpen out") (auto simp: live_sessions_def)
  moreover have "j \<in> open_sessions s' \<longleftrightarrow> j \<in> opened ev (open_sessions s)" for j
    using c k ctrl_okD(2) [OF assms(1) k(1)] by (cases "j = key") (auto simp: open_sessions_def)
  moreover have "in_order ev C (open_sessions s) \<and> told ev C = C \<and> (\<forall>k. ev \<noteq> CloseSession k)"
    using c k(1) by (auto simp: open_sessions_def)
  ultimately show ?thesis using sp Some by (simp add: set_eq_iff)
qed

definition reopened :: "peerCtrlEvent \<Rightarrow> ctrlOutState \<Rightarrow> sessionKey set" where
  "reopened ev s = {k. ev = CloseSession k \<and> overtaken k s}"

lemma ctrl_next_ok:
  assumes "ctrl_ok s" "\<not> co_closed s" "\<And>xs. set (ord xs) = set xs" "ctrl_next ord s = (r, s')"
  shows "ctrl_ok s' \<and> co_closed s' = co_closed s \<and> co_ready s' = co_ready s \<and> wanted_channels s' = wanted_channels s \<and>
    (\<forall>k. overtaken k s' \<longrightarrow> overtaken k s) \<and>
    (case r of
       None \<Rightarrow> told_channels s' = told_channels s \<and> open_sessions s' = open_sessions s \<and> live_sessions s' = live_sessions s \<and>
         told_channels s = wanted_channels s \<and> open_sessions s = live_sessions s
     | Some ev \<Rightarrow> told_channels s' = told ev (told_channels s) \<and> open_sessions s' = opened ev (open_sessions s) \<and>
         live_sessions s' = live_sessions s \<union> reopened ev s \<and> in_order ev (told_channels s) (open_sessions s))"
proof -
  obtain r1 s1 where n1: "next_close s = (r1, s1)" by (cases "next_close s")
  note c1 = next_close_ctrl_ok [OF assms(1) n1] next_close_ok [OF assms(1) n1]
  note f1 = next_close_spec [OF ctrl_okD(1) [OF assms(1)] n1]
  show ?thesis
  proof (cases r1)
    case (Some key)
    then have "r = Some (CloseSession key)" "s' = s1" using assms(2,4) n1 by (simp_all add: ctrl_next_def)
    then show ?thesis using Some c1 f1 views_cong(1) [of s1 s] by (auto simp: reopened_def)
  next
    case r1: None
    obtain r2 s2 where n2: "next_unsubscribe (ord (map fst (co_channels s1))) s1 = (r2, s2)"
      by (cases "next_unsubscribe (ord (map fst (co_channels s1))) s1")
    note c2 = next_unsubscribe_ok [OF c1(1) n2, unfolded assms(3) dom_map_of_conv_image_fst, simplified]
    note f2 = next_unsubscribe_spec [OF ctrl_okD(1) [OF c1(1)] n2]
    show ?thesis
    proof (cases r2)
      case (Some i)
      then have "r = Some (Unsubscribe i)" "s' = s2" using assms(2,4) n1 n2 r1 by (simp_all add: ctrl_next_def)
      then show ?thesis using Some r1 c1 c2 f1 f2 views_cong(1) [of s1 s] views_cong(2) [of s2 s1]
        by (auto simp: reopened_def overtaken_def)
    next
      case r2: None
      obtain r3 s3 where n3: "next_subscribe (ord (map fst (co_channels s2))) s2 = (r3, s3)"
        by (cases "next_subscribe (ord (map fst (co_channels s2))) s2")
      have ok2: "ctrl_ok s2" using c2 by blast
      note c3 = next_subscribe_ok [OF ok2 n3, unfolded assms(3) dom_map_of_conv_image_fst, simplified]
      note f3 = next_subscribe_spec [OF ctrl_okD(1) [OF ok2] n3]
      show ?thesis
      proof (cases r3)
        case (Some i)
        then have "r = Some (Subscribe i)" "s' = s3" using assms(2,4) n1 n2 n3 r1 r2 by (simp_all add: ctrl_next_def)
        then show ?thesis using Some r1 r2 c1 c2 c3 f1 f2 f3 views_cong(1) [of s1 s] views_cong(2) [of s2 s1] views_cong(2) [of s3 s2]
          by (auto simp: reopened_def overtaken_def)
      next
        case r3: None
        have n4: "next_open s3 = (r, s')" using assms(2,4) n1 n2 n3 r1 r2 r3 by (simp add: ctrl_next_def)
        have ok3: "ctrl_ok s3" and nc: "\<forall>k out. sess_of s3 k = Some out \<longrightarrow> \<not> so_close out"
          using c1 c2 c3 r1 f2 f3 by auto
        note c4 = next_open_ok [OF ok3 n4 nc, where C = "told_channels s"]
        note f4 = next_open_spec [OF ctrl_okD(1) [OF ok3] n4]
        have "want out" if "chan_of s2 i = Some out" "announced out" for i out using c2 r2 that by simp
        then have "told_channels s2 \<subseteq> wanted_channels s2" by (auto simp: told_channels_def wanted_channels_def)
        then have told: "told_channels s3 = wanted_channels s3" using c3 r3 by auto
        show ?thesis using c1 c2 c3 c4 f1 f2 f3 f4 r1 r2 r3 told views_cong(1) [of s1 s] views_cong(1) [of s' s3]
            views_cong(2) [of s2 s1] views_cong(2) [of s3 s2]
          by (cases r) (auto simp: reopened_def)
      qed
    qed
  qed
qed

section \<open>Requests\<close>

lemma map_drop_routing:
  "map_of (map (drop_routing i) xs) k = map_option (\<lambda>out. if sk_channelID k = i then out\<lparr>so_routing := None\<rparr> else out) (map_of xs k)"
  by (induction xs) (auto simp: drop_routing_def)

lemma announce_ok:
  assumes "ctrl_ok s" "\<not> co_closed s"
  shows "ctrl_ok (announce i b s) \<and> co_ready (announce i b s) \<and> \<not> co_closed (announce i b s) \<and>
    told_channels (announce i b s) = told_channels s \<and>
    wanted_channels (announce i b s) = (if b then insert i (wanted_channels s) else wanted_channels s - {i}) \<and>
    open_sessions (announce i b s) = open_sessions s \<and> live_sessions (announce i b s) = live_sessions s \<and>
    overtaken k (announce i b s) = overtaken k s"
proof -
  define c where "c = (case chan_of s i of None \<Rightarrow> \<lparr>want = False, announced = False, retire = False\<rparr> | Some c \<Rightarrow> c)"
  define c' where "c' = (if b then c\<lparr>retire := retire c \<or> (announced c \<and> \<not> want c), want := True\<rparr> else c\<lparr>want := False\<rparr>)"
  let ?s = "announce i b s"
  have eq: "?s = s\<lparr>co_ready := True, co_channels := AList.update i c' (co_channels s),
      co_sessions := if b then co_sessions s else map (drop_routing i) (co_sessions s)\<rparr>"
    using assms(2) by (simp add: announce_def ctrl_signal_def c_def [symmetric] c'_def Let_def)
  have drop: "fst \<circ> drop_routing i = fst" by (simp add: drop_routing_def comp_def split_beta)
  have sess: "sess_of ?s j = (if b then sess_of s j else map_option (\<lambda>out. if sk_channelID j = i then out\<lparr>so_routing := None\<rparr> else out) (sess_of s j))" for j
    by (simp add: eq map_drop_routing)
  have chan: "chan_of ?s j = (if j = i then Some c' else chan_of s j)" for j by (simp add: eq alist_simps)
  have c: "announced c \<longleftrightarrow> i \<in> told_channels s" "retire c \<Longrightarrow> announced c"
    using ctrl_okD(3) [OF assms(1)] by (auto simp: c_def told_channels_def split: option.splits)
  have ok: "ctrl_ok ?s"
  proof (rule ctrl_okI)
    show "ctrl_wf ?s" using ctrl_okD(1) [OF assms(1)] by (simp add: eq ctrl_wf_def alist_simps drop)
    show "open_key e = j" if "sess_of ?s j = Some out" "pendingOpen out = Some e" for j out e
      using that ctrl_okD(2) [OF assms(1)] by (auto simp: sess split: if_splits)
    show "announced out" if "chan_of ?s j = Some out" "retire out" for j out
      using that c(2) ctrl_okD(3) [OF assms(1)] by (auto simp: chan c'_def split: if_splits)
  qed
  have "j \<in> told_channels ?s \<longleftrightarrow> j \<in> told_channels s" for j
    using c(1) by (cases "j = i") (auto simp: told_channels_def chan c'_def)
  moreover have "j \<in> wanted_channels ?s \<longleftrightarrow> j \<in> (if b then insert i (wanted_channels s) else wanted_channels s - {i})" for j
    by (cases "j = i") (auto simp: wanted_channels_def chan c'_def)
  moreover have "j \<in> open_sessions ?s \<longleftrightarrow> j \<in> open_sessions s" "j \<in> live_sessions ?s \<longleftrightarrow> j \<in> live_sessions s" "overtaken j ?s = overtaken j s" for j
    by (cases "sess_of s j"; simp add: open_sessions_def live_sessions_def overtaken_def sess)+
  ultimately show ?thesis using ok assms(2) by (simp add: set_eq_iff) (simp add: eq)
qed

text \<open>The requests that change one session.\<close>

definition blank :: "sessionOut \<Rightarrow> bool" where
  "blank out \<longleftrightarrow> pendingOpen out = None \<and> \<not> so_open out \<and> \<not> so_close out"

lemma modify_session:
  assumes "ctrl_ok s" "ctrl_session key s = (out, s1)" "\<forall>e. pendingOpen out' = Some e \<longrightarrow> open_key e = key"
  defines "t \<equiv> ctrl_signal (set_session key out' s1)"
  shows "ctrl_ok t \<and> co_ready t \<and> co_closed t = co_closed s \<and> co_channels t = co_channels s"
    and "sess_of t = (sess_of s)(key \<mapsto> out')"
    and "sess_of s key = Some out \<or> sess_of s key = None \<and> blank out"
proof -
  have t: "sess_of t = (sess_of s)(key \<mapsto> out')" "co_channels t = co_channels s" "co_closed t = co_closed s" "co_ready t"
    using assms(2) by (auto simp: t_def ctrl_session_def set_session_def ctrl_signal_def alist_simps Let_def split: option.splits)
  have "ctrl_wf t" using assms(2) ctrl_okD(1) [OF assms(1)]
    by (auto simp: t_def ctrl_session_def set_session_def ctrl_signal_def ctrl_wf_def alist_simps Let_def split: option.splits)
  then have "ctrl_ok t"
    using t ctrl_okD(2,3) [OF assms(1)] assms(3) by (intro ctrl_okI) (auto split: if_splits)
  then show "ctrl_ok t \<and> co_ready t \<and> co_closed t = co_closed s \<and> co_channels t = co_channels s" using t by simp
  show "sess_of t = (sess_of s)(key \<mapsto> out')" by (rule t)
  show "sess_of s key = Some out \<or> sess_of s key = None \<and> blank out"
    using assms(2) by (auto simp: ctrl_session_def blank_def Let_def split: option.splits)
qed

lemma session_views:
  assumes "sess_of t = (sess_of s)(key \<mapsto> out')"
  shows "open_sessions t = (if so_open out' then insert key (open_sessions s) else open_sessions s - {key})"
    and "live_sessions t = (if \<not> so_close out' \<and> (pendingOpen out' \<noteq> None \<or> so_open out') then insert key (live_sessions s) else live_sessions s - {key})"
    and "overtaken k t \<longleftrightarrow> (if k = key then so_close out' \<and> so_open out' \<and> pendingOpen out' \<noteq> None else overtaken k s)"
  by (auto simp: assms open_sessions_def live_sessions_def overtaken_def split: if_splits)

lemma openSession_ok:
  assumes "ctrl_ok s" "\<not> co_closed s"
  shows "ctrl_ok (openSession e s) \<and> co_ready (openSession e s) \<and> \<not> co_closed (openSession e s) \<and>
    co_channels (openSession e s) = co_channels s \<and>
    open_sessions (openSession e s) = open_sessions s \<and> live_sessions (openSession e s) = insert (open_key e) (live_sessions s) \<and>
    (overtaken k (openSession e s) \<longrightarrow> overtaken k s)"
proof -
  obtain out s1 where o: "ctrl_session (open_key e) s = (out, s1)" by (cases "ctrl_session (open_key e) s")
  define out' where "out' = (if so_close out then out\<lparr>closeStream := False, so_routing := None, so_close := False\<rparr> else out)\<lparr>pendingOpen := Some e\<rparr>"
  have p: "\<forall>e'. pendingOpen out' = Some e' \<longrightarrow> open_key e' = open_key e" by (simp add: out'_def)
  have eq: "openSession e s = ctrl_signal (set_session (open_key e) out' s1)"
    using assms(2) o by (simp add: openSession_def out'_def)
  note m = modify_session [OF assms(1) o p, folded eq]
  have "so_open out \<longleftrightarrow> open_key e \<in> open_sessions s" using m(3) by (auto simp: open_sessions_def blank_def)
  then have "open_sessions (openSession e s) = open_sessions s" unfolding session_views(1) [OF m(2)] by (auto simp: out'_def)
  then show ?thesis using m(1) assms(2)
    by (simp add: session_views [OF m(2)]) (simp add: out'_def)
qed

lemma closeSession_ok:
  assumes "ctrl_ok s" "\<not> co_closed s"
  shows "ctrl_ok (closeSession key s) \<and> co_ready (closeSession key s) \<and> \<not> co_closed (closeSession key s) \<and>
    co_channels (closeSession key s) = co_channels s \<and>
    open_sessions (closeSession key s) = open_sessions s \<and> live_sessions (closeSession key s) = live_sessions s - {key} \<and>
    (overtaken k (closeSession key s) \<longleftrightarrow>
      overtaken k s \<or> k = key \<and> (\<exists>out. sess_of s key = Some out \<and> so_open out \<and> pendingOpen out \<noteq> None))"
proof -
  obtain out s1 where o: "ctrl_session key s = (out, s1)" by (cases "ctrl_session key s")
  have "sess_of s key = Some out \<or> sess_of s key = None \<and> blank out"
    using o by (auto simp: ctrl_session_def blank_def Let_def split: option.splits)
  then have p: "\<forall>e'. pendingOpen (out\<lparr>so_close := True\<rparr>) = Some e' \<longrightarrow> open_key e' = key"
    using ctrl_okD(2) [OF assms(1)] by (auto simp: blank_def)
  have eq: "closeSession key s = ctrl_signal (set_session key (out\<lparr>so_close := True\<rparr>) s1)"
    using assms(2) o by (simp add: closeSession_def)
  note m = modify_session [OF assms(1) o p, folded eq]
  have "so_open out \<longleftrightarrow> key \<in> open_sessions s" using m(3) by (auto simp: open_sessions_def blank_def)
  then have "open_sessions (closeSession key s) = open_sessions s" unfolding session_views(1) [OF m(2)] by auto
  moreover have "overtaken k (closeSession key s) \<longleftrightarrow>
      overtaken k s \<or> k = key \<and> (\<exists>out. sess_of s key = Some out \<and> so_open out \<and> pendingOpen out \<noteq> None)"
    unfolding session_views(3) [OF m(2)] using m(3) by (auto simp: overtaken_def blank_def)
  ultimately show ?thesis using m(1) assms(2) by (simp add: session_views(2) [OF m(2)])
qed

text \<open>The requests that leave every view as it is.\<close>

definition same_views :: "ctrlOutState \<Rightarrow> ctrlOutState \<Rightarrow> bool" where
  "same_views t s \<longleftrightarrow> co_channels t = co_channels s \<and> open_sessions t = open_sessions s \<and> live_sessions t = live_sessions s \<and>
     (\<forall>k. overtaken k t \<longleftrightarrow> overtaken k s)"

lemma same_viewsI:
  assumes "co_channels t = co_channels s" "sess_of t = (sess_of s)(key \<mapsto> out')"
    "sess_of s key = Some out \<or> sess_of s key = None \<and> blank out"
    "pendingOpen out' = pendingOpen out" "so_open out' = so_open out" "so_close out' = so_close out"
  shows "same_views t s"
proof -
  have "so_open out \<longleftrightarrow> key \<in> open_sessions s"
    "\<not> so_close out \<and> (pendingOpen out \<noteq> None \<or> so_open out) \<longleftrightarrow> key \<in> live_sessions s"
    "so_close out \<and> so_open out \<and> pendingOpen out \<noteq> None \<longleftrightarrow> overtaken key s"
    using assms(3) by (auto simp: open_sessions_def live_sessions_def overtaken_def blank_def)
  then show ?thesis using assms(1,4-6) unfolding same_views_def session_views [OF assms(2)] by auto
qed

lemma closeSessionStream_ok:
  assumes "ctrl_ok s" "\<not> co_closed s"
  shows "ctrl_ok (closeSessionStream key s) \<and> co_ready (closeSessionStream key s) \<and> \<not> co_closed (closeSessionStream key s) \<and>
    same_views (closeSessionStream key s) s"
proof -
  obtain out s1 where o: "ctrl_session key s = (out, s1)" by (cases "ctrl_session key s")
  have "sess_of s key = Some out \<or> sess_of s key = None \<and> blank out"
    using o by (auto simp: ctrl_session_def blank_def Let_def split: option.splits)
  then have p: "\<forall>e'. pendingOpen (out\<lparr>closeStream := True\<rparr>) = Some e' \<longrightarrow> open_key e' = key"
    using ctrl_okD(2) [OF assms(1)] by (auto simp: blank_def)
  have eq: "closeSessionStream key s = ctrl_signal (set_session key (out\<lparr>closeStream := True\<rparr>) s1)"
    using assms(2) o by (simp add: closeSessionStream_def)
  note m = modify_session [OF assms(1) o p, folded eq]
  have "same_views (closeSessionStream key s) s" using m(1) by (intro same_viewsI [OF _ m(2,3)]) simp_all
  then show ?thesis using m(1) assms(2) by simp
qed

lemma setRouting_ok:
  assumes "ctrl_ok s" "\<not> co_closed s" "setRouting key u s = (ok, t)"
  shows "ctrl_ok t \<and> \<not> co_closed t \<and> same_views t s \<and> (if ok then co_ready t else t = s)"
proof (cases "sess_of s key")
  case None
  then show ?thesis using assms by (simp add: setRouting_def same_views_def)
next
  case (Some out)
  then have o: "ctrl_session key s = (out, s)" by (simp add: ctrl_session_def)
  have p: "\<forall>e'. pendingOpen (out\<lparr>so_routing := Some u\<rparr>) = Some e' \<longrightarrow> open_key e' = key"
    using ctrl_okD(2) [OF assms(1) Some] by simp
  have eq: "t = ctrl_signal (set_session key (out\<lparr>so_routing := Some u\<rparr>) s)" "ok"
    using assms(2,3) Some by (simp_all add: setRouting_def)
  note m = modify_session [OF assms(1) o p, folded eq(1)]
  have "same_views t s" using m(1) by (intro same_viewsI [OF _ m(2,3)]) simp_all
  then show ?thesis using m(1) assms(2) eq(2) by simp
qed

lemma announceInitial_ok:
  "ctrl_ok (announceInitial ids newCtrlOutState) \<and> \<not> co_closed (announceInitial ids newCtrlOutState) \<and>
   told_channels (announceInitial ids newCtrlOutState) = set ids \<and> wanted_channels (announceInitial ids newCtrlOutState) = set ids \<and>
   co_sessions (announceInitial ids newCtrlOutState) = []"
proof -
  let ?f = "\<lambda>s i. if chan_of s i = None
        then s\<lparr>co_channels := AList.update i \<lparr>want = True, announced = True, retire = False\<rparr> (co_channels s)\<rparr> else s"
  define good where "good C s \<longleftrightarrow> ctrl_ok s \<and> \<not> co_closed s \<and> co_sessions s = [] \<and>
      (\<forall>i. chan_of s i = (if i \<in> C then Some \<lparr>want = True, announced = True, retire = False\<rparr> else None))" for C s
  have step: "good (insert i C) (?f s i)" if "good C s" for C s i
    using that by (auto simp: good_def ctrl_ok_def ctrl_wf_def alist_simps simp del: map_of_eq_Some_iff Some_eq_map_of_iff split: if_splits)
  have "good C s \<Longrightarrow> good (C \<union> set ids) (foldl ?f s ids)" for C s
  proof (induction ids arbitrary: C s)
    case (Cons i ids)
    from Cons.IH [OF step [OF Cons.prems, of i]] show ?case by simp
  qed simp
  moreover have "good {} newCtrlOutState" by (simp add: good_def newCtrlOutState_def ctrl_ok_def ctrl_wf_def)
  ultimately have "good (set ids) (foldl ?f newCtrlOutState ids)" by fastforce
  moreover have "announceInitial ids newCtrlOutState = foldl ?f newCtrlOutState ids"
    by (simp add: announceInitial_def newCtrlOutState_def)
  ultimately show ?thesis by (auto simp: good_def told_channels_def wanted_channels_def split: if_splits)
qed

section \<open>Runs\<close>

text \<open>
  The engine and the sessions make requests while the peer's control loop takes transitions
  until there is none and then waits for a token. The state of a run has what the loop has
  told the peer and what the requests ask for: the channels announced last as present, the
  sessions opened and not closed since. \<open>overtaken_keys\<close> are the sessions that were closed at some
  time while a second open still waited behind the first one.
\<close>

datatype ctrl_request =
    Announce ChannelID bool
  | Open peerOpenSession
  | Close sessionKey
  | CloseStreamOf sessionKey
  | Routing sessionKey bytes

fun ctrl_serve :: "ctrl_request \<Rightarrow> ctrlOutState \<Rightarrow> ctrlOutState" where
  "ctrl_serve (Announce i b) s = announce i b s"
| "ctrl_serve (Open e) s = openSession e s"
| "ctrl_serve (Close k) s = closeSession k s"
| "ctrl_serve (CloseStreamOf k) s = closeSessionStream k s"
| "ctrl_serve (Routing k u) s = snd (setRouting k u s)"

record ctrl_run =
  cr_state :: ctrlOutState
  taking :: bool
  peer_channels :: "ChannelID set"
  peer_sessions :: "sessionKey set"
  asked_channels :: "ChannelID set"
  asked_sessions :: "sessionKey set"
  overtaken_keys :: "sessionKey set"

fun asked :: "ctrl_request \<Rightarrow> ChannelID set \<times> sessionKey set \<Rightarrow> ChannelID set \<times> sessionKey set" where
  "asked (Announce i b) (C, K) = (if b then insert i C else C - {i}, K)"
| "asked (Open e) (C, K) = (C, insert (open_key e) K)"
| "asked (Close k) (C, K) = (C, K - {k})"
| "asked _ (C, K) = (C, K)"

fun overtakes :: "ctrl_request \<Rightarrow> ctrlOutState \<Rightarrow> sessionKey set" where
  "overtakes (Close k) s = (case sess_of s k of None \<Rightarrow> {} | Some out \<Rightarrow> if so_open out \<and> pendingOpen out \<noteq> None then {k} else {})"
| "overtakes _ s = {}"

inductive ctrl_runs :: "ChannelID list \<Rightarrow> ctrl_run \<Rightarrow> bool" for ids where
  start: "ctrl_runs ids \<lparr>cr_state = announceInitial ids newCtrlOutState, taking = True,
      peer_channels = set ids, peer_sessions = {}, asked_channels = set ids, asked_sessions = {}, overtaken_keys = {}\<rparr>"
| request: "ctrl_runs ids r \<Longrightarrow> asked q (asked_channels r, asked_sessions r) = (C, K) \<Longrightarrow>
    ctrl_runs ids (r\<lparr>cr_state := ctrl_serve q (cr_state r), asked_channels := C, asked_sessions := K,
      overtaken_keys := overtaken_keys r \<union> overtakes q (cr_state r)\<rparr>)"
| await: "ctrl_runs ids r \<Longrightarrow> \<not> taking r \<Longrightarrow> co_ready (cr_state r) \<Longrightarrow>
    ctrl_runs ids (r\<lparr>cr_state := (cr_state r)\<lparr>co_ready := False\<rparr>, taking := True\<rparr>)"
| take: "ctrl_runs ids r \<Longrightarrow> taking r \<Longrightarrow> (\<And>xs. set (ord xs) = set xs) \<Longrightarrow> ctrl_next ord (cr_state r) = (Some ev, s') \<Longrightarrow>
    ctrl_runs ids (r\<lparr>cr_state := s', peer_channels := told ev (peer_channels r), peer_sessions := opened ev (peer_sessions r)\<rparr>)"
| none: "ctrl_runs ids r \<Longrightarrow> taking r \<Longrightarrow> (\<And>xs. set (ord xs) = set xs) \<Longrightarrow> ctrl_next ord (cr_state r) = (None, s') \<Longrightarrow>
    ctrl_runs ids (r\<lparr>cr_state := s', taking := False\<rparr>)"

definition ctrl_inv :: "ctrl_run \<Rightarrow> bool" where
  "ctrl_inv r \<longleftrightarrow> ctrl_ok (cr_state r) \<and> \<not> co_closed (cr_state r) \<and> (\<forall>k. overtaken k (cr_state r) \<longrightarrow> k \<in> overtaken_keys r) \<and>
     told_channels (cr_state r) = peer_channels r \<and> wanted_channels (cr_state r) = asked_channels r \<and>
     open_sessions (cr_state r) = peer_sessions r \<and>
     asked_sessions r \<subseteq> live_sessions (cr_state r) \<and> live_sessions (cr_state r) \<subseteq> asked_sessions r \<union> overtaken_keys r \<and>
     (\<not> taking r \<and> \<not> co_ready (cr_state r) \<longrightarrow> peer_channels r = asked_channels r \<and> peer_sessions r = live_sessions (cr_state r))"

lemma ctrl_request_inv:
  assumes "ctrl_inv r" "asked q (asked_channels r, asked_sessions r) = (C, K)"
  shows "ctrl_inv (r\<lparr>cr_state := ctrl_serve q (cr_state r), asked_channels := C, asked_sessions := K,
    overtaken_keys := overtaken_keys r \<union> overtakes q (cr_state r)\<rparr>)"
proof -
  let ?s = "cr_state r"
  have ok: "ctrl_ok ?s" "\<not> co_closed ?s" using assms(1) by (simp_all add: ctrl_inv_def)
  show ?thesis
  proof (cases q)
    case (Announce i b)
    then show ?thesis using assms announce_ok [OF ok, of i b] by (auto simp: ctrl_inv_def)
  next
    case (Open e)
    then show ?thesis using assms openSession_ok [OF ok, of e] views_cong(1) [of "openSession e ?s" ?s]
      by (auto simp: ctrl_inv_def)
  next
    case (Close k)
    then show ?thesis using assms closeSession_ok [OF ok, of k] views_cong(1) [of "closeSession k ?s" ?s]
      by (auto simp: ctrl_inv_def split: option.splits)
  next
    case (CloseStreamOf k)
    then show ?thesis using assms closeSessionStream_ok [OF ok, of k] views_cong(1) [of "closeSessionStream k ?s" ?s]
      by (auto simp: ctrl_inv_def same_views_def)
  next
    case (Routing k u)
    obtain b t where t: "setRouting k u ?s = (b, t)" by (cases "setRouting k u ?s")
    then show ?thesis using Routing assms setRouting_ok [OF ok t] views_cong(1) [of t ?s]
      by (auto simp: ctrl_inv_def same_views_def split: if_splits)
  qed
qed

lemma ctrl_views_ready [simp]:
  "told_channels (s\<lparr>co_ready := b\<rparr>) = told_channels s" "wanted_channels (s\<lparr>co_ready := b\<rparr>) = wanted_channels s"
  "open_sessions (s\<lparr>co_ready := b\<rparr>) = open_sessions s" "live_sessions (s\<lparr>co_ready := b\<rparr>) = live_sessions s"
  "overtaken k (s\<lparr>co_ready := b\<rparr>) = overtaken k s" "ctrl_ok (s\<lparr>co_ready := b\<rparr>) = ctrl_ok s"
  by (simp_all add: told_channels_def wanted_channels_def open_sessions_def live_sessions_def overtaken_def ctrl_ok_def ctrl_wf_def)

lemma ctrl_runs_inv: "ctrl_runs ids r \<Longrightarrow> ctrl_inv r"
proof (induction rule: ctrl_runs.induct)
  case start
  then show ?case using announceInitial_ok [of ids]
    by (simp add: ctrl_inv_def open_sessions_def live_sessions_def overtaken_def)
next
  case (request r q C K)
  then show ?case by (intro ctrl_request_inv)
next
  case (await r)
  then show ?case by (simp add: ctrl_inv_def)
next
  case (take r ord ev s')
  have ok: "ctrl_ok (cr_state r)" "\<not> co_closed (cr_state r)" using take(5) by (simp_all add: ctrl_inv_def)
  from ctrl_next_ok [OF ok take(3,4)] take(2,5) show ?case by (auto simp: ctrl_inv_def reopened_def)
next
  case (none r ord s')
  have ok: "ctrl_ok (cr_state r)" "\<not> co_closed (cr_state r)" using none(5) by (simp_all add: ctrl_inv_def)
  from ctrl_next_ok [OF ok none(3,4)] none(2,5) show ?case by (auto simp: ctrl_inv_def)
qed

end
