(* ===== verification/CtrlDrain.thy ===== *)
theory CtrlDrain
  imports CtrlOut
begin

text \<open>
  What the control state of \<open>src/broadcast/ctrl_out.go\<close> promises its users: taking transitions
  out ends, and then the peer has been told what was asked for; and the one order of requests
  in which a closed session is opened again.
\<close>

section \<open>How many transitions there are\<close>

definition channel_weight :: "channelOut \<Rightarrow> nat" where
  "channel_weight c = (if retire c \<or> (\<not> want c \<and> announced c) then 2 else 0) + (if want c \<and> \<not> announced c then 1 else 0)"

definition session_weight :: "sessionOut \<Rightarrow> nat" where
  "session_weight out = of_bool (so_close out) + of_bool (pendingOpen out \<noteq> None) + of_bool (closeStream out) + of_bool (so_routing out \<noteq> None)"

definition ctrl_weight :: "ctrlOutState \<Rightarrow> nat" where
  "ctrl_weight s = sum_list (map (\<lambda>(_, c). channel_weight c) (co_channels s)) + sum_list (map (\<lambda>(_, out). session_weight out) (co_sessions s))"

abbreviation opt_weight :: "('v \<Rightarrow> nat) \<Rightarrow> 'v option \<Rightarrow> nat" where
  "opt_weight f x \<equiv> (case x of None \<Rightarrow> 0 | Some v \<Rightarrow> f v)"

lemma alist_weight:
  assumes "distinct (map fst xs)" "finite A" "fst ` set xs \<subseteq> A"
  shows "sum_list (map (\<lambda>(_, v). f v) xs) = (\<Sum>k\<in>A. opt_weight f (map_of xs k))"
  using assms
proof (induction xs)
  case (Cons p xs)
  obtain k v where p: "p = (k, v)" by (cases p)
  have k: "k \<in> A" "map_of xs k = None" using Cons.prems by (auto simp: p map_of_eq_None_iff)
  have "(\<Sum>j\<in>A. opt_weight f (map_of (p # xs) j)) = f v + (\<Sum>j\<in>A - {k}. opt_weight f (map_of xs j))"
    using Cons.prems(2) k(1) by (subst sum.remove [of A k]) (auto simp: p intro!: sum.cong)
  also have "(\<Sum>j\<in>A - {k}. opt_weight f (map_of xs j)) = (\<Sum>j\<in>A. opt_weight f (map_of xs j))"
    using sum.remove [OF Cons.prems(2) k(1), of "\<lambda>j. opt_weight f (map_of xs j)"] k(2) by simp
  finally show ?case using Cons by (simp add: p)
qed simp

lemma alist_weight_mono:
  assumes "distinct (map fst xs)" "distinct (map fst ys)" "\<And>k. opt_weight f (map_of ys k) \<le> opt_weight f (map_of xs k)"
  shows "sum_list (map (\<lambda>(_, v). f v) ys) \<le> sum_list (map (\<lambda>(_, v). f v) xs)"
    and "opt_weight f (map_of ys k) < opt_weight f (map_of xs k) \<Longrightarrow>
      sum_list (map (\<lambda>(_, v). f v) ys) < sum_list (map (\<lambda>(_, v). f v) xs)"
proof -
  let ?A = "insert k (fst ` set xs \<union> fst ` set ys)"
  have sums: "sum_list (map (\<lambda>(_, v). f v) xs) = (\<Sum>k\<in>?A. opt_weight f (map_of xs k))"
    "sum_list (map (\<lambda>(_, v). f v) ys) = (\<Sum>k\<in>?A. opt_weight f (map_of ys k))"
    by (rule alist_weight [OF assms(1)]; force) (rule alist_weight [OF assms(2)]; force)
  show "sum_list (map (\<lambda>(_, v). f v) ys) \<le> sum_list (map (\<lambda>(_, v). f v) xs)"
    unfolding sums by (rule sum_mono) (rule assms(3))
  show "sum_list (map (\<lambda>(_, v). f v) ys) < sum_list (map (\<lambda>(_, v). f v) xs)"
    if "opt_weight f (map_of ys k) < opt_weight f (map_of xs k)"
    unfolding sums using that assms(3) by (intro sum_strict_mono_ex1) auto
qed

lemma next_close_weight:
  assumes "ctrl_wf s" "next_close s = (r, s')"
  shows "ctrl_weight s' \<le> ctrl_weight s" "r = Some k \<Longrightarrow> ctrl_weight s' < ctrl_weight s"
proof -
  note sp = next_close_spec [OF assms]
  have d: "distinct (map fst (co_sessions s))" "distinct (map fst (co_sessions s'))" using assms(1) sp by (auto simp: ctrl_wf_def)
  have strict: "opt_weight session_weight (sess_of s' k) < opt_weight session_weight (sess_of s k)" if r: "r = Some k" for k
  proof -
    obtain out where "sess_of s k = Some out" "so_close out"
      "sess_of s' k = (if pendingOpen out = None then None else Some (out\<lparr>so_close := False, so_open := False\<rparr>))"
      using sp r by auto
    then show ?thesis by (simp add: session_weight_def)
  qed
  have le: "opt_weight session_weight (sess_of s' k) \<le> opt_weight session_weight (sess_of s k)" for k
  proof (cases "r = Some k")
    case False
    then have "sess_of s' k = sess_of s k \<or> sess_of s' k = None" using sp by (elim conjE) (drule spec [of _ k], auto)
    then show ?thesis by auto
  qed (use strict in \<open>simp add: less_imp_le\<close>)
  show "ctrl_weight s' \<le> ctrl_weight s" using sp alist_weight_mono(1) [OF d le] by (simp add: ctrl_weight_def)
  show "ctrl_weight s' < ctrl_weight s" if "r = Some k"
    using sp alist_weight_mono(2) [OF d le strict [OF that]] by (simp add: ctrl_weight_def)
qed

lemma next_unsubscribe_weight:
  assumes "ctrl_wf s" "next_unsubscribe ids s = (r, s')"
  shows "ctrl_weight s' \<le> ctrl_weight s" "r = Some i \<Longrightarrow> ctrl_weight s' < ctrl_weight s"
proof -
  note sp = next_unsubscribe_spec [OF assms]
  have d: "distinct (map fst (co_channels s))" "distinct (map fst (co_channels s'))" using assms(1) sp by (auto simp: ctrl_wf_def)
  have strict: "opt_weight channel_weight (chan_of s' i) < opt_weight channel_weight (chan_of s i)" if r: "r = Some i" for i
  proof -
    obtain out where "chan_of s i = Some out" "retire out \<or> \<not> want out \<and> announced out"
      "chan_of s' i = (if \<not> want out then None else Some (out\<lparr>announced := False, retire := False\<rparr>))"
      using sp r by auto
    then show ?thesis by (simp add: channel_weight_def)
  qed
  have le: "opt_weight channel_weight (chan_of s' i) \<le> opt_weight channel_weight (chan_of s i)" for i
  proof (cases "r = Some i")
    case False
    then have "chan_of s' i = chan_of s i \<or> chan_of s' i = None" using sp by (elim conjE) (drule spec [of _ i], auto)
    then show ?thesis by auto
  qed (use strict in \<open>simp add: less_imp_le\<close>)
  show "ctrl_weight s' \<le> ctrl_weight s" using sp alist_weight_mono(1) [OF d le] by (simp add: ctrl_weight_def)
  show "ctrl_weight s' < ctrl_weight s" if "r = Some i"
    using sp alist_weight_mono(2) [OF d le strict [OF that]] by (simp add: ctrl_weight_def)
qed

lemma next_subscribe_weight:
  assumes "ctrl_wf s" "next_subscribe ids s = (r, s')"
  shows "r = None \<Longrightarrow> s' = s" "r = Some i \<Longrightarrow> ctrl_weight s' < ctrl_weight s"
proof -
  note sp = next_subscribe_spec [OF assms]
  have d: "distinct (map fst (co_channels s))" "distinct (map fst (co_channels s'))" using assms(1) sp by (auto simp: ctrl_wf_def)
  have strict: "opt_weight channel_weight (chan_of s' i) < opt_weight channel_weight (chan_of s i)" if r: "r = Some i" for i
  proof -
    obtain out where "chan_of s i = Some out" "want out" "\<not> announced out" "chan_of s' i = Some (out\<lparr>announced := True\<rparr>)"
      using sp r by auto
    then show ?thesis by (simp add: channel_weight_def)
  qed
  have le: "opt_weight channel_weight (chan_of s' i) \<le> opt_weight channel_weight (chan_of s i)" for i
    using sp strict [of i] by (cases "r = Some i") (simp_all add: less_imp_le)
  show "s' = s" if "r = None" using sp that by simp
  show "ctrl_weight s' < ctrl_weight s" if "r = Some i"
    using sp alist_weight_mono(2) [OF d le strict [OF that]] by (simp add: ctrl_weight_def)
qed

lemma next_open_weight:
  assumes "ctrl_wf s" "next_open s = (Some ev, s')"
  shows "ctrl_weight s' < ctrl_weight s"
proof -
  note sp = next_open_spec [OF assms]
  then obtain key out out' where k: "sess_of s key = Some out" "\<And>k. sess_of s' k = (if k = key then Some out' else sess_of s k)"
    and c: "session_weight out' < session_weight out" by (auto simp: session_weight_def)
  have d: "distinct (map fst (co_sessions s))" "distinct (map fst (co_sessions s'))" using assms(1) sp by (auto simp: ctrl_wf_def)
  have "opt_weight session_weight (sess_of s' j) \<le> opt_weight session_weight (sess_of s j)" for j using k c by simp
  moreover have "opt_weight session_weight (sess_of s' key) < opt_weight session_weight (sess_of s key)" using k c by simp
  ultimately show ?thesis using sp alist_weight_mono(2) [OF d] by (simp add: ctrl_weight_def)
qed

lemma ctrl_next_weight:
  assumes "ctrl_ok s" "\<And>xs. set (ord xs) = set xs" "ctrl_next ord s = (Some ev, s')"
  shows "ctrl_weight s' < ctrl_weight s"
proof -
  obtain r1 s1 where n1: "next_close s = (r1, s1)" by (cases "next_close s")
  obtain r2 s2 where n2: "next_unsubscribe (ord (map fst (co_channels s1))) s1 = (r2, s2)"
    by (cases "next_unsubscribe (ord (map fst (co_channels s1))) s1")
  obtain r3 s3 where n3: "next_subscribe (ord (map fst (co_channels s2))) s2 = (r3, s3)"
    by (cases "next_subscribe (ord (map fst (co_channels s2))) s2")
  have wf: "ctrl_wf s" "ctrl_wf s1" "ctrl_wf s2" "ctrl_wf s3"
    using ctrl_okD(1) [OF assms(1)] next_close_spec [OF _ n1] next_unsubscribe_spec [OF _ n2] next_subscribe_spec [OF _ n3] by blast+
  have "\<not> co_closed s" using assms(3) by (auto simp: ctrl_next_def)
  then show ?thesis using assms(3) n1 n2 n3 next_close_weight [OF wf(1) n1] next_unsubscribe_weight [OF wf(2) n2]
      next_subscribe_weight [OF wf(3) n3] next_open_weight [OF wf(4)]
    by (auto simp: ctrl_next_def split: option.splits)
qed

lemma ctrl_drain_ok:
  assumes "ctrl_ok s" "\<not> co_closed s" "\<And>xs. set (ord xs) = set xs" "ctrl_weight s < fuel"
  shows "\<exists>evs s'. ctrl_drain fuel ord s = Some (evs, s') \<and> length evs \<le> ctrl_weight s \<and> ctrl_ok s' \<and>
    told_channels s' = wanted_channels s \<and> live_sessions s \<subseteq> open_sessions s' \<and> open_sessions s' \<subseteq> live_sessions s \<union> {k. overtaken k s}"
  using assms
proof (induction fuel arbitrary: s)
  case (Suc fuel)
  obtain r s1 where n: "ctrl_next ord s = (r, s1)" by (cases "ctrl_next ord s")
  note ok = ctrl_next_ok [OF Suc.prems(1-3) n]
  show ?case
  proof (cases r)
    case None
    then show ?thesis using ok n by simp
  next
    case (Some ev)
    have w: "ctrl_weight s1 < ctrl_weight s" using ctrl_next_weight [OF Suc.prems(1,3)] n Some by simp
    obtain evs s' where d: "ctrl_drain fuel ord s1 = Some (evs, s')" "length evs \<le> ctrl_weight s1" "ctrl_ok s'"
        "told_channels s' = wanted_channels s1" "live_sessions s1 \<subseteq> open_sessions s'" "open_sessions s' \<subseteq> live_sessions s1 \<union> {k. overtaken k s1}"
      using Suc.IH [of s1] Suc.prems ok w by auto
    have "live_sessions s \<subseteq> open_sessions s'" "open_sessions s' \<subseteq> live_sessions s \<union> {k. overtaken k s}"
      using d(5,6) ok Some by (auto simp: reopened_def)
    then show ?thesis using d ok w Some n by (intro exI [of _ "ev # evs"] exI [of _ s']) auto
  qed
qed simp

section \<open>Properties\<close>

text \<open>
  C5 (the peer is told everything): however the engine and the sessions interleave their
  requests with the control loop, every event the loop takes out makes sense to the peer (no
  channel is announced twice or withdrawn unannounced, and only open sessions are closed,
  ended or updated). Whenever the loop waits and no token is there to wake it, the peer knows
  exactly the channels announced last, and every session opened and not closed since is open at
  the peer. It has no other session open, except possibly one that was closed while a second
  open of it still waited behind its first.
\<close>
theorem ctrl_peer_told:
  assumes "ctrl_runs ids r"
  shows "(\<not> taking r \<longrightarrow> \<not> co_ready (cr_state r) \<longrightarrow> peer_channels r = asked_channels r \<and>
      asked_sessions r \<subseteq> peer_sessions r \<and> peer_sessions r \<subseteq> asked_sessions r \<union> overtaken_keys r) \<and>
    (\<forall>ord ev s'. (\<forall>xs. set (ord xs) = set xs) \<longrightarrow> ctrl_next ord (cr_state r) = (Some ev, s') \<longrightarrow> in_order ev (peer_channels r) (peer_sessions r))"
proof (intro conjI impI allI)
  have inv: "ctrl_inv r" by (rule ctrl_runs_inv [OF assms])
  then show "peer_channels r = asked_channels r" "asked_sessions r \<subseteq> peer_sessions r" "peer_sessions r \<subseteq> asked_sessions r \<union> overtaken_keys r"
    if "\<not> taking r" "\<not> co_ready (cr_state r)" using that by (simp_all add: ctrl_inv_def)
  fix ord ev s' assume ord: "\<forall>xs. set (ord xs) = set xs" and n: "ctrl_next ord (cr_state r) = (Some ev, s')"
  have ok: "ctrl_ok (cr_state r)" "\<not> co_closed (cr_state r)" using inv by (simp_all add: ctrl_inv_def)
  show "in_order ev (peer_channels r) (peer_sessions r)"
    using ctrl_next_ok [OF ok _ n] ord inv by (simp add: ctrl_inv_def)
qed

theorem ctrl_peer_told_witness:
  "let r = \<lparr>cr_state = ctrl_serve (Announce ''blocks'' True) (announceInitial [] newCtrlOutState), taking = True,
      peer_channels = {}, peer_sessions = {}, asked_channels = {''blocks''}, asked_sessions = {}, overtaken_keys = {}\<rparr> in
   ctrl_runs [] r \<and> (\<exists>s'. ctrl_next (\<lambda>xs. xs) (cr_state r) = (Some (Subscribe ''blocks''), s')) \<and> in_order (Subscribe ''blocks'') (peer_channels r) (peer_sessions r)"
proof -
  define r where "r = \<lparr>cr_state = ctrl_serve (Announce ''blocks'' True) (announceInitial [] newCtrlOutState), taking = True,
      peer_channels = {}, peer_sessions = {}, asked_channels = {''blocks''}, asked_sessions = {}, overtaken_keys = {}\<rparr>"
  have run: "ctrl_runs [] r"
    using ctrl_runs.request [OF ctrl_runs.start, of "Announce ''blocks'' True" "[]" "{''blocks''}" "{}"] by (simp add: r_def)
  obtain s' where n: "ctrl_next (\<lambda>xs. xs) (cr_state r) = (Some (Subscribe ''blocks''), s')"
    by (simp add: r_def announceInitial_def newCtrlOutState_def announce_def ctrl_signal_def ctrl_next_def next_close.simps firstSession_def)
  have "in_order (Subscribe ''blocks'') (peer_channels r) (peer_sessions r)"
    using ctrl_peer_told [OF run, THEN conjunct2, rule_format, OF _ n] by simp
  with run n show ?thesis unfolding Let_def r_def [symmetric] by blast
qed

text \<open>
  C17 (taking transitions ends): the inner loop of \<open>runCtrlLoop\<close> ends after at most as many
  transitions as the state's flags say are due, whatever the order in which the runtime ranges
  over the channels. The peer then knows exactly the channels we want and has open the sessions
  opened and not closed since, and no other but those once closed while a second open waited.
\<close>
theorem ctrl_drain_terminates:
  assumes "ctrl_runs ids r" "\<And>xs. set (ord xs) = set xs"
  shows "\<exists>evs s'. ctrl_drain (Suc (ctrl_weight (cr_state r))) ord (cr_state r) = Some (evs, s') \<and>
    length evs \<le> ctrl_weight (cr_state r) \<and> told_channels s' = asked_channels r \<and>
    asked_sessions r \<subseteq> open_sessions s' \<and> open_sessions s' \<subseteq> asked_sessions r \<union> overtaken_keys r"
proof -
  have inv: "ctrl_inv r" by (rule ctrl_runs_inv [OF assms(1)])
  then have ok: "ctrl_ok (cr_state r)" "\<not> co_closed (cr_state r)" by (simp_all add: ctrl_inv_def)
  from ctrl_drain_ok [OF ok assms(2) lessI] inv show ?thesis by (fastforce simp: ctrl_inv_def)
qed

theorem ctrl_drain_terminates_witness:
  "let s = ctrl_serve (Open \<lparr>os_channelID = ''a'', os_messageID = ''m'', os_preamble = [], os_initialRouting = [], os_chunkOutbox = 0\<rparr>)
         (ctrl_serve (Announce ''b'' True) (announceInitial [''a''] newCtrlOutState))
   in \<exists>evs s'. ctrl_drain 3 (\<lambda>xs. xs) s = Some (evs, s') \<and> length evs \<le> 2 \<and> told_channels s' = {''a'', ''b''} \<and> open_sessions s' = {sessionKey ''a'' ''m''}"
proof -
  let ?e = "\<lparr>os_channelID = ''a'', os_messageID = ''m'', os_preamble = [], os_initialRouting = [], os_chunkOutbox = 0\<rparr> :: peerOpenSession"
  let ?s = "ctrl_serve (Open ?e) (ctrl_serve (Announce ''b'' True) (announceInitial [''a''] newCtrlOutState))"
  let ?r = "\<lparr>cr_state = ?s, taking = True, peer_channels = {''a''}, peer_sessions = {}, asked_channels = {''a'', ''b''},
    asked_sessions = {sessionKey ''a'' ''m''}, overtaken_keys = {}\<rparr>"
  have "ctrl_runs [''a''] ?r"
    using ctrl_runs.request [OF ctrl_runs.request [OF ctrl_runs.start [of "[''a'']"], of "Announce ''b'' True" "{''a'', ''b''}" "{}"],
        of "Open ?e" "{''a'', ''b''}" "{sessionKey ''a'' ''m''}"] by (simp add: insert_commute)
  moreover have "ctrl_weight ?s = 2"
    by (simp add: announceInitial_def newCtrlOutState_def announce_def openSession_def ctrl_session_def set_session_def ctrl_signal_def
        ctrl_weight_def channel_weight_def session_weight_def Let_def)
  ultimately show ?thesis using ctrl_drain_terminates [of "[''a'']" ?r "\<lambda>xs. xs"] by (auto simp: numeral_3_eq_3)
qed

text \<open>
  C37 (a closed session is opened again): a session is opened and the peer's loop takes that
  out; before it comes back, the session is closed, opened again and closed again. The loop
  then closes the first session and opens the second one, which is closed, and nothing closes
  it later.
\<close>
theorem overtaken_session_reopens:
  fixes e :: peerOpenSession and n :: nat
  assumes "ord [] = []"
  defines "e' \<equiv> e\<lparr>os_chunkOutbox := n\<rparr>" and "k \<equiv> open_key e"
  shows "\<exists>s1 s'. ctrl_next ord (openSession e newCtrlOutState) = (Some (OpenSession e), s1) \<and>
    ctrl_drain 3 ord (closeSession k (openSession e' (closeSession k s1))) = Some ([CloseSession k, OpenSession e'], s') \<and>
    k \<in> open_sessions s' \<and> fst (ctrl_next ord s') = None"
  using assms(1)
  by (simp add: e'_def k_def newCtrlOutState_def openSession_def closeSession_def ctrl_session_def set_session_def ctrl_signal_def
      ctrl_next_def next_close.simps firstSession_def next_open_def numeral_3_eq_3 open_sessions_def Let_def)

theorem overtaken_session_reopens_witness:
  "let e = \<lparr>os_channelID = ''c'', os_messageID = ''m'', os_preamble = [], os_initialRouting = [], os_chunkOutbox = 0\<rparr>;
       k = sessionKey ''c'' ''m''
   in \<exists>s1 s'. ctrl_next (\<lambda>xs. xs) (openSession e newCtrlOutState) = (Some (OpenSession e), s1) \<and>
     ctrl_drain 3 (\<lambda>xs. xs) (closeSession k (openSession (e\<lparr>os_chunkOutbox := 1\<rparr>) (closeSession k s1))) =
       Some ([CloseSession k, OpenSession (e\<lparr>os_chunkOutbox := 1\<rparr>)], s') \<and> k \<in> open_sessions s'"
  using overtaken_session_reopens [of "\<lambda>xs. xs" "\<lparr>os_channelID = ''c'', os_messageID = ''m'', os_preamble = [], os_initialRouting = [], os_chunkOutbox = 0\<rparr>" 1]
  by (auto simp: Let_def)

end
