(* ===== verification/Ctx.thy ===== *)
theory Ctx
  imports Prelude
begin

text \<open>
  The standard library's \<open>context\<close> as the broadcast package uses it: contexts with a parent,
  cancelled with a cause. A context is its position in a list of all contexts, which is older
  than every context derived from it. The lemmas show that cancelling reaches exactly the
  contexts derived from the cancelled one and never replaces a cause.
\<close>

record gctx =
  ctx_parent :: "nat option"
  ctx_cause :: "goerr option"

definition Canceled :: goerr where "Canceled = ErrNew ''context canceled''"

definition ctx_Background :: gctx where "ctx_Background = \<lparr>ctx_parent = None, ctx_cause = None\<rparr>"

text \<open>\<open>context.Cause\<close>; a context with a cause has ended.\<close>

definition Cause :: "gctx list \<Rightarrow> nat \<Rightarrow> goerr option" where
  "Cause cs i = (if i < length cs then ctx_cause (cs ! i) else None)"

text \<open>\<open>WithCancel\<close> and \<open>WithCancelCause\<close>: a context derived from one that has ended has ended.\<close>

definition WithCancel :: "nat \<Rightarrow> gctx list \<Rightarrow> nat \<times> gctx list" where
  "WithCancel p cs = (length cs, cs @ [\<lparr>ctx_parent = Some p, ctx_cause = Cause cs p\<rparr>])"

text \<open>Whether \<open>j\<close> is \<open>i\<close> or derived from it.\<close>

function derived :: "gctx list \<Rightarrow> nat \<Rightarrow> nat \<Rightarrow> bool" where
  "derived cs i j \<longleftrightarrow> j = i \<or>
     (j < length cs \<and> (case ctx_parent (cs ! j) of None \<Rightarrow> False | Some p \<Rightarrow> if p < j then derived cs i p else False))"
  by pat_completeness auto
termination
  by (relation "measure (\<lambda>(cs, i, j). j)") auto

declare derived.simps [simp del]

definition cancel_ctx :: "nat \<Rightarrow> goerr \<Rightarrow> gctx list \<Rightarrow> gctx list" where
  "cancel_ctx i cause cs =
     map (\<lambda>j. let c = cs ! j in if derived cs i j \<and> ctx_cause c = None then c\<lparr>ctx_cause := Some cause\<rparr> else c) [0..<length cs]"

section \<open>Lemmas\<close>

lemma derived_refl [simp]: "derived cs i i"
  by (subst derived.simps) simp

lemma length_cancel_ctx [simp]: "length (cancel_ctx i e cs) = length cs"
  by (simp add: cancel_ctx_def)

lemma cancel_ctx_nth:
  "j < length cs \<Longrightarrow> cancel_ctx i e cs ! j =
     (if derived cs i j \<and> ctx_cause (cs ! j) = None then (cs ! j)\<lparr>ctx_cause := Some e\<rparr> else cs ! j)"
  by (simp add: cancel_ctx_def Let_def)

lemma Cause_cancel_ctx:
  "j < length cs \<Longrightarrow> Cause (cancel_ctx i e cs) j =
     (case Cause cs j of Some e' \<Rightarrow> Some e' | None \<Rightarrow> if derived cs i j then Some e else None)"
  by (auto simp: Cause_def cancel_ctx_nth split: option.split)

lemma Cause_WithCancel:
  "WithCancel p cs = (c, cs') \<Longrightarrow> c = length cs \<and> length cs' = Suc (length cs) \<and> Cause cs' c = Cause cs p \<and>
     (j < length cs \<longrightarrow> Cause cs' j = Cause cs j)"
  by (auto simp: WithCancel_def Cause_def nth_append)

lemma derived_WithCancel:
  assumes "WithCancel p cs = (c, cs')" "p < length cs"
  shows "derived cs' p c" "j < length cs \<Longrightarrow> derived cs' i j = derived cs i j"
proof -
  have cs': "c = length cs" "cs' = cs @ [\<lparr>ctx_parent = Some p, ctx_cause = Cause cs p\<rparr>]" using assms(1) by (simp_all add: WithCancel_def)
  show "derived cs' p c" using assms(2) by (subst derived.simps) (simp add: cs' nth_append)
  show "derived cs' i j = derived cs i j" if "j < length cs" using that
  proof (induction j rule: less_induct)
    case (less j)
    then show ?case by (subst (1 2) derived.simps) (auto simp: cs' nth_append split: option.split)
  qed
qed

end
