(* ===== verification/Session.thy ===== *)
theory Session
  imports BcastWire CtrlOut Ctx "HOL-Library.Monad_Syntax"
begin

text \<open>
  \<open>src/broadcast/session.go\<close>: the session of one message on one channel. The channel's
  goroutine runs every handler; what a handler shares with other goroutines (the control
  states of peers, the outboxes their data loops empty, contexts) and what it does to the
  outside (cancelled streams, calls of the observer) is in a record \<open>world\<close>. A handler is one
  step: what other goroutines do to the shared parts happens between handlers. The strategy is
  a parameter, a record of its operations; a result \<open>None\<close> is a panic inside it. Go maps are
  association lists, and the order in which the runtime ranges over the session's peers is an
  argument \<open>ord\<close>. Deadlines of streams are left out: a read that times out is one that fails
  with a timeout.
\<close>

section \<open>State\<close>

text \<open>\<open>sessionStage\<close>, ordered as its integers.\<close>

datatype sessionStage = stageConsuming | stageDecoding | stageReconstructed | stageOrigin

fun stage_rank :: "sessionStage \<Rightarrow> nat" where
  "stage_rank stageConsuming = 0"
| "stage_rank stageDecoding = 1"
| "stage_rank stageReconstructed = 2"
| "stage_rank stageOrigin = 3"

instantiation sessionStage :: linorder
begin

definition less_eq_sessionStage :: "sessionStage \<Rightarrow> sessionStage \<Rightarrow> bool" where
  "a \<le> b \<longleftrightarrow> stage_rank a \<le> stage_rank b"

definition less_sessionStage :: "sessionStage \<Rightarrow> sessionStage \<Rightarrow> bool" where
  "a < b \<longleftrightarrow> stage_rank a < stage_rank b"

instance
proof
  fix a b c :: sessionStage
  show "a \<le> b \<Longrightarrow> b \<le> a \<Longrightarrow> a = b" by (cases a; cases b) (simp_all add: less_eq_sessionStage_def)
qed (auto simp: less_eq_sessionStage_def less_sessionStage_def)

end

definition maxConcurrentReads :: nat where "maxConcurrentReads = 64"
definition maxChunkDataSize :: nat where "maxChunkDataSize = 2 ^ 20"
definition chunkOutboxCap :: nat where "chunkOutboxCap = 16"

text \<open>A stream is a reference, and so is a \<open>PeerConn\<close>.\<close>

record pendingChunkRead =
  pr_peer :: PeerID
  pr_chunkID :: bytes
  pr_dataLen :: "32 word"
  pr_stream :: nat

record sessionPeer =
  sp_conn :: nat
  sp_chunkOutbox :: nat
  sp_completed :: bool

text \<open>
  Where the goroutine of a chunk stream is. It reads; it waits to post the payload it has read;
  it has posted or dropped the payload and is about to stop the callback of its read context; or
  its read has failed and the callback is stopped, the error coming with the code of the
  callback's \<open>CancelRead\<close> if the callback ran before that.
\<close>

datatype readState = Reading | Posting bytes | Stopping | Failing goerr "code option"

type_synonym outboundKey = "PeerID \<times> ChunkHandle"

text \<open>
  The session. A cancel function is the context it cancels, \<open>readSem\<close> the number of slots
  taken. The goroutines the session has started are part of it: its readers, each with its
  read context and where it is; the number of readers that are done with their stream but still
  hold their slot, and of those that have freed it and are about to post \<open>channelReadDone\<close>; and
  whether a decoder runs. \<open>newCI\<close>, \<open>newR\<close>, the inbox and the observer
  belong to the channel.
\<close>

record 's session =
  s_channelID :: ChannelID
  s_messageID :: MessageID
  s_preamble :: bytes
  stage :: sessionStage
  s_strategy :: 's
  createdAt :: int
  everHadPeers :: bool
  s_peers :: "(PeerID \<times> sessionPeer) list"
  outboundCancels :: "(outboundKey \<times> nat) list"
  readSem :: nat
  readQueue :: "pendingChunkRead list"
  dedupGroups :: "(bytes \<times> nat) list"
  sessCtx :: nat
  readers :: "(pendingChunkRead \<times> nat \<times> readState) list"
  readersRead :: nat
  readersDone :: nat
  decoderRuns :: bool

text \<open>
  What the handlers share with the rest of the program: per \<open>PeerConn\<close> its peer ID, its
  control state and whether \<open>wakeCh\<close> holds a token; the buffers of the outboxes and their
  number; the contexts; the streams given up, each with the code its holder calls
  \<open>CancelRead\<close> with and, before it, the code of the callback of its read context if that ran; the
  streams read to their end, with the code of the callback if that ran all the same; and the
  calls of the observer.
\<close>

record world =
  conn_id :: "nat \<Rightarrow> PeerID"
  ctrlState :: "nat \<Rightarrow> ctrlOutState"
  wakeCh :: "nat \<Rightarrow> bool"
  outboxes :: "nat \<Rightarrow> peerSendChunk list"
  newOutbox :: nat
  ctxs :: "gctx list"
  cancelled :: "(nat \<times> code option \<times> code) list"
  finished :: "(nat \<times> code option) list"
  observed :: "observation list"

definition observe :: "observation \<Rightarrow> world \<Rightarrow> world" where
  "observe ev w = w\<lparr>observed := observed w @ [ev]\<rparr>"

definition CancelRead :: "code \<Rightarrow> nat \<Rightarrow> world \<Rightarrow> world" where
  "CancelRead c stream w = w\<lparr>cancelled := cancelled w @ [(stream, None, c)]\<rparr>"

definition on_ctrl :: "nat \<Rightarrow> (ctrlOutState \<Rightarrow> ctrlOutState) \<Rightarrow> world \<Rightarrow> world" where
  "on_ctrl p f w = w\<lparr>ctrlState := (ctrlState w)(p := f (ctrlState w p))\<rparr>"

definition cancel :: "nat \<Rightarrow> goerr \<Rightarrow> world \<Rightarrow> world" where
  "cancel i cause w = w\<lparr>ctxs := cancel_ctx i cause (ctxs w)\<rparr>"

abbreviation session_key :: "'s session \<Rightarrow> sessionKey" where
  "session_key s \<equiv> sessionKey (s_channelID s) (s_messageID s)"

definition chunk_error :: "'s session \<Rightarrow> PeerID \<Rightarrow> goerr \<Rightarrow> world \<Rightarrow> world" where
  "chunk_error s peer e =
     observe (OnChunkError \<lparr>err_peer = Some peer, err_channelID = s_channelID s, err_messageID = s_messageID s, err_err = e\<rparr>)"

section \<open>Sending\<close>

text \<open>A range over the peers, in the order \<open>ord\<close>.\<close>

definition range_peers :: "(PeerID list \<Rightarrow> PeerID list) \<Rightarrow> 's session \<Rightarrow> (PeerID \<times> sessionPeer) list" where
  "range_peers ord s =
     List.map_filter (\<lambda>p. map_option (Pair p) (map_of (s_peers s) p)) (ord (map fst (s_peers s)))"

definition notifyPeersComplete :: "(PeerID list \<Rightarrow> PeerID list) \<Rightarrow> 's session \<Rightarrow> world \<Rightarrow> world" where
  "notifyPeersComplete ord s = fold (\<lambda>(_, sp). on_ctrl (sp_conn sp) (closeSessionStream (session_key s))) (range_peers ord s)"

definition notifyPeersSessionDone :: "(PeerID list \<Rightarrow> PeerID list) \<Rightarrow> 's session \<Rightarrow> world \<Rightarrow> world" where
  "notifyPeersSessionDone ord s = fold (\<lambda>(_, sp). on_ctrl (sp_conn sp) (closeSession (session_key s))) (range_peers ord s)"

definition broadcastRouting :: "('s, 'ci, 'r, 'p) Scheme \<Rightarrow> (PeerID list \<Rightarrow> PeerID list) \<Rightarrow> 'r \<Rightarrow> 's session \<Rightarrow> world \<Rightarrow> world" where
  "broadcastRouting sc ord update s w =
     (case R_Marshal sc update of
        Inl _ \<Rightarrow> w
      | Inr data \<Rightarrow>
          fold (\<lambda>(pid, sp) w.
            if sp_completed sp then w
            else case setRouting (session_key s) data (ctrlState w (sp_conn sp)) of
              (ok, c) \<Rightarrow>
                let w = w\<lparr>ctrlState := (ctrlState w)(sp_conn sp := c)\<rparr> in
                if ok then observe (OnRoutingUpdate pid (s_channelID s) (s_messageID s)) w else w)
            (range_peers ord s) w)"

definition chunk_sent :: "('s, 'ci, 'r, 'p) Scheme \<Rightarrow> PeerID \<Rightarrow> ChunkHandle \<Rightarrow> goerr option \<Rightarrow> 's session \<Rightarrow> 's session option" where
  "chunk_sent sc peer handle err s =
     map_option (\<lambda>st. s\<lparr>s_strategy := st\<rparr>) (Strategy_ChunkSent sc (s_strategy s) peer handle err)"

definition sendChunk :: "('s, 'ci, 'r, 'p) Scheme \<Rightarrow> PeerID \<Rightarrow> 'ci \<Rightarrow> bytes \<Rightarrow> 's session \<times> world \<Rightarrow> ('s session \<times> world) option" where
  "sendChunk sc peer chunkID data = (\<lambda>(s, w).
     let handle = CI_Handle sc chunkID in
     case CI_Marshal sc chunkID of
       Inl _ \<Rightarrow> do { s \<leftarrow> chunk_sent sc peer handle (Some ErrChunkMarshal) s; Some (s, w) }
     | Inr chunkIDBytes \<Rightarrow>
         (case map_of (s_peers s) peer of
            None \<Rightarrow> do { s \<leftarrow> chunk_sent sc peer handle (Some ErrChunkPeerGone) s; Some (s, w) }
          | Some sp \<Rightarrow>
              let (ctx, cs) = WithCancel (sessCtx s) (ctxs w);
                  w = w\<lparr>ctxs := cs\<rparr>;
                  chunk = \<lparr>sc_peerID = peer, sc_channelID = s_channelID s, sc_messageID = s_messageID s, sc_handle = handle,
                    sc_chunkID = chunkIDBytes, sc_payload = data, sc_ctx = ctx, sc_sessCtx = sessCtx s\<rparr>;
                  box = outboxes w (sp_chunkOutbox sp)
              in if length box < chunkOutboxCap then
                   Some (s\<lparr>outboundCancels := AList.update (peer, handle) ctx (outboundCancels s)\<rparr>,
                         w\<lparr>outboxes := (outboxes w)(sp_chunkOutbox sp := box @ [chunk]), wakeCh := (wakeCh w)(sp_conn sp := True)\<rparr>)
                 else do {
                   s \<leftarrow> chunk_sent sc peer handle (Some ErrChunkSlotFull) s;
                   Some (s, cancel ctx Canceled w)
                 }))"

fun send_chunks :: "('s, 'ci, 'r, 'p) Scheme \<Rightarrow> 'ci ChunkDispatch list \<Rightarrow> 's session \<times> world \<Rightarrow> ('s session \<times> world) option" where
  "send_chunks sc [] sw = Some sw"
| "send_chunks sc (c # cs) sw = do { sw \<leftarrow> sendChunk sc (dPeer c) (dChunkID c) (dData c) sw; send_chunks sc cs sw }"

definition drainPolls :: "('s, 'ci, 'r, 'p) Scheme \<Rightarrow> (PeerID list \<Rightarrow> PeerID list) \<Rightarrow> 's session \<times> world \<Rightarrow> ('s session \<times> world) option" where
  "drainPolls sc ord = (\<lambda>(s, w). do {
     (routing, st) \<leftarrow> Strategy_PollRouting sc (s_strategy s) False;
     let s = s\<lparr>s_strategy := st\<rparr>;
     let w = (case routing of None \<Rightarrow> w | Some r \<Rightarrow> broadcastRouting sc ord r s w);
     (chunks, st) \<leftarrow> Strategy_PollChunks sc (s_strategy s) (ord (map fst (s_peers s)));
     send_chunks sc chunks (s\<lparr>s_strategy := st\<rparr>, w)
   })"

section \<open>Receiving\<close>

text \<open>
  \<open>handleChunkStream\<close>. Starting a reader puts it among the session's readers; what it does
  then is in \<open>ChannelRun\<close>.
\<close>

definition chunk_verdict :: "'s session \<Rightarrow> Verdict" where
  "chunk_verdict s =
     (if stageReconstructed \<le> stage s then VerdictSurplus
      else if stage s = stageDecoding then VerdictDecoding
      else VerdictRedundant)"

definition dedup_ctx :: "('s, 'ci, 'r, 'p) Scheme \<Rightarrow> 'ci \<Rightarrow> 's session \<times> world \<Rightarrow> nat \<times> 's session \<times> world" where
  "dedup_ctx sc chunk = (\<lambda>(s, w).
     case Strategy_DedupKey sc (s_strategy s) chunk of
       None \<Rightarrow> (sessCtx s, s, w)
     | Some key \<Rightarrow>
         (case map_of (dedupGroups s) key of
            Some grp \<Rightarrow> (grp, s, w)
          | None \<Rightarrow>
              let (ctx, cs) = WithCancel (sessCtx s) (ctxs w)
              in (ctx, s\<lparr>dedupGroups := AList.update key ctx (dedupGroups s)\<rparr>, w\<lparr>ctxs := cs\<rparr>)))"

definition handleChunkStream :: "('s, 'ci, 'r, 'p) Scheme \<Rightarrow> pendingChunkRead \<Rightarrow> 's session \<times> world \<Rightarrow> 's session \<times> world" where
  "handleChunkStream sc pr = (\<lambda>(s, w).
     case CI_Unmarshal sc (pr_chunkID pr) of
       Inl err \<Rightarrow> (s, CancelRead Unspecified (pr_stream pr) (chunk_error s (pr_peer pr) (Wrap ''unmarshal chunk id'' err) w))
     | Inr chunk \<Rightarrow>
         if maxChunkDataSize < unat (pr_dataLen pr) then
           (s, CancelRead Unspecified (pr_stream pr) (chunk_error s (pr_peer pr) (ErrNew ''chunk data length exceeds max'') w))
         else
           let haveChunk = (stage s < stageDecoding \<and> Strategy_HaveChunk sc (s_strategy s) chunk) in
           if stageDecoding \<le> stage s \<or> haveChunk then
             (s, CancelRead Redundant (pr_stream pr)
                   (observe (OnChunkRcvd (pr_peer pr) (s_channelID s) (s_messageID s) (chunk_verdict s)) w))
           else if maxConcurrentReads \<le> readSem s then (s\<lparr>readQueue := readQueue s @ [pr]\<rparr>, w)
           else
             let s = s\<lparr>readSem := readSem s + 1\<rparr>; (ctx, s, w) = dedup_ctx sc chunk (s, w)
             in (s\<lparr>readers := readers s @ [(pr, ctx, Reading)]\<rparr>, w))"

lemma dedup_ctx_frame:
  "dedup_ctx sc chunk (s, w) = (ctx, s', w') \<Longrightarrow> s' = s\<lparr>dedupGroups := dedupGroups s'\<rparr> \<and> w' = w\<lparr>ctxs := ctxs w'\<rparr>"
  by (auto simp: dedup_ctx_def WithCancel_def Let_def split: option.splits)

lemma handleChunkStream_queue:
  assumes "readSem s < maxConcurrentReads"
  shows "readQueue (fst (handleChunkStream sc pr (s, w))) = readQueue s"
proof -
  have "readQueue (fst (snd (dedup_ctx sc chunk (s', w)))) = readQueue s'" for chunk s'
    using dedup_ctx_frame [of sc chunk s' w] by (cases "dedup_ctx sc chunk (s', w)") (auto dest: arg_cong [where f = readQueue])
  then show ?thesis using assms
    by (auto simp: handleChunkStream_def Let_def split_beta split: sum.split)
qed

function drainReads :: "('s, 'ci, 'r, 'p) Scheme \<Rightarrow> 's session \<times> world \<Rightarrow> 's session \<times> world" where
  "drainReads sc (s, w) =
     (case readQueue s of
        [] \<Rightarrow> (s, w)
      | pending # rest \<Rightarrow>
          if readSem s < maxConcurrentReads then drainReads sc (handleChunkStream sc pending (s\<lparr>readQueue := rest\<rparr>, w))
          else (s, w))"
  by pat_completeness auto
termination
proof (relation "measure (\<lambda>(sc, s, w). length (readQueue s))")
  fix sc :: "('s, 'ci, 'r, 'p) Scheme" and s :: "'s session" and w pending rest
  assume "readQueue s = pending # rest" "readSem s < maxConcurrentReads"
  then have "readQueue (fst (handleChunkStream sc pending (s\<lparr>readQueue := rest\<rparr>, w))) = rest"
    using handleChunkStream_queue [of "s\<lparr>readQueue := rest\<rparr>" sc pending w] by simp
  then show "((sc, handleChunkStream sc pending (s\<lparr>readQueue := rest\<rparr>, w)), sc, s, w) \<in> measure (\<lambda>(sc, s, w). length (readQueue s))"
    using \<open>readQueue s = pending # rest\<close> by (simp add: split_beta)
qed simp

declare drainReads.simps [simp del]

definition acceptChunk :: "('s, 'ci, 'r, 'p) Scheme \<Rightarrow> (PeerID list \<Rightarrow> PeerID list) \<Rightarrow> PeerID \<Rightarrow> 'ci \<Rightarrow> bytes \<Rightarrow>
    's session \<times> world \<Rightarrow> ('s session \<times> world) option" where
  "acceptChunk sc ord peer chunk payload = (\<lambda>(s, w). do {
     let group = Option.bind (Strategy_DedupKey sc (s_strategy s) chunk) (\<lambda>key. map_option (Pair key) (map_of (dedupGroups s) key));
     (verdict, complete, err, cancelsGroup, st) \<leftarrow> Strategy_TakeChunk sc (s_strategy s) peer chunk payload;
     let s = s\<lparr>s_strategy := st\<rparr>;
     let (s, w) = (case group of
         Some (key, grp) \<Rightarrow>
           if cancelsGroup then (s\<lparr>dedupGroups := AList.delete key (dedupGroups s)\<rparr>, cancel grp errChunkRedundant w) else (s, w)
       | None \<Rightarrow> (s, w));
     let w = (case err of None \<Rightarrow> w | Some e \<Rightarrow> chunk_error s peer e w);
     let w = observe (OnChunkRcvd peer (s_channelID s) (s_messageID s) verdict) w;
     let (s, w) =
       (if verdict = VerdictAccepted then
          let (got, need) = Strategy_Progress sc (s_strategy s);
              w = observe (OnStrategyProgress (s_channelID s) (s_messageID s) got need) w
          in if complete \<and> stage s = stageConsuming then
               (s\<lparr>stage := stageDecoding, decoderRuns := True\<rparr>, notifyPeersComplete ord s w)
             else (s, w)
        else (s, w));
     drainPolls sc ord (s, w)
   })"

definition handleChunkData :: "('s, 'ci, 'r, 'p) Scheme \<Rightarrow> (PeerID list \<Rightarrow> PeerID list) \<Rightarrow> PeerID \<Rightarrow> bytes \<Rightarrow> bytes \<Rightarrow>
    's session \<times> world \<Rightarrow> ('s session \<times> world) option" where
  "handleChunkData sc ord peer chunkID payload = (\<lambda>(s, w).
     case CI_Unmarshal sc chunkID of
       Inl err \<Rightarrow> Some (s, chunk_error s peer (Wrap ''unmarshal chunk id'' err) w)
     | Inr chunk \<Rightarrow>
         if Strategy_HaveChunk sc (s_strategy s) chunk then
           Some (s, observe (OnChunkRcvd peer (s_channelID s) (s_messageID s) (chunk_verdict s)) w)
         else
           (case Strategy_VerifyChunk sc (s_strategy s) peer chunk payload of
              VerdictAccepted \<Rightarrow> acceptChunk sc ord peer chunk payload (s, w)
            | VerdictPending \<Rightarrow> Some (s, w)
            | verdict \<Rightarrow> Some (s, observe (OnChunkRcvd peer (s_channelID s) (s_messageID s) verdict) w)))"

definition handleVerifyResult :: "('s, 'ci, 'r, 'p) Scheme \<Rightarrow> (PeerID list \<Rightarrow> PeerID list) \<Rightarrow> PeerID \<Rightarrow> bytes \<Rightarrow> bytes \<Rightarrow> Verdict \<Rightarrow>
    's session \<times> world \<Rightarrow> ('s session \<times> world) option" where
  "handleVerifyResult sc ord peer chunkID payload verdict = (\<lambda>(s, w).
     case CI_Unmarshal sc chunkID of
       Inl err \<Rightarrow> Some (s, w)
     | Inr chunk \<Rightarrow>
         if verdict = VerdictAccepted then acceptChunk sc ord peer chunk payload (s, w)
         else Some (s, observe (OnChunkRcvd peer (s_channelID s) (s_messageID s) verdict) w))"

section \<open>Routing, completed sends and peers\<close>

fun cancel_handles :: "PeerID \<Rightarrow> ChunkHandle list \<Rightarrow> 's session \<times> world \<Rightarrow> 's session \<times> world" where
  "cancel_handles peer [] sw = sw"
| "cancel_handles peer (h # hs) (s, w) =
     (case map_of (outboundCancels s) (peer, h) of
        None \<Rightarrow> cancel_handles peer hs (s, w)
      | Some ctx \<Rightarrow>
          cancel_handles peer hs (s\<lparr>outboundCancels := AList.delete (peer, h) (outboundCancels s)\<rparr>, cancel ctx Canceled w))"

definition handleRoutingUpdate :: "('s, 'ci, 'r, 'p) Scheme \<Rightarrow> (PeerID list \<Rightarrow> PeerID list) \<Rightarrow> PeerID \<Rightarrow> bytes \<Rightarrow>
    's session \<times> world \<Rightarrow> ('s session \<times> world) option" where
  "handleRoutingUpdate sc ord peer data = (\<lambda>(s, w).
     case R_Unmarshal sc data of
       Inl err \<Rightarrow> Some (s, chunk_error s peer err w)
     | Inr update \<Rightarrow>
         let (cancelHandles, err, st) = Strategy_RoutingUpdate sc (s_strategy s) peer update;
             s = s\<lparr>s_strategy := st\<rparr>;
             w = (case err of None \<Rightarrow> w | Some e \<Rightarrow> chunk_error s peer e w);
             w = observe (OnRoutingUpdate peer (s_channelID s) (s_messageID s)) w
         in drainPolls sc ord (cancel_handles peer cancelHandles (s, w)))"

definition handleSendComplete :: "('s, 'ci, 'r, 'p) Scheme \<Rightarrow> (PeerID list \<Rightarrow> PeerID list) \<Rightarrow> PeerID \<Rightarrow> ChunkHandle \<Rightarrow> goerr option \<Rightarrow> int \<Rightarrow>
    's session \<times> world \<Rightarrow> ('s session \<times> world) option" where
  "handleSendComplete sc ord peer handle err sz sw = do {
     let (s, w) = cancel_handles peer [handle] sw;
     s \<leftarrow> chunk_sent sc peer handle err s;
     let w = (if err = None then observe (OnChunkSent peer (s_channelID s) (s_messageID s) sz) w else w);
     drainPolls sc ord (s, w)
   }"

definition handlePeerAttached :: "('s, 'ci, 'r, 'p) Scheme \<Rightarrow> (PeerID list \<Rightarrow> PeerID list) \<Rightarrow> nat \<Rightarrow>
    's session \<times> world \<Rightarrow> ('s session \<times> world) option" where
  "handlePeerAttached sc ord p = (\<lambda>(s, w).
     let pid = conn_id w p in
     if map_of (s_peers s) pid \<noteq> None then Some (s, w)
     else do {
       let box = newOutbox w;
       let w = w\<lparr>newOutbox := box + 1, outboxes := (outboxes w)(box := [])\<rparr>;
       let s = s\<lparr>everHadPeers := True,
                 s_peers := AList.update pid \<lparr>sp_conn = p, sp_chunkOutbox = box, sp_completed = False\<rparr> (s_peers s),
                 s_strategy := Strategy_AttachPeer sc (s_strategy s) pid\<rparr>;
       (routing, st) \<leftarrow> Strategy_PollRouting sc (s_strategy s) True;
       let s = s\<lparr>s_strategy := st\<rparr>;
       let (initialRouting, w) =
         (case routing of
            None \<Rightarrow> ([], w)
          | Some r \<Rightarrow> (case R_Marshal sc r of Inl _ \<Rightarrow> [] | Inr bs \<Rightarrow> bs,
              observe (OnRoutingUpdate pid (s_channelID s) (s_messageID s)) w));
       drainPolls sc ord (s, on_ctrl p (openSession \<lparr>os_channelID = s_channelID s, os_messageID = s_messageID s, os_preamble = s_preamble s,
          os_initialRouting = initialRouting, os_chunkOutbox = box\<rparr>) w)
     })"

definition cancelOutbound :: "PeerID \<Rightarrow> 's session \<times> world \<Rightarrow> 's session \<times> world" where
  "cancelOutbound peer = (\<lambda>(s, w).
     (s\<lparr>outboundCancels := filter (\<lambda>((p, _), _). p \<noteq> peer) (outboundCancels s)\<rparr>,
      fold (\<lambda>((p, _), ctx). if p = peer then cancel ctx Canceled else id) (outboundCancels s) w))"

definition handlePeerDropped :: "('s, 'ci, 'r, 'p) Scheme \<Rightarrow> PeerID \<Rightarrow> 's session \<times> world \<Rightarrow> 's session \<times> world" where
  "handlePeerDropped sc peer = (\<lambda>(s, w).
     let w = (case map_of (s_peers s) peer of None \<Rightarrow> w | Some sp \<Rightarrow> on_ctrl (sp_conn sp) (closeSession (session_key s)) w);
         w = fold (\<lambda>pending. if pr_peer pending = peer then CancelRead Unspecified (pr_stream pending) else id) (readQueue s) w;
         s = s\<lparr>readQueue := filter (\<lambda>pending. pr_peer pending \<noteq> peer) (readQueue s), s_peers := AList.delete peer (s_peers s)\<rparr>;
         (s, w) = cancelOutbound peer (s, w)
     in (s\<lparr>s_strategy := Strategy_DetachPeer sc (s_strategy s) peer False\<rparr>, w))"

definition handlePeerCompleted :: "('s, 'ci, 'r, 'p) Scheme \<Rightarrow> PeerID \<Rightarrow> 's session \<times> world \<Rightarrow> 's session \<times> world" where
  "handlePeerCompleted sc peer = (\<lambda>(s, w).
     case map_of (s_peers s) peer of
       None \<Rightarrow> (s, w)
     | Some sp \<Rightarrow>
         if sp_completed sp then (s, w)
         else
           let s = s\<lparr>s_peers := AList.update peer (sp\<lparr>sp_completed := True\<rparr>) (s_peers s)\<rparr>;
               (s, w) = cancelOutbound peer (s, w)
           in (s\<lparr>s_strategy := Strategy_DetachPeer sc (s_strategy s) peer True\<rparr>, w))"

definition idle :: "'s session \<Rightarrow> bool" where
  "idle s \<longleftrightarrow>
     everHadPeers s \<and>
     (if stage s < stageReconstructed then s_peers s = [] else list_all (\<lambda>(_, sp). sp_completed sp) (s_peers s))"

section \<open>Closing\<close>

text \<open>
  The end of a reader. The callback registered with \<open>OnCancel\<close> runs once the read context ends,
  and \<open>stop\<close> waits for it: a reader whose read failed then gives the stream up, one that has read
  the whole stream leaves it.
\<close>

definition callback_code :: "gctx list \<Rightarrow> nat \<Rightarrow> code option" where
  "callback_code cs readCtx = map_option (\<lambda>cause. streamCancellationCode (Some cause)) (Cause cs readCtx)"

definition give_up :: "pendingChunkRead \<Rightarrow> nat \<Rightarrow> goerr \<Rightarrow> code option \<Rightarrow> world \<Rightarrow> world" where
  "give_up pr readCtx err callback w =
     w\<lparr>cancelled := cancelled w @ [(pr_stream pr, callback, streamCancellationCode (errors_Join [Some err, Cause (ctxs w) readCtx]))]\<rparr>"

definition leave_read :: "pendingChunkRead \<Rightarrow> nat \<Rightarrow> world \<Rightarrow> world" where
  "leave_read pr readCtx w = w\<lparr>finished := finished w @ [(pr_stream pr, callback_code (ctxs w) readCtx)]\<rparr>"

text \<open>
  \<open>closeWithCode\<close>. Once the session's context has ended, the callback of every reader runs;
  a read still going on then fails with an error \<open>re\<close> that depends on the stream; waiting for the
  goroutines leaves none.
\<close>

definition end_reader :: "(nat \<Rightarrow> goerr) \<Rightarrow> pendingChunkRead \<times> nat \<times> readState \<Rightarrow> world \<Rightarrow> world" where
  "end_reader re = (\<lambda>(pr, readCtx, state) w.
     case state of
       Reading \<Rightarrow> give_up pr readCtx (re (pr_stream pr)) (callback_code (ctxs w) readCtx) w
     | Failing err callback \<Rightarrow> give_up pr readCtx err callback w
     | _ \<Rightarrow> leave_read pr readCtx w)"

definition close_cause :: "code \<Rightarrow> goerr" where
  "close_cause c = (if c = Redundant then errChunkRedundant else if c = Refused then errStreamRefused else Canceled)"

definition closeWithCode :: "(nat \<Rightarrow> goerr) \<Rightarrow> (PeerID list \<Rightarrow> PeerID list) \<Rightarrow> code \<Rightarrow> 's session \<times> world \<Rightarrow> 's session \<times> world" where
  "closeWithCode re ord c = (\<lambda>(s, w).
     let w = notifyPeersSessionDone ord s w;
         w = cancel (sessCtx s) (close_cause c) w;
         w = fold (\<lambda>pending. CancelRead c (pr_stream pending)) (readQueue s) w;
         w = fold (end_reader re) (readers s) w
     in (s\<lparr>readQueue := [], readers := [], readSem := 0, readersRead := 0, readersDone := 0, decoderRuns := False\<rparr>, w))"

definition session_Close :: "(nat \<Rightarrow> goerr) \<Rightarrow> (PeerID list \<Rightarrow> PeerID list) \<Rightarrow> 's session \<times> world \<Rightarrow> 's session \<times> world" where
  "session_Close re ord = closeWithCode re ord Unspecified"

end
