(* ===== verification/Channel.thy ===== *)
theory Channel
  imports Session
begin

text \<open>
  \<open>src/broadcast/channel.go\<close> and the channel's events of \<open>src/broadcast/events.go\<close>: the actor of
  one channel, which owns the channel's members, its sessions and the chunk streams parked
  until their session exists. Every event is handled in one step by \<open>handle\<close>. What the runtime
  and the clock choose during a step is an argument: the orders in which maps are ranged over,
  the time and the random number a relay draws.
\<close>

section \<open>Events\<close>

text \<open>The protobuf messages that events carry.\<close>

record Chunk_Header =
  ch_Channel :: ChannelID
  ch_ObjectId :: MessageID
  ch_ChunkId :: bytes
  ch_DataLength :: "32 word"

record Sess_Open =
  so_Channel :: ChannelID
  so_ObjectId :: MessageID
  so_Preamble :: bytes
  so_InitialUpdate :: bytes

datatype 's channelEvent =
    channelChunkStream PeerID Chunk_Header nat
  | channelChunkData MessageID PeerID bytes bytes
  | channelReadDone MessageID
  | channelExpiry
  | channelSessionOpen PeerID Sess_Open
  | channelPeerChange PeerID "nat option"
  | channelPeerReconstructed MessageID PeerID
  | channelPeerSessionEnded MessageID PeerID nat
  | channelPublish MessageID 's bytes
  | channelChunkSent MessageID PeerID ChunkHandle "goerr option" int
  | channelRoutingUpdate PeerID MessageID bytes
  | channelVerifyResult MessageID PeerID bytes bytes Verdict
  | channelDecoded MessageID "goerr + bytes"

section \<open>State\<close>

definition channelInboxCap :: nat where "channelInboxCap = 1024"
definition maxParkedChunks :: nat where "maxParkedChunks = 32"

text \<open>Five minutes, in nanoseconds.\<close>

definition activeSessionTTL :: int where "activeSessionTTL = 5 * 60 * 10 ^ 9"

record parkedGroup =
  pg_at :: int
  pg_streams :: "(PeerID \<times> Chunk_Header \<times> nat) list"

record FullMessage =
  fm_ChannelID :: ChannelID
  fm_MessageID :: MessageID
  fm_Data :: bytes

text \<open>
  The channel. \<open>subCh\<close> is the subscriber's buffered channel, if there is one: its capacity and
  what it holds, and whether it was closed; \<open>timers\<close> are the deadlines of the expiry timers that were scheduled.
\<close>

record 's Channel =
  ch_id :: ChannelID
  subCh :: "(nat \<times> FullMessage list) option"
  subClosed :: bool
  members :: "(PeerID \<times> nat) list"
  sessions :: "(MessageID \<times> 's session) list"
  parked :: "(MessageID \<times> parkedGroup) list"
  tr_ctx :: nat
  timers :: "int list"

text \<open>
  What is decided elsewhere: the time, the orders in which the runtime ranges over maps, what
  \<open>rand.Uint64\<close> returns, and the error with which a read fails that the close of its session ends.
\<close>

record env =
  now :: int
  ord_peers :: "PeerID list \<Rightarrow> PeerID list"
  ord_msgs :: "MessageID list \<Rightarrow> MessageID list"
  rnd :: "64 word"
  read_err :: "nat \<Rightarrow> goerr"

text \<open>\<open>AttachChannel\<close>: the channel it builds, with its context derived from the engine's.\<close>

definition AttachChannel :: "ChannelID \<Rightarrow> nat \<Rightarrow> world \<Rightarrow> 's Channel \<times> world" where
  "AttachChannel i engineCtx w =
     (let (ctx, cs) = WithCancel engineCtx (ctxs w)
      in (\<lparr>ch_id = i, subCh = None, subClosed = False, members = [], sessions = [], parked = [], tr_ctx = ctx, timers = []\<rparr>, w\<lparr>ctxs := cs\<rparr>))"

definition Channel_Subscribe :: "nat \<Rightarrow> 's Channel \<Rightarrow> goerr option \<times> 's Channel" where
  "Channel_Subscribe cap tr =
     (if subCh tr \<noteq> None then (Some ErrAlreadySubscribed, tr)
      else if cap = 0 then (Some ErrUnbufferedSubscription, tr)
      else (None, tr\<lparr>subCh := Some (cap, [])\<rparr>))"

text \<open>\<open>Publish\<close> up to the event it posts; it then returns \<open>nil\<close>, or an error if the channel ends.\<close>

definition Publish :: "('s, 'ci, 'r, 'p) Scheme \<Rightarrow> MessageID \<Rightarrow> bytes \<Rightarrow> (goerr + 's channelEvent) option" where
  "Publish sc messageID payload = do {
     r \<leftarrow> NewOrigin sc messageID payload;
     Some (case r of
       Inl err \<Rightarrow> Inl err
     | Inr (strat, preamble) \<Rightarrow>
         (case P_Marshal sc preamble of
            Inl err \<Rightarrow> Inl err
          | Inr preambleBytes \<Rightarrow> Inr (channelPublish messageID strat preambleBytes)))
   }"

section \<open>Sessions of a channel\<close>

definition scheduleExpiry :: "int \<Rightarrow> 's Channel \<Rightarrow> 's Channel" where
  "scheduleExpiry deadline tr = tr\<lparr>timers := timers tr @ [deadline]\<rparr>"

definition newSession :: "env \<Rightarrow> MessageID \<Rightarrow> bytes \<Rightarrow> bool \<Rightarrow> 's \<Rightarrow> 's Channel \<times> world \<Rightarrow> 's session \<times> 's Channel \<times> world" where
  "newSession e messageID pre isOrig strategy = (\<lambda>(tr, w).
     let (ctx, cs) = WithCancel (tr_ctx tr) (ctxs w);
         sess = \<lparr>s_channelID = ch_id tr, s_messageID = messageID, s_preamble = pre,
           stage = (if isOrig then stageOrigin else stageConsuming), s_strategy = strategy, createdAt = now e,
           everHadPeers = False, s_peers = [], outboundCancels = [], readSem = 0, readQueue = [], dedupGroups = [],
           sessCtx = ctx, readers = [], readersRead = 0, readersDone = 0, decoderRuns = False\<rparr>
     in (sess, scheduleExpiry (now e + activeSessionTTL) tr, w\<lparr>ctxs := cs\<rparr>))"

definition set_sess :: "MessageID \<Rightarrow> 's session \<times> world \<Rightarrow> 's Channel \<Rightarrow> 's Channel \<times> world" where
  "set_sess m = (\<lambda>(s, w) tr. (tr\<lparr>sessions := AList.update m s (sessions tr)\<rparr>, w))"

definition cancel_parked :: "code \<Rightarrow> parkedGroup \<Rightarrow> world \<Rightarrow> world" where
  "cancel_parked c g = fold (\<lambda>(_, _, stream). CancelRead c stream) (pg_streams g)"

definition disposeSession :: "env \<Rightarrow> MessageID \<Rightarrow> string \<Rightarrow> 's Channel \<times> world \<Rightarrow> 's Channel \<times> world" where
  "disposeSession e messageID reason = (\<lambda>(tr, w).
     case map_of (sessions tr) messageID of
       None \<Rightarrow> (tr, w)
     | Some sess \<Rightarrow>
         let c = (if stageDecoding \<le> stage sess then Redundant else if reason = ''ttl_expired'' then Refused else Unspecified);
             w = (case map_of (parked tr) messageID of None \<Rightarrow> w | Some g \<Rightarrow> cancel_parked c g w);
             tr = tr\<lparr>sessions := AList.delete messageID (sessions tr), parked := AList.delete messageID (parked tr)\<rparr>;
             (_, w) = closeWithCode (read_err e) (ord_peers e) c (sess, w)
         in (tr, observe (OnSessionDisposed (ch_id tr) messageID reason) w))"

definition disposeIfIdle :: "env \<Rightarrow> MessageID \<Rightarrow> 's Channel \<times> world \<Rightarrow> 's Channel \<times> world" where
  "disposeIfIdle e m = (\<lambda>(tr, w).
     case map_of (sessions tr) m of
       None \<Rightarrow> (tr, w)
     | Some sess \<Rightarrow> if idle sess then disposeSession e (s_messageID sess) ''all_peers_done'' (tr, w) else (tr, w))"

fun attach_all :: "('s, 'ci, 'r, 'p) Scheme \<Rightarrow> env \<Rightarrow> nat list \<Rightarrow> 's session \<times> world \<Rightarrow> ('s session \<times> world) option" where
  "attach_all sc e [] sw = Some sw"
| "attach_all sc e (p # ps) sw = do { sw \<leftarrow> handlePeerAttached sc (ord_peers e) p sw; attach_all sc e ps sw }"

text \<open>The connections of the members, in the order the runtime ranges over them.\<close>

definition range_members :: "env \<Rightarrow> 's Channel \<Rightarrow> nat list" where
  "range_members e tr = List.map_filter (map_of (members tr)) (ord_peers e (map fst (members tr)))"

definition pending_of :: "PeerID \<times> Chunk_Header \<times> nat \<Rightarrow> pendingChunkRead" where
  "pending_of = (\<lambda>(peer, h, stream).
     \<lparr>pr_peer = peer, pr_chunkID = ch_ChunkId h, pr_dataLen = ch_DataLength h, pr_stream = stream\<rparr>)"

definition createRelaySession :: "('s, 'ci, 'r, 'p) Scheme \<Rightarrow> env \<Rightarrow> MessageID \<Rightarrow> bytes \<Rightarrow> PeerID \<Rightarrow> bytes \<Rightarrow>
    's Channel \<times> world \<Rightarrow> (goerr option \<times> 's Channel \<times> world) option" where
  "createRelaySession sc e messageID preambleBytes initialPeer initialRouting = (\<lambda>(tr, w).
     case P_Unmarshal sc preambleBytes of
       Inl err \<Rightarrow> Some (Some err, tr, w)
     | Inr p \<Rightarrow>
         (case NewRelay sc (rnd e) messageID p of
            Inl err \<Rightarrow> Some (Some err, tr, w)
          | Inr strat \<Rightarrow> do {
              let (sess, tr, w) = newSession e messageID preambleBytes False strat (tr, w);
              sw \<leftarrow> attach_all sc e (range_members e tr) (sess, w);
              sw \<leftarrow> (if 0 < length initialRouting then handleRoutingUpdate sc (ord_peers e) initialPeer initialRouting sw else Some sw);
              let sw = (case map_of (parked tr) messageID of
                  None \<Rightarrow> sw
                | Some g \<Rightarrow> fold (\<lambda>c. handleChunkStream sc (pending_of c)) (pg_streams g) sw);
              let (tr, w) = set_sess messageID sw (tr\<lparr>parked := AList.delete messageID (parked tr)\<rparr>);
              Some (None, tr, observe (OnSessionStarted (ch_id tr) messageID SessionRoleRelay) w)
            }))"

text \<open>
  What the goroutine of \<open>maybeWatchVerified\<close> posts for the results it receives, while the channel
  runs: a result whose chunk cannot be marshalled is skipped.
\<close>

record 'ci VerifyResult =
  vr_Peer :: PeerID
  vr_ChunkID :: 'ci
  vr_Data :: bytes
  vr_Verdict :: Verdict

definition maybeWatchVerified :: "('s, 'ci, 'r, 'p) Scheme \<Rightarrow> MessageID \<Rightarrow> 'ci VerifyResult list \<Rightarrow> 's channelEvent list" where
  "maybeWatchVerified sc msgID results = List.map_filter (\<lambda>r.
     case CI_Marshal sc (vr_ChunkID r) of
       Inl _ \<Rightarrow> None
     | Inr chunkIDBytes \<Rightarrow> Some (channelVerifyResult msgID (vr_Peer r) chunkIDBytes (vr_Data r) (vr_Verdict r))) results"

section \<open>Handlers\<close>

definition deliverMessage :: "MessageID \<Rightarrow> bytes \<Rightarrow> 's Channel \<times> world \<Rightarrow> 's Channel \<times> world" where
  "deliverMessage messageID payload = (\<lambda>(tr, w).
     let tr = (case subCh tr of
         None \<Rightarrow> tr
       | Some (cap, buf) \<Rightarrow>
           if length buf < cap
           then tr\<lparr>subCh := Some (cap, buf @ [\<lparr>fm_ChannelID = ch_id tr, fm_MessageID = messageID, fm_Data = payload\<rparr>])\<rparr>
           else tr)
     in (tr, observe (OnSessionDecoded (ch_id tr) messageID) w))"

definition handleChunk :: "('s, 'ci, 'r, 'p) Scheme \<Rightarrow> env \<Rightarrow> PeerID \<Rightarrow> Chunk_Header \<Rightarrow> nat \<Rightarrow> 's Channel \<times> world \<Rightarrow> 's Channel \<times> world" where
  "handleChunk sc e peer frame stream = (\<lambda>(tr, w).
     let messageID = ch_ObjectId frame in
     case map_of (sessions tr) messageID of
       Some sess \<Rightarrow> set_sess messageID (handleChunkStream sc (pending_of (peer, frame, stream)) (drainReads sc (sess, w))) tr
     | None \<Rightarrow>
         (case map_of (parked tr) messageID of
            None \<Rightarrow>
              (scheduleExpiry (now e + activeSessionTTL)
                 (tr\<lparr>parked := AList.update messageID \<lparr>pg_at = now e, pg_streams = [(peer, frame, stream)]\<rparr> (parked tr)\<rparr>), w)
          | Some g \<Rightarrow>
              if maxParkedChunks \<le> length (pg_streams g) then (tr, CancelRead Unspecified stream w)
              else (tr\<lparr>parked := AList.update messageID (g\<lparr>pg_streams := pg_streams g @ [(peer, frame, stream)]\<rparr>) (parked tr)\<rparr>, w)))"

definition handleSessionOpen :: "('s, 'ci, 'r, 'p) Scheme \<Rightarrow> env \<Rightarrow> PeerID \<Rightarrow> Sess_Open \<Rightarrow> 's Channel \<times> world \<Rightarrow> ('s Channel \<times> world) option" where
  "handleSessionOpen sc e peer msg = (\<lambda>(tr, w).
     let messageID = so_ObjectId msg in
     case map_of (sessions tr) messageID of
       Some sess \<Rightarrow>
         if 0 < length (so_InitialUpdate msg) then do {
           sw \<leftarrow> handleRoutingUpdate sc (ord_peers e) peer (so_InitialUpdate msg) (sess, w);
           Some (set_sess messageID sw tr)
         } else Some (tr, w)
     | None \<Rightarrow> do {
         (err, tr, w) \<leftarrow> createRelaySession sc e messageID (so_Preamble msg) peer (so_InitialUpdate msg) (tr, w);
         Some (tr, case err of
             None \<Rightarrow> w
           | Some er \<Rightarrow> observe (OnChunkError \<lparr>err_peer = Some peer, err_channelID = ch_id tr, err_messageID = messageID, err_err = er\<rparr>) w)
       })"

fun attach_sessions :: "('s, 'ci, 'r, 'p) Scheme \<Rightarrow> env \<Rightarrow> nat \<Rightarrow> MessageID list \<Rightarrow> 's Channel \<times> world \<Rightarrow> ('s Channel \<times> world) option" where
  "attach_sessions sc e p [] trw = Some trw"
| "attach_sessions sc e p (m # ms) (tr, w) =
     (case map_of (sessions tr) m of
        None \<Rightarrow> attach_sessions sc e p ms (tr, w)
      | Some sess \<Rightarrow> do {
          sw \<leftarrow> handlePeerAttached sc (ord_peers e) p (sess, w);
          attach_sessions sc e p ms (set_sess m sw tr)
        })"

definition handlePeerBound :: "('s, 'ci, 'r, 'p) Scheme \<Rightarrow> env \<Rightarrow> PeerID \<Rightarrow> nat \<Rightarrow> 's Channel \<times> world \<Rightarrow> ('s Channel \<times> world) option" where
  "handlePeerBound sc e peer p = (\<lambda>(tr, w).
     if map_of (members tr) peer = Some p then Some (tr, w)
     else attach_sessions sc e p (ord_msgs e (map fst (sessions tr))) (tr\<lparr>members := AList.update peer p (members tr)\<rparr>, w))"

text \<open>The streams of a peer that left are cancelled; a group without streams goes.\<close>

definition unpark_group :: "PeerID \<Rightarrow> MessageID \<Rightarrow> 's Channel \<times> world \<Rightarrow> 's Channel \<times> world" where
  "unpark_group peer m = (\<lambda>(tr, w).
     case map_of (parked tr) m of
       None \<Rightarrow> (tr, w)
     | Some g \<Rightarrow>
         let kept = filter (\<lambda>(p, _). p \<noteq> peer) (pg_streams g);
             w = fold (\<lambda>(p, _, stream). if p = peer then CancelRead Unspecified stream else id) (pg_streams g) w
         in (tr\<lparr>parked := if length kept = 0 then AList.delete m (parked tr)
                         else AList.update m (g\<lparr>pg_streams := kept\<rparr>) (parked tr)\<rparr>, w))"

definition drop_from_session :: "('s, 'ci, 'r, 'p) Scheme \<Rightarrow> env \<Rightarrow> PeerID \<Rightarrow> MessageID \<Rightarrow> 's Channel \<times> world \<Rightarrow> 's Channel \<times> world" where
  "drop_from_session sc e peer m = (\<lambda>(tr, w).
     case map_of (sessions tr) m of
       None \<Rightarrow> (tr, w)
     | Some sess \<Rightarrow> disposeIfIdle e m (set_sess m (handlePeerDropped sc peer (sess, w)) tr))"

definition handlePeerUnbound :: "('s, 'ci, 'r, 'p) Scheme \<Rightarrow> env \<Rightarrow> PeerID \<Rightarrow> 's Channel \<times> world \<Rightarrow> 's Channel \<times> world" where
  "handlePeerUnbound sc e peer = (\<lambda>(tr, w).
     let tr = tr\<lparr>members := AList.delete peer (members tr)\<rparr>;
         (tr, w) = fold (unpark_group peer) (ord_msgs e (map fst (parked tr))) (tr, w)
     in fold (drop_from_session sc e peer) (ord_msgs e (map fst (sessions tr))) (tr, w))"

definition handlePublish :: "('s, 'ci, 'r, 'p) Scheme \<Rightarrow> env \<Rightarrow> MessageID \<Rightarrow> 's \<Rightarrow> bytes \<Rightarrow> 's Channel \<times> world \<Rightarrow> ('s Channel \<times> world) option" where
  "handlePublish sc e messageID strategy preambleData trw = do {
     let (sess, tr, w) = newSession e messageID preambleData True strategy (disposeSession e messageID ''replaced'' trw);
     sw \<leftarrow> attach_all sc e (range_members e tr) (sess, w);
     sw \<leftarrow> drainPolls sc (ord_peers e) sw;
     let (tr, w) = set_sess messageID sw tr;
     Some (tr, observe (OnSessionStarted (ch_id tr) messageID SessionRoleOrigin) w)
   }"

definition expire_session :: "env \<Rightarrow> MessageID \<Rightarrow> 's Channel \<times> world \<Rightarrow> 's Channel \<times> world" where
  "expire_session e m = (\<lambda>(tr, w).
     case map_of (sessions tr) m of
       None \<Rightarrow> (tr, w)
     | Some sess \<Rightarrow> if activeSessionTTL \<le> now e - createdAt sess then disposeSession e m ''ttl_expired'' (tr, w) else (tr, w))"

definition expire_parked :: "env \<Rightarrow> MessageID \<Rightarrow> 's Channel \<times> world \<Rightarrow> 's Channel \<times> world" where
  "expire_parked e m = (\<lambda>(tr, w).
     case map_of (parked tr) m of
       None \<Rightarrow> (tr, w)
     | Some g \<Rightarrow>
         if activeSessionTTL \<le> now e - pg_at g then (tr\<lparr>parked := AList.delete m (parked tr)\<rparr>, cancel_parked Refused g w) else (tr, w))"

definition expireDue :: "env \<Rightarrow> 's Channel \<times> world \<Rightarrow> 's Channel \<times> world" where
  "expireDue e trw =
     (let (tr, w) = fold (expire_session e) (ord_msgs e (map fst (sessions (fst trw)))) trw
      in fold (expire_parked e) (ord_msgs e (map fst (parked tr))) (tr, w))"

text \<open>A handler of the session of message \<open>m\<close>, if there is one.\<close>

definition with_session :: "MessageID \<Rightarrow> ('s session \<times> world \<Rightarrow> ('s session \<times> world) option) \<Rightarrow> 's Channel \<times> world \<Rightarrow> ('s Channel \<times> world) option" where
  "with_session m f = (\<lambda>(tr, w).
     case map_of (sessions tr) m of
       None \<Rightarrow> Some (tr, w)
     | Some sess \<Rightarrow> do { sw \<leftarrow> f (sess, w); Some (set_sess m sw tr) })"

definition handleDecoded :: "env \<Rightarrow> MessageID \<Rightarrow> goerr + bytes \<Rightarrow> 's Channel \<times> world \<Rightarrow> 's Channel \<times> world" where
  "handleDecoded e m result = (\<lambda>(tr, w).
     case map_of (sessions tr) m of
       None \<Rightarrow> (tr, w)
     | Some sess \<Rightarrow>
         if stage sess < stageReconstructed then
           (case result of
              Inl err \<Rightarrow>
                (tr, observe (OnChunkError \<lparr>err_peer = None, err_channelID = s_channelID sess, err_messageID = s_messageID sess,
                       err_err = Wrap ''decode'' err\<rparr>) w)
            | Inr payload \<Rightarrow>
                let (tr, w) = deliverMessage (s_messageID sess) payload (tr, w)
                in disposeIfIdle e m (set_sess m (sess\<lparr>stage := stageReconstructed\<rparr>, w) tr))
         else (tr, w))"

fun handle :: "('s, 'ci, 'r, 'p) Scheme \<Rightarrow> env \<Rightarrow> 's channelEvent \<Rightarrow> 's Channel \<times> world \<Rightarrow> ('s Channel \<times> world) option" where
  "handle sc e channelExpiry trw = Some (expireDue e trw)"
| "handle sc e (channelReadDone m) trw = with_session m (\<lambda>sw. Some (drainReads sc sw)) trw"
| "handle sc e (channelChunkStream peer frame stream) trw = Some (handleChunk sc e peer frame stream trw)"
| "handle sc e (channelChunkData m peer chunkID payload) trw = with_session m (handleChunkData sc (ord_peers e) peer chunkID payload) trw"
| "handle sc e (channelSessionOpen peer msg) trw = handleSessionOpen sc e peer msg trw"
| "handle sc e (channelPeerChange peer (Some p)) trw = handlePeerBound sc e peer p trw"
| "handle sc e (channelPeerChange peer None) trw = Some (handlePeerUnbound sc e peer trw)"
| "handle sc e (channelPublish m strategy preambleData) trw = handlePublish sc e m strategy preambleData trw"
| "handle sc e (channelChunkSent m peer h err sz) trw = with_session m (handleSendComplete sc (ord_peers e) peer h err sz) trw"
| "handle sc e (channelRoutingUpdate peer m data) trw = with_session m (handleRoutingUpdate sc (ord_peers e) peer data) trw"
| "handle sc e (channelPeerReconstructed m peer) trw =
     map_option (disposeIfIdle e m) (with_session m (\<lambda>sw. Some (handlePeerCompleted sc peer sw)) trw)"
| "handle sc e (channelPeerSessionEnded m peer p) trw =
     (if map_of (members (fst trw)) peer \<noteq> Some p then Some trw else Some (drop_from_session sc e peer m trw))"
| "handle sc e (channelVerifyResult m peer chunkID payload verdict) trw = with_session m (handleVerifyResult sc (ord_peers e) peer chunkID payload verdict) trw"
| "handle sc e (channelDecoded m result) trw = Some (handleDecoded e m result trw)"

section \<open>Shutdown\<close>

text \<open>\<open>shutdown\<close>, with the events still in the inbox, which \<open>drainInbox\<close> takes out.\<close>

fun drainInbox :: "'s channelEvent list \<Rightarrow> world \<Rightarrow> world" where
  "drainInbox [] w = w"
| "drainInbox (channelChunkStream _ _ stream # es) w = drainInbox es (CancelRead Unspecified stream w)"
| "drainInbox (_ # es) w = drainInbox es w"

definition shutdown :: "env \<Rightarrow> 's channelEvent list \<Rightarrow> 's Channel \<times> world \<Rightarrow> 's Channel \<times> world" where
  "shutdown e inbox = (\<lambda>(tr, w).
     let w = fold (\<lambda>m w. case map_of (sessions tr) m of None \<Rightarrow> w | Some sess \<Rightarrow> snd (session_Close (read_err e) (ord_peers e) (sess, w)))
               (ord_msgs e (map fst (sessions tr))) w;
         w = fold (\<lambda>m w. case map_of (parked tr) m of None \<Rightarrow> w | Some g \<Rightarrow> cancel_parked Unspecified g w)
               (ord_msgs e (map fst (parked tr))) w
     in (tr\<lparr>subClosed := subCh tr \<noteq> None\<rparr>, drainInbox inbox w))"

end
