(* ===== verification/PeerIO.thy ===== *)
theory PeerIO
  imports Channel
begin

text \<open>
  \<open>src/broadcast/peer_in.go\<close>, \<open>peer_ctrl.go\<close> and the function \<open>handshake\<close> of \<open>peer.go\<close>: what a
  \<open>PeerConn\<close> writes on the streams it opens, and what it makes of the streams its peer opens.
  Of \<open>src/stream.go\<close> there is the error that a reset stream returns. The goroutines that write
  are functions on the streams opened so far; every call that can fail or wait asks the
  environment how it ends. The goroutines that read are functions from the bytes of a stream to
  the calls they make.
\<close>

section \<open>Streams\<close>

text \<open>
  \<open>resetError\<close>. A \<open>*ResetError\<close> is a wrapped error with this text; its code is parsed from the
  QUIC reset that it wraps.
\<close>

fun as_StreamError :: "goerr \<Rightarrow> 64 word option" where
  "as_StreamError (StreamError raw _) = Some raw"
| "as_StreamError _ = None"

definition resetError :: "goerr \<Rightarrow> goerr" where
  "resetError err = (case errors_AsType as_StreamError err of None \<Rightarrow> err | Some _ \<Rightarrow> Wrap ''ethp2p stream reset'' err)"

fun as_ResetError :: "goerr \<Rightarrow> code option" where
  "as_ResetError (Wrap t err) =
     (if t = ''ethp2p stream reset'' then map_option ParseCode (errors_AsType as_StreamError err) else None)"
| "as_ResetError _ = None"

text \<open>
  A stream we opened: the bytes written and how we ended it. The first end stands; a callback of
  \<open>OnCancel\<close> that resets a stream after the calls it was registered for have succeeded is left out.
\<close>

datatype stream_end = Fin | Reset code

record sendStream =
  ss_protocol :: "32 word"
  ss_data :: bytes
  ss_end :: "stream_end option"

definition end_stream :: "stream_end option \<Rightarrow> sendStream \<Rightarrow> sendStream" where
  "end_stream x s = (if ss_end s = None then s\<lparr>ss_end := x\<rparr> else s)"

text \<open>
  The error the peer's reads return after the data: a FIN follows all of it, while a reset may
  overtake what was written before it.
\<close>

fun end_error :: "stream_end \<Rightarrow> goerr" where
  "end_error Fin = EOF"
| "end_error (Reset c) = resetError (StreamError (Code_Wire c) True)"

section \<open>Messages\<close>

text \<open>The protobuf marshalling of the six messages of the broadcast protocols.\<close>

record bcastpb =
  m_Handshake :: "32 word \<times> string list \<Rightarrow> goerr + bytes"
  u_Handshake :: "bytes \<Rightarrow> goerr + 32 word \<times> string list"
  m_Subscribe :: "string \<Rightarrow> goerr + bytes"
  u_Subscribe :: "bytes \<Rightarrow> goerr + string"
  m_Unsubscribe :: "string \<Rightarrow> goerr + bytes"
  u_Unsubscribe :: "bytes \<Rightarrow> goerr + string"
  m_Open :: "Sess_Open \<Rightarrow> goerr + bytes"
  u_Open :: "bytes \<Rightarrow> goerr + Sess_Open"
  m_Update :: "bytes \<Rightarrow> goerr + bytes"
  u_Update :: "bytes \<Rightarrow> goerr + bytes"
  m_Header :: "Chunk_Header \<Rightarrow> goerr + bytes"
  u_Header :: "bytes \<Rightarrow> goerr + Chunk_Header"

section \<open>The writing side\<close>

text \<open>
  The state of the goroutines that write. The calls to streams and the waits on \<open>slotCh\<close> are
  numbered: \<open>fault_at\<close> says which of them fail, after how many bytes of a write, with which
  error and, when the end of the peer's context cancelled the stream meanwhile, with which code;
  a wait on \<open>slotCh\<close> fails when the context ends first. \<open>ended_at\<close> says when the peer's context
  has ended for other reasons than \<open>io_done\<close>, which is set by \<open>p.cancel\<close>.
\<close>

record fault =
  flt_wrote :: nat
  flt_err :: goerr
  flt_code :: "code option"

record peer_env =
  fault_at :: "nat \<Rightarrow> fault option"
  ended_at :: "nat \<Rightarrow> bool"

type_synonym slotUpdate = "sessionKey \<times> nat option"

record peerIO =
  io_streams :: "sendStream list"
  io_ctrlOut :: nat
  io_sessions :: "(sessionKey \<times> nat) list"
  io_slotCh :: "slotUpdate list"
  io_calls :: nat
  io_done :: bool

definition tick :: "peerIO \<Rightarrow> peerIO" where
  "tick io = io\<lparr>io_calls := io_calls io + 1\<rparr>"

definition on_stream :: "nat \<Rightarrow> (sendStream \<Rightarrow> sendStream) \<Rightarrow> peerIO \<Rightarrow> peerIO" where
  "on_stream i f io = io\<lparr>io_streams := (io_streams io)[i := f (io_streams io ! i)]\<rparr>"

definition OpenUniStream :: "peer_env \<Rightarrow> 32 word \<Rightarrow> peerIO \<Rightarrow> (goerr + nat) \<times> peerIO" where
  "OpenUniStream E proto io =
     (case fault_at E (io_calls io) of
        Some f \<Rightarrow> (Inl (flt_err f), tick io)
      | None \<Rightarrow> (Inr (length (io_streams io)),
                 tick (io\<lparr>io_streams := io_streams io @ [\<lparr>ss_protocol = proto, ss_data = [], ss_end = None\<rparr>]\<rparr>)))"

definition Write_stream :: "peer_env \<Rightarrow> nat \<Rightarrow> bytes \<Rightarrow> peerIO \<Rightarrow> goerr option \<times> peerIO" where
  "Write_stream E i b io =
     (case fault_at E (io_calls io) of
        Some f \<Rightarrow> (Some (flt_err f), tick (on_stream i (\<lambda>s. end_stream (map_option Reset (flt_code f))
                     (s\<lparr>ss_data := ss_data s @ take (flt_wrote f) b\<rparr>)) io))
      | None \<Rightarrow> (None, tick (on_stream i (\<lambda>s. s\<lparr>ss_data := ss_data s @ b\<rparr>) io)))"

definition Close_stream :: "peer_env \<Rightarrow> nat \<Rightarrow> peerIO \<Rightarrow> goerr option \<times> peerIO" where
  "Close_stream E i io =
     (case fault_at E (io_calls io) of
        Some f \<Rightarrow> (Some (flt_err f), tick (on_stream i (end_stream (map_option Reset (flt_code f))) io))
      | None \<Rightarrow> (None, tick (on_stream i (end_stream (Some Fin)) io)))"

definition CancelWrite :: "code \<Rightarrow> nat \<Rightarrow> peerIO \<Rightarrow> peerIO" where
  "CancelWrite c i io = on_stream i (end_stream (Some (Reset c))) io"

definition send_slot :: "peer_env \<Rightarrow> slotUpdate \<Rightarrow> peerIO \<Rightarrow> bool \<times> peerIO" where
  "send_slot E upd io =
     (case fault_at E (io_calls io) of
        Some _ \<Rightarrow> (False, tick io)
      | None \<Rightarrow> (True, tick (io\<lparr>io_slotCh := io_slotCh io @ [upd]\<rparr>)))"

definition write_frame :: "peer_env \<Rightarrow> ('m \<Rightarrow> goerr + bytes) \<Rightarrow> 64 word \<Rightarrow> 'm \<Rightarrow> nat \<Rightarrow> peerIO \<Rightarrow> goerr option \<times> peerIO" where
  "write_frame E marshal ty msg i io =
     (case writeFrame (\<lambda>b. fst (Write_stream E i b io)) marshal ty msg of
        (None, err) \<Rightarrow> (err, io)
      | (Some b, err) \<Rightarrow> (err, snd (Write_stream E i b io)))"

text \<open>\<open>if err := s.Close(); err != nil { s.CancelWrite(streamFailureCode(err)) }\<close>\<close>

definition close_or_cancel :: "peer_env \<Rightarrow> nat \<Rightarrow> peerIO \<Rightarrow> goerr option \<times> peerIO" where
  "close_or_cancel E i io =
     (case Close_stream E i io of
        (None, io) \<Rightarrow> (None, io)
      | (Some err, io) \<Rightarrow> (Some err, CancelWrite (streamFailureCode (Some err)) i io))"

subsection \<open>The control loop\<close>

definition peer_handleSessionOpen :: "peer_env \<Rightarrow> bcastpb \<Rightarrow> peerOpenSession \<Rightarrow> peerIO \<Rightarrow> peerIO" where
  "peer_handleSessionOpen E pb e io =
     (let key = sessionKey (os_channelID e) (os_messageID e);
          (go, io) = (case map_of (io_sessions io) key of
              None \<Rightarrow> (True, io)
            | Some previous \<Rightarrow>
                let io = snd (close_or_cancel E previous io)
                in send_slot E (key, None) (io\<lparr>io_sessions := AList.delete key (io_sessions io)\<rparr>))
      in if \<not> go then io
         else case OpenUniStream E SESS io of
           (Inl _, io) \<Rightarrow> io\<lparr>io_done := True\<rparr>
         | (Inr s, io) \<Rightarrow>
             (case write_frame E (m_Open pb) openFrame \<lparr>so_Channel = os_channelID e, so_ObjectId = os_messageID e,
                     so_Preamble = os_preamble e, so_InitialUpdate = os_initialRouting e\<rparr> s io of
                (Some err, io) \<Rightarrow> (CancelWrite (streamFailureCode (Some err)) s io)\<lparr>io_done := True\<rparr>
              | (None, io) \<Rightarrow> snd (send_slot E (key, Some (os_chunkOutbox e)) (io\<lparr>io_sessions := AList.update key s (io_sessions io)\<rparr>))))"

definition writeCtrl :: "peer_env \<Rightarrow> ('m \<Rightarrow> goerr + bytes) \<Rightarrow> 64 word \<Rightarrow> 'm \<Rightarrow> peerIO \<Rightarrow> peerIO" where
  "writeCtrl E marshal ty msg io =
     (case write_frame E marshal ty msg (io_ctrlOut io) io of
        (None, io) \<Rightarrow> io
      | (Some err, io) \<Rightarrow> (CancelWrite (streamFailureCode (Some err)) (io_ctrlOut io) io)\<lparr>io_done := True\<rparr>)"

definition handleSendRoutingUpdate :: "peer_env \<Rightarrow> bcastpb \<Rightarrow> sessionKey \<Rightarrow> bytes \<Rightarrow> peerIO \<Rightarrow> peerIO" where
  "handleSendRoutingUpdate E pb key upd io =
     (case map_of (io_sessions io) key of
        None \<Rightarrow> io
      | Some stream \<Rightarrow>
          (case write_frame E (m_Update pb) updateFrame upd stream io of
             (None, io) \<Rightarrow> io
           | (Some err, io) \<Rightarrow>
               let io = CancelWrite (streamFailureCode (Some err)) stream io
               in io\<lparr>io_sessions := AList.delete key (io_sessions io)\<rparr>))"

definition handleSessionDone :: "peer_env \<Rightarrow> sessionKey \<Rightarrow> peerIO \<Rightarrow> peerIO" where
  "handleSessionDone E key io =
     (let io = (case map_of (io_sessions io) key of None \<Rightarrow> io | Some s \<Rightarrow> snd (close_or_cancel E s io))
      in snd (send_slot E (key, None) (io\<lparr>io_sessions := AList.delete key (io_sessions io)\<rparr>)))"

fun handleCtrl :: "peer_env \<Rightarrow> bcastpb \<Rightarrow> peerCtrlEvent \<Rightarrow> peerIO \<Rightarrow> peerIO" where
  "handleCtrl E pb (OpenSession e) io = peer_handleSessionOpen E pb e io"
| "handleCtrl E pb (SendRouting key upd) io = handleSendRoutingUpdate E pb key upd io"
| "handleCtrl E pb (Subscribe i) io = writeCtrl E (m_Subscribe pb) subscribeFrame i io"
| "handleCtrl E pb (Unsubscribe i) io = writeCtrl E (m_Unsubscribe pb) unsubscribeFrame i io"
| "handleCtrl E pb (CloseSession key) io = handleSessionDone E key io"
| "handleCtrl E pb (CloseStream key) io =
     (case map_of (io_sessions io) key of
        None \<Rightarrow> io
      | Some s \<Rightarrow> (CancelWrite Reconstructed s io)\<lparr>io_sessions := AList.delete key (io_sessions io)\<rparr>)"

definition peer_ended :: "peer_env \<Rightarrow> peerIO \<Rightarrow> bool" where
  "peer_ended E io \<longleftrightarrow> io_done io \<or> ended_at E (io_calls io)"

text \<open>
  The body of \<open>runCtrlLoop\<close> between two waits: transitions are taken out and written until there
  is none left (\<open>Inr\<close>) or the context has ended (\<open>Inl\<close>, with the deferred cancellations); \<open>ord\<close>
  gives the orders in which the runtime ranges over maps, \<open>n\<close> bounds the transitions.
\<close>

definition ctrl_exit :: "peerIO \<Rightarrow> peerIO" where
  "ctrl_exit io = fold (\<lambda>(_, s). CancelWrite Unspecified s) (io_sessions io) (CancelWrite Unspecified (io_ctrlOut io) io)"

fun runCtrlLoop :: "peer_env \<Rightarrow> bcastpb \<Rightarrow> (ChannelID list \<Rightarrow> ChannelID list) \<Rightarrow> nat \<Rightarrow> ctrlOutState \<times> peerIO \<Rightarrow>
    (peerIO + ctrlOutState \<times> peerIO) option" where
  "runCtrlLoop E pb ord 0 _ = None"
| "runCtrlLoop E pb ord (Suc n) (cs, io) =
     (if peer_ended E io then Some (Inl (ctrl_exit io))
      else case ctrl_next ord cs of
        (None, cs) \<Rightarrow> Some (Inr (cs, io))
      | (Some ev, cs) \<Rightarrow>
          if peer_ended E (tick io) then Some (Inl (ctrl_exit io))
          else runCtrlLoop E pb ord n (cs, handleCtrl E pb ev (tick (tick io))))"

subsection \<open>The data loop\<close>

definition applySlot :: "slotUpdate \<Rightarrow> (sessionKey \<times> nat) list \<Rightarrow> (sessionKey \<times> nat) list" where
  "applySlot upd slots =
     (case upd of (key, Some slot) \<Rightarrow> AList.update key slot slots | (key, None) \<Rightarrow> AList.delete key slots)"

text \<open>
  \<open>doSendChunk\<close> with the number of bytes sent and its error; \<open>gone\<close> says that the context of the
  chunk has ended.
\<close>

definition doSendChunk :: "peer_env \<Rightarrow> bcastpb \<Rightarrow> bool \<Rightarrow> peerSendChunk \<Rightarrow> peerIO \<Rightarrow> (int \<times> goerr option) \<times> peerIO" where
  "doSendChunk E pb gone e io =
     (if gone then ((0, Some ErrChunkCancelled), io)
      else case OpenUniStream E CHUNK io of
        (Inl _, io) \<Rightarrow> ((0, Some ErrChunkWriteFail), io)
      | (Inr s, io) \<Rightarrow>
          (case m_Header pb \<lparr>ch_Channel = sc_channelID e, ch_ObjectId = sc_messageID e, ch_ChunkId = sc_chunkID e,
                  ch_DataLength = of_nat (length (sc_payload e))\<rparr> of
             Inl _ \<Rightarrow> ((0, Some ErrChunkWriteFail), CancelWrite Unspecified s io)
           | Inr header \<Rightarrow>
               let head = AppendFrameHead (AppendFrame [] headerFrame header) dataFrame (length (sc_payload e)) in
               (case Write_stream E s head io of
                  (Some err, io) \<Rightarrow> ((0, Some ErrChunkWriteFail), CancelWrite (streamFailureCode (Some err)) s io)
                | (None, io) \<Rightarrow>
                    (case Write_stream E s (sc_payload e) io of
                       (Some err, io) \<Rightarrow> ((0, Some ErrChunkWriteFail), CancelWrite (streamFailureCode (Some err)) s io)
                     | (None, io) \<Rightarrow>
                         (case close_or_cancel E s io of
                            (Some err, io) \<Rightarrow> ((0, Some ErrChunkWriteFail), io)
                          | (None, io) \<Rightarrow> ((int (length (sc_payload e)), None), io))))))"

text \<open>\<open>handleSendChunk\<close>: the event for \<open>resultCh\<close>, unless the session or the peer ends before it is taken.\<close>

definition handleSendChunk :: "peer_env \<Rightarrow> bcastpb \<Rightarrow> bool \<Rightarrow> peerSendChunk \<Rightarrow> peerIO \<Rightarrow> 's channelEvent option \<times> peerIO" where
  "handleSendChunk E pb gone e io =
     (let ((n, err), io) = doSendChunk E pb gone e io in
      (case fault_at E (io_calls io) of
         None \<Rightarrow> Some (channelChunkSent (sc_messageID e) (sc_peerID e) (sc_handle e) err n)
       | Some _ \<Rightarrow> None, tick io))"

text \<open>
  One round of \<open>runDataLoop\<close>: the updates of \<open>slotCh\<close> are applied, then the slots are polled in
  the order of the runtime, and the first chunk found is sent. An outbox is the list of its
  chunks and whether it is closed. Without a chunk the loop waits.
\<close>

fun poll_slots :: "sessionKey list \<Rightarrow> (sessionKey \<times> nat) list \<Rightarrow> (nat \<Rightarrow> peerSendChunk list \<times> bool) \<Rightarrow>
    peerSendChunk option \<times> (sessionKey \<times> nat) list \<times> (nat \<Rightarrow> peerSendChunk list \<times> bool)" where
  "poll_slots [] slots ob = (None, slots, ob)"
| "poll_slots (key # keys) slots ob =
     (case map_of slots key of
        None \<Rightarrow> poll_slots keys slots ob
      | Some slot \<Rightarrow>
          (case ob slot of
             ([], True) \<Rightarrow> poll_slots keys (AList.delete key slots) ob
           | ([], False) \<Rightarrow> poll_slots keys slots ob
           | (chunk # rest, closed) \<Rightarrow> (Some chunk, slots, ob(slot := (rest, closed)))))"

definition runDataLoop :: "peer_env \<Rightarrow> bcastpb \<Rightarrow> (sessionKey list \<Rightarrow> sessionKey list) \<Rightarrow> (peerSendChunk \<Rightarrow> bool) \<Rightarrow>
    (sessionKey \<times> nat) list \<times> (nat \<Rightarrow> peerSendChunk list \<times> bool) \<times> peerIO \<Rightarrow>
    ('s channelEvent option \<times> bool) \<times> (sessionKey \<times> nat) list \<times> (nat \<Rightarrow> peerSendChunk list \<times> bool) \<times> peerIO" where
  "runDataLoop E pb ord gone = (\<lambda>(slots, ob, io).
     let slots = fold applySlot (io_slotCh io) slots;
         io = io\<lparr>io_slotCh := []\<rparr>
     in case poll_slots (ord (map fst slots)) slots ob of
          (None, slots, ob) \<Rightarrow> ((None, False), slots, ob, io)
        | (Some chunk, slots, ob) \<Rightarrow>
            let (ev, io) = handleSendChunk E pb (gone chunk) chunk io in ((ev, True), slots, ob, io))"

section \<open>The reading side\<close>

text \<open>
  How a \<open>select\<close> between the inbox of a channel and the ends of the channel and of the peer comes
  out; \<open>PeerDone\<close> carries what \<open>p.ctx.Err()\<close> returns. \<open>in_sel\<close> gives the outcomes in the order of
  the waits, \<open>in_ctx\<close> is \<open>p.ctx.Err()\<close> once a read has returned, and \<open>in_cancels\<close> are the codes with
  which the callbacks of \<open>OnCancel\<close> cancel the stream before they are stopped; these calls are listed
  before those with which the reader ends.
\<close>

datatype selected = Sent | ChannelDone | PeerDone goerr

record inbound_env =
  in_sel :: "nat \<Rightarrow> selected"
  in_ctx :: "goerr option"
  in_cancels :: "code list"

text \<open>The calls a reader makes: to the inbox of a channel, to \<open>CancelRead\<close> and to the observer.\<close>

datatype 's in_call =
    Post nat "'s channelEvent"
  | CancelIn code
  | Observe observation

definition callbacks :: "inbound_env \<Rightarrow> 's in_call list" where
  "callbacks E = map CancelIn (in_cancels E)"

definition read_failed :: "inbound_env \<Rightarrow> goerr \<Rightarrow> 's in_call list" where
  "read_failed E err = callbacks E @ [CancelIn (streamCancellationCode (errors_Join [Some err, in_ctx E]))]"

lemma readFrame_shorter:
  assumes "readFrame u ty0 r = (Inr m, r')"
  shows "length (rdata r') < length (rdata r)"
proof -
  from assms obtain ty data where "ReadFrame maxBroadcastFrame r = (Inr (ty, data), r')"
    by (auto simp: readFrame_def rthen_Inr split: if_splits)
  from ReadFrame_InrD [OF this] show ?thesis using AppendFrame_nonempty [of ty data] by simp
qed

text \<open>
  The loop of \<open>runInboundSession\<close> over UPDATE frames, with the deferred \<open>channelPeerSessionEnded\<close>;
  \<open>k\<close> counts the waits.
\<close>

definition session_ended :: "inbound_env \<Rightarrow> nat \<Rightarrow> nat \<Rightarrow> 's channelEvent \<Rightarrow> 's in_call list" where
  "session_ended E ch k ev = (if in_sel E k = Sent then [Post ch ev] else [])"

function session_updates :: "bcastpb \<Rightarrow> inbound_env \<Rightarrow> PeerID \<Rightarrow> nat \<Rightarrow> nat \<Rightarrow> MessageID \<Rightarrow> nat \<Rightarrow> reader \<Rightarrow> 's in_call list" where
  "session_updates pb E pid p ch m k r =
     (case readFrame (u_Update pb) updateFrame r of
        (Inl err, r') \<Rightarrow>
          if errors_Is err EOF then callbacks E @ session_ended E ch k (channelPeerSessionEnded m pid p)
          else (case errors_AsType as_ResetError err of
              Some c \<Rightarrow>
                callbacks E @ (if c = Reconstructed then session_ended E ch k (channelPeerReconstructed m pid)
                else session_ended E ch k (channelPeerSessionEnded m pid p))
            | None \<Rightarrow> read_failed E err @ session_ended E ch k (channelPeerSessionEnded m pid p))
      | (Inr upd, r') \<Rightarrow>
          (case in_sel E k of
             Sent \<Rightarrow> Post ch (channelRoutingUpdate pid m upd) # session_updates pb E pid p ch m (Suc k) r'
           | ChannelDone \<Rightarrow> callbacks E @ CancelIn Unspecified # session_ended E ch (Suc k) (channelPeerSessionEnded m pid p)
           | PeerDone e \<Rightarrow> callbacks E @ CancelIn (streamFailureCode (Some e)) # session_ended E ch (Suc k) (channelPeerSessionEnded m pid p)))"
  by pat_completeness auto
termination
  by (relation "measure (\<lambda>(pb, E, pid, p, ch, m, k, r). length (rdata r))") (auto dest: readFrame_shorter [OF sym])

declare session_updates.simps [simp del]

definition runInboundSession :: "bcastpb \<Rightarrow> inbound_env \<Rightarrow> PeerID \<Rightarrow> nat \<Rightarrow> (ChannelID \<times> nat) list \<Rightarrow> reader \<Rightarrow> 's in_call list" where
  "runInboundSession pb E pid p inboxes r =
     (case readFrame (u_Open pb) openFrame r of
        (Inl err, _) \<Rightarrow> read_failed E err
      | (Inr so, r') \<Rightarrow>
          Observe (OnPreambleOpened pid (so_Channel so) (so_ObjectId so)) #
          (case map_of inboxes (so_Channel so) of
             None \<Rightarrow> callbacks E @ [CancelIn Refused]
           | Some ch \<Rightarrow>
               (case in_sel E 0 of
                  Sent \<Rightarrow> Post ch (channelSessionOpen pid so) # session_updates pb E pid p ch (so_ObjectId so) 1 r'
                | ChannelDone \<Rightarrow> callbacks E @ [CancelIn Unspecified]
                | PeerDone e \<Rightarrow> callbacks E @ [CancelIn (streamFailureCode (Some e))])))"

text \<open>
  \<open>processChunk\<close> of stream \<open>s\<close>, with what the stream still holds for the reader of the payload;
  \<open>over\<close> says that the channel's context has ended once the event is sent.
\<close>

definition processChunk :: "bcastpb \<Rightarrow> inbound_env \<Rightarrow> bool \<Rightarrow> PeerID \<Rightarrow> (ChannelID \<times> nat) list \<Rightarrow> nat \<Rightarrow> reader \<Rightarrow> 's in_call list \<times> reader" where
  "processChunk pb E over pid inboxes s r =
     (case readFrame (u_Header pb) headerFrame r of
        (Inl err, r') \<Rightarrow> (read_failed E err, r')
      | (Inr frame, r') \<Rightarrow>
          (if in_ctx E \<noteq> None then callbacks E @ [CancelIn (streamFailureCode (in_ctx E))]
           else case map_of inboxes (ch_Channel frame) of
               None \<Rightarrow> [CancelIn Refused]
             | Some ch \<Rightarrow>
                 (case in_sel E 0 of
                    Sent \<Rightarrow> Post ch (channelChunkStream pid frame s) # (if over then [CancelIn Unspecified] else [])
                  | ChannelDone \<Rightarrow> [CancelIn Unspecified]
                  | PeerDone e \<Rightarrow> [CancelIn (streamFailureCode (Some e))]), r'))"

text \<open>
  \<open>runCtrlReader\<close>: the handlers it posts to the engine, in order, and the codes with which it ends the
  stream; \<open>sent\<close> says which posts come before the end of the engine or of the peer.
\<close>

datatype ctrl_notice = peerSubscribed_notice ChannelID | peerUnsubscribed_notice ChannelID

definition ctrl_message :: "bcastpb \<Rightarrow> 64 word \<Rightarrow> bytes \<Rightarrow> goerr + ctrl_notice" where
  "ctrl_message pb ty data =
     (if ty = subscribeFrame then
        (case unmarshalFrame (u_Subscribe pb) data of Inl e \<Rightarrow> Inl e | Inr i \<Rightarrow> Inr (peerSubscribed_notice i))
      else if ty = unsubscribeFrame then
        (case unmarshalFrame (u_Unsubscribe pb) data of Inl e \<Rightarrow> Inl e | Inr i \<Rightarrow> Inr (peerUnsubscribed_notice i))
      else Inl errUnexpectedFrame)"

function runCtrlReader :: "bcastpb \<Rightarrow> inbound_env \<Rightarrow> nat \<Rightarrow> reader \<Rightarrow> ctrl_notice list \<times> code list" where
  "runCtrlReader pb E k r =
     (case ReadFrame maxBroadcastFrame r of
        (Inl err, _) \<Rightarrow> ([], in_cancels E @ [streamCancellationCode (errors_Join [Some err, in_ctx E])])
      | (Inr (ty, data), r') \<Rightarrow>
          (case ctrl_message pb ty data of
             Inl err \<Rightarrow> ([], in_cancels E @ [streamCancellationCode (errors_Join [Some err, in_ctx E])])
           | Inr notice \<Rightarrow>
               let (notices, codes) = runCtrlReader pb E (Suc k) r'
               in (if in_sel E k = Sent then notice # notices else notices, codes)))"
  by pat_completeness auto
termination
  by (relation "measure (\<lambda>(pb, E, k, r). length (rdata r))") (auto dest!: ReadFrame_InrD [OF sym] simp: AppendFrame_nonempty)

declare runCtrlReader.simps [simp del]

section \<open>The handshake\<close>

text \<open>
  How the calls of \<open>handshake\<close> come out: the error of \<open>OpenUniStream\<close> and of the write; the stream
  taken from \<open>bcastIn\<close>, if one comes before the context ends; \<open>ctx.Err()\<close> once the write and the read
  have returned, and the codes with which the callbacks of \<open>OnCancel\<close> ended the streams before that.
\<close>

record handshake_env =
  hs_open :: "goerr option"
  hs_write :: "bytes \<Rightarrow> goerr option"
  hs_write_ctx :: "goerr option"
  hs_write_cancels :: "code list"
  hs_in :: "reader option"
  hs_read_ctx :: "goerr option"
  hs_read_cancels :: "code list"

text \<open>
  The result with the bytes written and the codes with which the outbound and the inbound stream
  are ended; on success \<open>ctrlOut\<close> and \<open>ctrlIn\<close> are these streams.
\<close>

record handshake_result =
  hr_channels :: "goerr + ChannelID list"
  hr_wrote :: "bytes option"
  hr_out :: "code list"
  hr_in :: "code list"

definition handshake_write :: "bcastpb \<Rightarrow> ChannelID list \<Rightarrow> handshake_env \<Rightarrow> bytes option \<times> code list \<times> goerr option" where
  "handshake_write pb own h =
     (case hs_open h of
        Some err \<Rightarrow> (None, [], Some err)
      | None \<Rightarrow>
          let (wrote, err) = writeFrame (hs_write h) (m_Handshake pb) handshakeFrame (ProtocolV1, own);
              err = (if err = None then hs_write_ctx h else err)
          in (wrote, hs_write_cancels h @ (if err \<noteq> None then [streamFailureCode err] else []), err))"

definition handshake_read :: "bcastpb \<Rightarrow> handshake_env \<Rightarrow> (32 word \<times> string list) \<times> code list \<times> goerr option" where
  "handshake_read pb h =
     (case hs_in h of
        None \<Rightarrow> ((0, []), [], hs_read_ctx h)
      | Some r \<Rightarrow>
          let (response, err) = (case fst (readFrame (u_Handshake pb) handshakeFrame r) of Inl err \<Rightarrow> ((0, []), Some err) | Inr m \<Rightarrow> (m, None));
              err = (if err = None then hs_read_ctx h else err)
          in (response, hs_read_cancels h @ (if err \<noteq> None then [streamCancellationCode (errors_Join [err, hs_read_ctx h])] else []), err))"

definition handshake :: "bcastpb \<Rightarrow> ChannelID list \<Rightarrow> handshake_env \<Rightarrow> handshake_result" where
  "handshake pb own h =
     (let (wrote, out, werr) = handshake_write pb own h;
          (response, inn, err) = handshake_read pb h
      in if err \<noteq> None \<or> werr \<noteq> None then
           \<lparr>hr_channels = Inl (Join (List.map_filter (\<lambda>e. e) [err, werr])), hr_wrote = wrote,
            hr_out = out @ (if werr = None then [streamFailureCode err] else []),
            hr_in = inn @ (if err = None then [streamFailureCode werr] else [])\<rparr>
         else if fst response < ProtocolV1 then
           \<lparr>hr_channels = Inl ErrProtocolMismatch, hr_wrote = wrote, hr_out = out @ [Refused], hr_in = inn @ [Refused]\<rparr>
         else \<lparr>hr_channels = Inr (snd response), hr_wrote = wrote, hr_out = out, hr_in = inn\<rparr>)"

end
