(* ===== verification/PeerProps.thy ===== *)
theory PeerProps
  imports PeerIO
begin

text \<open>
  What one side writes is what the other side hears: the frames of the control loop on the BCAST
  and SESS streams, the chunks of the data loop on CHUNK streams, and the handshake.
\<close>

section \<open>Reading frames that are cut short\<close>



section \<open>Resets\<close>

lemma Reconstructed_parse [simp]: "ParseCode (Code_Wire Reconstructed) = Reconstructed"
  by (simp add: ParseCode_def Code_Wire_def Reconstructed_def ProtocolCode_def)

lemma reset_error [simp]:
  "errors_Is (end_error (Reset c)) EOF = False" "end_error (Reset c) \<noteq> EOF"
  "errors_AsType as_ResetError (end_error (Reset c)) = Some (ParseCode (Code_Wire c))"
  "streamCancellationCode (errors_Join [Some (end_error (Reset c)), None]) = Unspecified"
  by (simp_all add: resetError_def errors_AsType.simps streamCancellationCode_def streamFailureCode_def errors_Join_def
      TimeoutOr_def map_filter_simps bcast_error_defs Timeout_def Unspecified_def)

declare end_error.simps(2) [simp del]

section \<open>What the reading side hears\<close>

text \<open>
  A message that the codec carries: it is marshalled to at most \<open>maxBroadcastFrame\<close> bytes, which are
  unmarshalled to it; and the frame of such a message.
\<close>

definition carried :: "('m \<Rightarrow> goerr + bytes) \<Rightarrow> (bytes \<Rightarrow> goerr + 'm) \<Rightarrow> 'm \<Rightarrow> bool" where
  "carried marshal unmarshal m \<longleftrightarrow>
     (case marshal m of Inl _ \<Rightarrow> False | Inr data \<Rightarrow> unmarshal data = Inr m \<and> length data \<le> maxBroadcastFrame)"

definition frame :: "('m \<Rightarrow> goerr + bytes) \<Rightarrow> 64 word \<Rightarrow> 'm \<Rightarrow> bytes" where
  "frame marshal ty m = (case marshal m of Inl _ \<Rightarrow> [] | Inr data \<Rightarrow> AppendFrame [] ty data)"

lemma carriedE:
  assumes "carried marshal unmarshal m"
  obtains data where "marshal m = Inr data" "unmarshal data = Inr m" "length data \<le> maxBroadcastFrame"
    "\<And>ty. frame marshal ty m = AppendFrame [] ty data"
  using assms by (auto simp: carried_def frame_def split: sum.splits)

lemma readFrame_frame:
  assumes "carried marshal unmarshal m"
  shows "readFrame unmarshal ty \<lparr>rdata = frame marshal ty m @ rest, rend = e\<rparr> = (Inr m, \<lparr>rdata = rest, rend = e\<rparr>)"
  using assms by (elim carriedE) (simp add: readFrame_AppendFrame unmarshalFrame_def)


text \<open>A reader whose peer and channel keep running.\<close>

definition listening :: inbound_env where
  "listening = \<lparr>in_sel = (\<lambda>_. Sent), in_ctx = None, in_cancels = []\<rparr>"

lemma listening_simps [simp]: "in_sel listening k = Sent" "in_ctx listening = None" "in_cancels listening = []" "callbacks listening = []"
  by (simp_all add: listening_def callbacks_def)

abbreviation updates_bytes :: "bcastpb \<Rightarrow> bytes list \<Rightarrow> bytes" where
  "updates_bytes pb us \<equiv> concat (map (frame (m_Update pb) updateFrame) us)"




text \<open>
  The calls of the reader of one SESS stream with an OPEN frame and UPDATE frames: after a FIN all
  of them and the end of the session; after a reset with \<open>Reconstructed\<close> those that arrived before
  it, and that the peer has the message, unless the reset overtakes the OPEN frame.
\<close>

definition session_bytes :: "bcastpb \<Rightarrow> Sess_Open \<Rightarrow> bytes list \<Rightarrow> bytes" where
  "session_bytes pb so us = frame (m_Open pb) openFrame so @ updates_bytes pb us"





fun notice_bytes :: "bcastpb \<Rightarrow> peerCtrlEvent \<Rightarrow> bytes" where
  "notice_bytes pb (Subscribe i) = frame (m_Subscribe pb) subscribeFrame i"
| "notice_bytes pb (Unsubscribe i) = frame (m_Unsubscribe pb) unsubscribeFrame i"
| "notice_bytes pb _ = []"

definition open_message :: "peerOpenSession \<Rightarrow> Sess_Open" where
  "open_message e = \<lparr>so_Channel = os_channelID e, so_ObjectId = os_messageID e, so_Preamble = os_preamble e, so_InitialUpdate = os_initialRouting e\<rparr>"

fun event_carried :: "bcastpb \<Rightarrow> peerCtrlEvent \<Rightarrow> bool" where
  "event_carried pb (Subscribe i) \<longleftrightarrow> carried (m_Subscribe pb) (u_Subscribe pb) i"
| "event_carried pb (Unsubscribe i) \<longleftrightarrow> carried (m_Unsubscribe pb) (u_Unsubscribe pb) i"
| "event_carried pb (OpenSession e) \<longleftrightarrow> carried (m_Open pb) (u_Open pb) (open_message e)"
| "event_carried pb (SendRouting key upd) \<longleftrightarrow> carried (m_Update pb) (u_Update pb) upd"
| "event_carried pb _ \<longleftrightarrow> True"



section \<open>What the writing side writes\<close>

text \<open>
  The sessions that the events of the control loop open on SESS streams, in the order of their
  opening: at most one per key is live, and the events for the key continue or end it.
\<close>

record segment =
  sg_key :: sessionKey
  sg_open :: Sess_Open
  sg_updates :: "bytes list"
  sg_end :: "stream_end option"

definition on_live :: "sessionKey \<Rightarrow> (segment \<Rightarrow> segment) \<Rightarrow> segment list \<Rightarrow> segment list" where
  "on_live key f segs = map (\<lambda>g. if sg_key g = key \<and> sg_end g = None then f g else g) segs"

fun segments_step :: "peerCtrlEvent \<Rightarrow> segment list \<Rightarrow> segment list" where
  "segments_step (OpenSession e) segs =
     (let key = sessionKey (os_channelID e) (os_messageID e)
      in on_live key (\<lambda>g. g\<lparr>sg_end := Some Fin\<rparr>) segs @ [\<lparr>sg_key = key, sg_open = open_message e, sg_updates = [], sg_end = None\<rparr>])"
| "segments_step (SendRouting key upd) segs = on_live key (\<lambda>g. g\<lparr>sg_updates := sg_updates g @ [upd]\<rparr>) segs"
| "segments_step (CloseSession key) segs = on_live key (\<lambda>g. g\<lparr>sg_end := Some Fin\<rparr>) segs"
| "segments_step (CloseStream key) segs = on_live key (\<lambda>g. g\<lparr>sg_end := Some (Reset Reconstructed)\<rparr>) segs"
| "segments_step _ segs = segs"

text \<open>The outboxes the data loop is to serve.\<close>

fun slots_step :: "peerCtrlEvent \<Rightarrow> (sessionKey \<rightharpoonup> nat) \<Rightarrow> (sessionKey \<rightharpoonup> nat)" where
  "slots_step (OpenSession e) M = M(sessionKey (os_channelID e) (os_messageID e) \<mapsto> os_chunkOutbox e)"
| "slots_step (CloseSession key) M = M(key := None)"
| "slots_step _ M = M"

definition seg_stream :: "bcastpb \<Rightarrow> segment \<Rightarrow> sendStream" where
  "seg_stream pb g = \<lparr>ss_protocol = SESS, ss_data = session_bytes pb (sg_open g) (sg_updates g), ss_end = sg_end g\<rparr>"

definition faultless :: peer_env where
  "faultless = \<lparr>fault_at = (\<lambda>_. None), ended_at = (\<lambda>_. False)\<rparr>"

definition sessions_ok :: "(sessionKey \<times> nat) list \<Rightarrow> segment list \<Rightarrow> bool" where
  "sessions_ok S segs \<longleftrightarrow> (\<forall>key i. map_of S key = Some i \<longleftrightarrow>
     (\<exists>j < length segs. i = Suc j \<and> sg_key (segs ! j) = key \<and> sg_end (segs ! j) = None))"

definition written :: "bcastpb \<Rightarrow> bytes \<Rightarrow> segment list \<Rightarrow> (sessionKey \<rightharpoonup> nat) \<Rightarrow> peerIO \<Rightarrow> bool" where
  "written pb ctrl segs M io \<longleftrightarrow> io_ctrlOut io = 0 \<and> \<not> io_done io \<and>
     io_streams io = \<lparr>ss_protocol = BCAST, ss_data = ctrl, ss_end = None\<rparr> # map (seg_stream pb) segs \<and>
     sessions_ok (io_sessions io) segs \<and> map_of (fold applySlot (io_slotCh io) []) = M"

lemma on_live_None:
  assumes "sessions_ok S segs" "map_of S key = None"
  shows "on_live key f segs = segs"
proof -
  have n: "\<not> (sg_key g = key \<and> sg_end g = None)" if "g \<in> set segs" for g
    using assms that unfolding sessions_ok_def by (metis in_set_conv_nth option.distinct(1))
  then show ?thesis unfolding on_live_def by (intro map_idI) (simp only: n if_False)
qed

lemma on_live_Some:
  assumes "sessions_ok S segs" "map_of S key = Some i"
  obtains j where "i = Suc j" "j < length segs" "sg_key (segs ! j) = key" "sg_end (segs ! j) = None"
    "\<And>f. on_live key f segs = segs[j := f (segs ! j)]"
proof -
  from assms obtain j where j: "i = Suc j" "j < length segs" "sg_key (segs ! j) = key" "sg_end (segs ! j) = None"
    unfolding sessions_ok_def by blast
  have "k = j" if "k < length segs" "sg_key (segs ! k) = key" "sg_end (segs ! k) = None" for k
  proof -
    have "map_of S key = Some (Suc k)" using assms(1) that unfolding sessions_ok_def by blast
    then show ?thesis using assms(2) j(1) by simp
  qed
  then have "on_live key f segs = segs[j := f (segs ! j)]" for f
    by (intro nth_equalityI) (auto simp: on_live_def nth_list_update j)
  with j show ?thesis by (rule that)
qed

lemma sessions_ok_keep:
  assumes "sessions_ok S segs" "\<And>g. sg_key (f g) = sg_key g \<and> sg_end (f g) = sg_end g"
  shows "sessions_ok S (on_live key f segs)"
proof -
  have "sg_key (on_live key f segs ! j) = sg_key (segs ! j)" "sg_end (on_live key f segs ! j) = sg_end (segs ! j)" if "j < length segs" for j
    using that assms(2) by (simp_all add: on_live_def)
  moreover have "length (on_live key f segs) = length segs" by (simp add: on_live_def)
  ultimately show ?thesis using assms(1) by (simp add: sessions_ok_def cong: conj_cong)
qed

lemma sessions_ok_end:
  assumes "sessions_ok S segs" "\<And>g. sg_key (f g) = sg_key g \<and> sg_end (f g) \<noteq> None"
  shows "sessions_ok (AList.delete key S) (on_live key f segs)"
proof -
  have "sg_key (on_live key f segs ! j) = k \<and> sg_end (on_live key f segs ! j) = None \<longleftrightarrow>
      k \<noteq> key \<and> sg_key (segs ! j) = k \<and> sg_end (segs ! j) = None" if "j < length segs" for j k
    using that assms(2) [of "segs ! j"] by (auto simp: on_live_def)
  moreover have "length (on_live key f segs) = length segs" by (simp add: on_live_def)
  ultimately show ?thesis using assms(1) by (simp add: sessions_ok_def delete_conv' cong: conj_cong)
qed

lemma sessions_ok_open:
  assumes "sessions_ok S segs" "map_of S (sg_key g) = None" "sg_end g = None"
  shows "sessions_ok (AList.update (sg_key g) (Suc (length segs)) S) (segs @ [g])"
proof -
  have a: "(\<exists>j < Suc (length segs). i = Suc j \<and> sg_key ((segs @ [g]) ! j) = k \<and> sg_end ((segs @ [g]) ! j) = None) \<longleftrightarrow>
      (i = Suc (length segs) \<and> k = sg_key g) \<or> (\<exists>j < length segs. i = Suc j \<and> sg_key (segs ! j) = k \<and> sg_end (segs ! j) = None)" for i k
    unfolding Ex_less_Suc by (simp add: assms(3) nth_append conj_commute [of _ "_ = Suc (length segs)"] cong: conj_cong) blast
  have b: "map_of (AList.update (sg_key g) (Suc (length segs)) S) k = Some i \<longleftrightarrow>
      (i = Suc (length segs) \<and> k = sg_key g) \<or> map_of S k = Some i" for i k
    using assms(2) by (auto simp: update_conv')
  show ?thesis using assms(1) unfolding sessions_ok_def length_append_singleton a b by blast
qed

lemma faultless_simps [simp]:
  "fault_at faultless k = None"
  "OpenUniStream faultless proto io = (Inr (length (io_streams io)),
     tick (io\<lparr>io_streams := io_streams io @ [\<lparr>ss_protocol = proto, ss_data = [], ss_end = None\<rparr>]\<rparr>))"
  "Write_stream faultless i b io = (None, tick (on_stream i (\<lambda>s. s\<lparr>ss_data := ss_data s @ b\<rparr>) io))"
  "close_or_cancel faultless i io = (None, tick (on_stream i (end_stream (Some Fin)) io))"
  "send_slot faultless upd io = (True, tick (io\<lparr>io_slotCh := io_slotCh io @ [upd]\<rparr>))"
  by (simp_all add: faultless_def OpenUniStream_def Write_stream_def close_or_cancel_def Close_stream_def send_slot_def)

lemma write_frame_carried:
  "carried marshal unmarshal m \<Longrightarrow>
   write_frame faultless marshal ty m i io = (None, tick (on_stream i (\<lambda>s. s\<lparr>ss_data := ss_data s @ frame marshal ty m\<rparr>) io))"
  by (elim carriedE) (simp add: write_frame_def writeFrame_def Let_def)

lemma map_of_applySlot: "map_of (applySlot (key, c) slots) = (map_of slots)(key := c)"
  by (cases c) (simp_all add: applySlot_def update_conv' delete_conv' fun_eq_iff)

lemma written_sessions: "written pb ctrl segs M io \<Longrightarrow> sessions_ok (io_sessions io) segs"
  by (simp add: written_def)

text \<open>A change of the live stream of a key is a change of its segment.\<close>

lemma written_on_stream:
  assumes "written pb ctrl segs M io" "map_of (io_sessions io) key = Some i"
    and "\<And>g. sg_key g = key \<Longrightarrow> sg_end g = None \<Longrightarrow> f (seg_stream pb g) = seg_stream pb (f' g)"
  shows "io_streams (on_stream i f io) = \<lparr>ss_protocol = BCAST, ss_data = ctrl, ss_end = None\<rparr> # map (seg_stream pb) (on_live key f' segs)"
proof -
  from on_live_Some [OF written_sessions [OF assms(1)] assms(2)] obtain j where
    j: "i = Suc j" "j < length segs" "sg_key (segs ! j) = key" "sg_end (segs ! j) = None" "\<And>f. on_live key f segs = segs[j := f (segs ! j)]" by metis
  then show ?thesis using assms(1) assms(3) [OF j(3,4)] by (simp add: written_def on_stream_def map_update)
qed

lemma on_stream_frame [simp]:
  "io_ctrlOut (on_stream i f io) = io_ctrlOut io" "io_sessions (on_stream i f io) = io_sessions io"
  "io_slotCh (on_stream i f io) = io_slotCh io" "io_done (on_stream i f io) = io_done io"
  by (simp_all add: on_stream_def)

lemma tick_frame [simp]:
  "io_streams (tick io) = io_streams io" "io_ctrlOut (tick io) = io_ctrlOut io" "io_sessions (tick io) = io_sessions io"
  "io_slotCh (tick io) = io_slotCh io" "io_done (tick io) = io_done io"
  by (simp_all add: tick_def)

lemma written_end:
  assumes "written pb ctrl segs M io" "map_of (io_sessions io) key = Some i"
  shows "written pb ctrl (on_live key (\<lambda>g. g\<lparr>sg_end := Some x\<rparr>) segs) M
    ((on_stream i (end_stream (Some x)) io)\<lparr>io_sessions := AList.delete key (io_sessions io)\<rparr>)"
  using assms(1) written_on_stream [OF assms, of "end_stream (Some x)" "\<lambda>g. g\<lparr>sg_end := Some x\<rparr>"]
    sessions_ok_end [OF written_sessions [OF assms(1)], of "\<lambda>g. g\<lparr>sg_end := Some x\<rparr>" key]
  by (simp add: written_def seg_stream_def end_stream_def)

lemma written_absent:
  assumes "written pb ctrl segs M io" "map_of (io_sessions io) key = None"
  shows "written pb ctrl (on_live key f segs) M (io\<lparr>io_sessions := AList.delete key (io_sessions io)\<rparr>)"
proof -
  have "on_live key f segs = segs" using on_live_None [OF written_sessions [OF assms(1)] assms(2)] .
  then show ?thesis using assms sessions_ok_end [OF written_sessions [OF assms(1)], of "\<lambda>g. g\<lparr>sg_end := Some Fin\<rparr>" key]
    by (simp add: written_def on_live_None [OF written_sessions [OF assms(1)] assms(2)])
qed

lemma written_slot:
  "written pb ctrl segs M io \<Longrightarrow> written pb ctrl segs (M(key := c)) (tick (io\<lparr>io_slotCh := io_slotCh io @ [(key, c)]\<rparr>))"
  by (simp add: written_def map_of_applySlot)

lemma written_tick: "written pb ctrl segs M (tick io) = written pb ctrl segs M io"
  by (simp add: written_def)

lemma written_close:
  assumes "written pb ctrl segs M io"
  shows "written pb ctrl (on_live key (\<lambda>g. g\<lparr>sg_end := Some Fin\<rparr>) segs) (M(key := None)) (handleSessionDone faultless key io)"
proof (cases "map_of (io_sessions io) key")
  case None
  from written_slot [OF written_absent [OF assms None], of _ key None] show ?thesis
    by (simp add: handleSessionDone_def None Let_def)
next
  case (Some i)
  have "written pb ctrl (on_live key (\<lambda>g. g\<lparr>sg_end := Some Fin\<rparr>) segs) M
      (tick ((on_stream i (end_stream (Some Fin)) io)\<lparr>io_sessions := AList.delete key (io_sessions io)\<rparr>))"
    using written_end [OF assms Some, of Fin] by (simp add: written_tick)
  from written_slot [OF this, of key None] show ?thesis by (simp add: handleSessionDone_def Some tick_def)
qed

lemma written_open:
  assumes "written pb ctrl segs M io" "map_of (io_sessions io) key = None" "key = sessionKey (os_channelID e) (os_messageID e)"
    and "carried (m_Open pb) (u_Open pb) (open_message e)"
  shows "written pb ctrl (segs @ [\<lparr>sg_key = key, sg_open = open_message e, sg_updates = [], sg_end = None\<rparr>])
    (M(key \<mapsto> os_chunkOutbox e)) (peer_handleSessionOpen faultless pb e io)"
proof -
  let ?g = "\<lparr>sg_key = key, sg_open = open_message e, sg_updates = [], sg_end = None\<rparr>"
  have "sessions_ok (AList.update key (Suc (length segs)) (io_sessions io)) (segs @ [?g])"
    using sessions_ok_open [of "io_sessions io" segs ?g] assms(1,2) by (simp add: written_def)
  then show ?thesis using assms
    by (simp add: peer_handleSessionOpen_def write_frame_carried [OF assms(4)] open_message_def [symmetric] Let_def written_def
        on_stream_def seg_stream_def session_bytes_def map_of_applySlot nth_append)
qed

lemma reopen_faultless:
  assumes "map_of (io_sessions io) (sessionKey (os_channelID e) (os_messageID e)) = Some i"
  shows "peer_handleSessionOpen faultless pb e io =
    peer_handleSessionOpen faultless pb e (handleSessionDone faultless (sessionKey (os_channelID e) (os_messageID e)) io)"
  using assms by (simp add: peer_handleSessionOpen_def handleSessionDone_def Let_def delete_conv')

lemma written_step:
  assumes "written pb ctrl segs M io" "event_carried pb ev"
  shows "written pb (ctrl @ notice_bytes pb ev) (segments_step ev segs) (slots_step ev M) (handleCtrl faultless pb ev io)"
proof (cases ev)
  case (OpenSession e)
  let ?key = "sessionKey (os_channelID e) (os_messageID e)"
  have c: "carried (m_Open pb) (u_Open pb) (open_message e)" using assms(2) OpenSession by simp
  show ?thesis
  proof (cases "map_of (io_sessions io) ?key")
    case None
    have "on_live ?key f segs = segs" for f using on_live_None [OF written_sessions [OF assms(1)] None] .
    then show ?thesis using written_open [OF assms(1) None refl c] OpenSession by (simp add: Let_def)
  next
    case (Some i)
    let ?io = "handleSessionDone faultless ?key io"
    have "map_of (io_sessions ?io) ?key = None" using Some by (simp add: handleSessionDone_def Let_def delete_conv')
    from written_open [OF written_close [OF assms(1)] this refl c] show ?thesis
      using reopen_faultless [OF Some, of pb] OpenSession by (simp add: Let_def)
  qed
next
  case (SendRouting key upd)
  then have c: "carried (m_Update pb) (u_Update pb) upd" using assms(2) by simp
  let ?f = "\<lambda>g. g\<lparr>sg_updates := sg_updates g @ [upd]\<rparr>"
  show ?thesis
  proof (cases "map_of (io_sessions io) key")
    case None
    then show ?thesis using assms(1) on_live_None [OF written_sessions [OF assms(1)] None, of ?f] SendRouting
      by (simp add: handleSendRoutingUpdate_def)
  next
    case (Some i)
    then show ?thesis
      using assms(1) written_on_stream [OF assms(1) Some, of "\<lambda>s. s\<lparr>ss_data := ss_data s @ frame (m_Update pb) updateFrame upd\<rparr>" ?f]
        sessions_ok_keep [OF written_sessions [OF assms(1)], of ?f key] SendRouting
      by (simp add: handleSendRoutingUpdate_def write_frame_carried [OF c] written_def seg_stream_def session_bytes_def)
  qed
next
  case (Subscribe i)
  then show ?thesis using assms by (simp add: writeCtrl_def write_frame_carried written_def on_stream_def)
next
  case (Unsubscribe i)
  then show ?thesis using assms by (simp add: writeCtrl_def write_frame_carried written_def on_stream_def)
next
  case (CloseSession key)
  then show ?thesis using written_close [OF assms(1)] by simp
next
  case (CloseStream key)
  show ?thesis
  proof (cases "map_of (io_sessions io) key")
    case None
    then show ?thesis using assms(1) on_live_None [OF written_sessions [OF assms(1)] None] CloseStream by simp
  next
    case (Some i)
    then show ?thesis using written_end [OF assms(1) Some, of "Reset Reconstructed"] CloseStream by (simp add: CancelWrite_def)
  qed
qed



lemma written_fold:
  assumes "written pb ctrl segs M io" "\<forall>ev \<in> set evs. event_carried pb ev"
  shows "written pb (ctrl @ concat (map (notice_bytes pb) evs)) (fold segments_step evs segs) (fold slots_step evs M)
    (fold (handleCtrl faultless pb) evs io)"
  using assms
proof (induction evs arbitrary: ctrl segs M io)
  case (Cons ev evs)
  from Cons.IH [OF written_step [OF Cons.prems(1), of ev]] Cons.prems(2) show ?case by simp
qed simp


lemma on_live_all: "(\<And>g. P g \<Longrightarrow> P (f g)) \<Longrightarrow> \<forall>g \<in> set segs. P g \<Longrightarrow> \<forall>g \<in> set (on_live key f segs). P g"
  by (auto simp: on_live_def)







section \<open>Chunks and the handshake\<close>

definition chunk_header :: "peerSendChunk \<Rightarrow> Chunk_Header" where
  "chunk_header e = \<lparr>ch_Channel = sc_channelID e, ch_ObjectId = sc_messageID e, ch_ChunkId = sc_chunkID e,
     ch_DataLength = of_nat (length (sc_payload e))\<rparr>"

text \<open>
  What \<open>doSendChunk\<close> leaves behind: nothing, the stream of the chunk ended with FIN, or a stream that it
  has reset.
\<close>

lemma on_new_stream [simp]:
  "on_stream (length ss) f (io\<lparr>io_streams := ss @ [s]\<rparr>) = io\<lparr>io_streams := ss @ [f s]\<rparr>"
  by (simp add: on_stream_def)

lemma on_stream_tick [simp]: "on_stream i f (tick io) = tick (on_stream i f io)"
  by (simp add: on_stream_def tick_def)

lemma end_stream_simps [simp]:
  "ss_end (end_stream x s) = (if ss_end s = None then x else ss_end s)"
  "ss_data (end_stream x s) = ss_data s"
  by (simp_all add: end_stream_def)





lemma unexpected_joined [simp]: "streamCancellationCode (errors_Join [Some errUnexpectedFrame, None]) = Refused"
  by (simp add: streamCancellationCode_def streamFailureCode_def errors_Join_def TimeoutOr_def errors_AsType.simps map_filter_simps
      bcast_error_defs Timeout_def Unspecified_def)

lemma handshake_ends:
  assumes "hs_in h = None \<longrightarrow> hs_read_ctx h \<noteq> None" "hs_write_cancels h \<noteq> [] \<longrightarrow> hs_write_ctx h \<noteq> None"
    and "hs_read_cancels h \<noteq> [] \<longrightarrow> hs_read_ctx h \<noteq> None"
  shows "case hr_channels (handshake pb own h) of
      Inr channels \<Rightarrow> hr_out (handshake pb own h) = [] \<and> hr_in (handshake pb own h) = [] \<and>
        (\<exists>r v. hs_in h = Some r \<and> fst (readFrame (u_Handshake pb) handshakeFrame r) = Inr (v, channels))
    | Inl err \<Rightarrow> (hs_open h = None \<longleftrightarrow> hr_out (handshake pb own h) \<noteq> []) \<and> (hs_in h \<noteq> None \<longleftrightarrow> hr_in (handshake pb own h) \<noteq> [])"
  using assms by (auto simp: handshake_def handshake_write_def handshake_read_def Let_def split: option.splits sum.splits prod.splits if_splits)

lemma handshake_wrote:
  assumes "hr_wrote (handshake pb own h) = Some bs" "carried (m_Handshake pb) (u_Handshake pb) (ProtocolV1, own)"
  shows "bs = frame (m_Handshake pb) handshakeFrame (ProtocolV1, own)"
  using assms(2,1) by (elim carriedE)
    (auto simp: handshake_def handshake_write_def writeFrame_def Let_def split: option.splits prod.splits if_splits)

lemma handshake_refused:
  assumes "hs_in h = Some \<lparr>rdata = AppendFrame [] ty data @ rest, rend = e\<rparr>" "length data \<le> maxBroadcastFrame" "hs_read_ctx h = None"
    and "snd (snd (handshake_write pb own h)) = None" "ty \<noteq> handshakeFrame \<or> (\<exists>ch. u_Handshake pb data = Inr (0, ch))" "hs_read_cancels h = []"
  shows "hr_in (handshake pb own h) = [Refused]" "\<exists>err. hr_channels (handshake pb own h) = Inl err"
  using assms by (auto simp: handshake_def handshake_read_def readFrame_AppendFrame unmarshalFrame_def ProtocolV1_def Let_def
      split: prod.splits)

section \<open>An example\<close>

text \<open>A codec of one message per type, and a session, a chunk and the passes of a control loop that use it.\<close>

definition demo_marshal :: "'m \<Rightarrow> 'm \<Rightarrow> goerr + bytes" where
  "demo_marshal m x = (if x = m then Inr [1] else Inl EOF)"

definition demo_unmarshal :: "'m \<Rightarrow> bytes \<Rightarrow> goerr + 'm" where
  "demo_unmarshal m data = (if data = [1] then Inr m else Inl EOF)"

definition demo_open_session :: peerOpenSession where
  "demo_open_session = \<lparr>os_channelID = ''blocks'', os_messageID = ''m'', os_preamble = [7], os_initialRouting = [], os_chunkOutbox = 0\<rparr>"

definition demo_chunk_send :: peerSendChunk where
  "demo_chunk_send = \<lparr>sc_peerID = [2], sc_channelID = ''blocks'', sc_messageID = ''m'', sc_handle = 0, sc_chunkID = [3], sc_payload = [4, 5],
     sc_ctx = 0, sc_sessCtx = 0\<rparr>"

definition demo_bcastpb :: bcastpb where
  "demo_bcastpb = \<lparr>m_Handshake = demo_marshal (ProtocolV1, [''blocks'']), u_Handshake = demo_unmarshal (ProtocolV1, [''blocks'']),
     m_Subscribe = demo_marshal ''blocks'', u_Subscribe = demo_unmarshal ''blocks'',
     m_Unsubscribe = demo_marshal ''blocks'', u_Unsubscribe = demo_unmarshal ''blocks'',
     m_Open = demo_marshal (open_message demo_open_session), u_Open = demo_unmarshal (open_message demo_open_session),
     m_Update = demo_marshal [6], u_Update = demo_unmarshal [6],
     m_Header = demo_marshal (chunk_header demo_chunk_send), u_Header = demo_unmarshal (chunk_header demo_chunk_send)\<rparr>"



lemma demo_carried: "carried (demo_marshal m) (demo_unmarshal m) m"
  by (simp add: carried_def demo_marshal_def demo_unmarshal_def maxBroadcastFrame_def)


section \<open>Properties\<close>





text \<open>
  C18 (handshakes): a handshake that succeeds leaves both control streams open, and its result is the
  list of channels that the other side's handshake wrote, whatever follows it on the stream. One
  that fails has ended both, the outbound stream if it was opened and the inbound one if it was taken.
  A first frame that is no handshake, and a version below ours, are refused.
\<close>
theorem handshake_outcome:
  assumes "hs_in h = None \<longrightarrow> hs_read_ctx h \<noteq> None" "hs_write_cancels h \<noteq> [] \<longrightarrow> hs_write_ctx h \<noteq> None"
    and "hs_read_cancels h \<noteq> [] \<longrightarrow> hs_read_ctx h \<noteq> None"
  shows "(case hr_channels (handshake pb own h) of
      Inr channels \<Rightarrow> hr_out (handshake pb own h) = [] \<and> hr_in (handshake pb own h) = [] \<and>
        (\<forall>own' h' bs rest e. hr_wrote (handshake pb own' h') = Some bs \<longrightarrow> hs_in h = Some \<lparr>rdata = bs @ rest, rend = e\<rparr> \<longrightarrow>
           carried (m_Handshake pb) (u_Handshake pb) (ProtocolV1, own') \<longrightarrow> channels = own')
    | Inl err \<Rightarrow> (hs_open h = None \<longleftrightarrow> hr_out (handshake pb own h) \<noteq> []) \<and> (hs_in h \<noteq> None \<longleftrightarrow> hr_in (handshake pb own h) \<noteq> [])) \<and>
    (\<forall>ty data rest e. hs_in h = Some \<lparr>rdata = AppendFrame [] ty data @ rest, rend = e\<rparr> \<longrightarrow> length data \<le> maxBroadcastFrame \<longrightarrow>
       hs_read_ctx h = None \<longrightarrow> snd (snd (handshake_write pb own h)) = None \<longrightarrow>
       ty \<noteq> handshakeFrame \<or> (\<exists>ch. u_Handshake pb data = Inr (0, ch)) \<longrightarrow>
       hr_in (handshake pb own h) = [Refused] \<and> (\<exists>err. hr_channels (handshake pb own h) = Inl err))"
proof (intro conjI allI impI)
  show "case hr_channels (handshake pb own h) of
      Inr channels \<Rightarrow> hr_out (handshake pb own h) = [] \<and> hr_in (handshake pb own h) = [] \<and>
        (\<forall>own' h' bs rest e. hr_wrote (handshake pb own' h') = Some bs \<longrightarrow> hs_in h = Some \<lparr>rdata = bs @ rest, rend = e\<rparr> \<longrightarrow>
           carried (m_Handshake pb) (u_Handshake pb) (ProtocolV1, own') \<longrightarrow> channels = own')
    | Inl err \<Rightarrow> (hs_open h = None \<longleftrightarrow> hr_out (handshake pb own h) \<noteq> []) \<and> (hs_in h \<noteq> None \<longleftrightarrow> hr_in (handshake pb own h) \<noteq> [])"
    using handshake_ends [OF assms, of pb own] by (auto dest!: handshake_wrote simp: readFrame_frame split: sum.splits)
qed (use assms(3) handshake_refused in blast)+

theorem handshake_outcome_witness:
  "let h = \<lparr>hs_open = None, hs_write = (\<lambda>_. None), hs_write_ctx = None, hs_write_cancels = [],
      hs_in = Some \<lparr>rdata = frame (m_Handshake demo_bcastpb) handshakeFrame (ProtocolV1, [''blocks'']), rend = EOF\<rparr>, hs_read_ctx = None, hs_read_cancels = []\<rparr>
   in hr_wrote (handshake demo_bcastpb [''blocks''] h) = Some (frame (m_Handshake demo_bcastpb) handshakeFrame (ProtocolV1, [''blocks''])) \<and>
     (\<exists>channels. hr_channels (handshake demo_bcastpb [''blocks''] h) = Inr channels \<and> channels = [''blocks''] \<and>
       hr_out (handshake demo_bcastpb [''blocks''] h) = [] \<and> hr_in (handshake demo_bcastpb [''blocks''] h) = [])"
proof -
  let ?b = "frame (m_Handshake demo_bcastpb) handshakeFrame (ProtocolV1, [''blocks''])"
  define h where "h = \<lparr>hs_open = None, hs_write = (\<lambda>_. None), hs_write_ctx = None, hs_write_cancels = [],
      hs_in = Some \<lparr>rdata = ?b, rend = EOF\<rparr>, hs_read_ctx = None, hs_read_cancels = []\<rparr>"
  have carried: "carried (m_Handshake demo_bcastpb) (u_Handshake demo_bcastpb) (ProtocolV1, [''blocks''])" by (simp add: demo_bcastpb_def demo_carried)
  from readFrame_frame [OF this, of handshakeFrame "[]"] have ok: "\<exists>channels. hr_channels (handshake demo_bcastpb [''blocks''] h) = Inr channels"
    "hr_wrote (handshake demo_bcastpb [''blocks''] h) = Some ?b"
    using carried by (auto simp: h_def handshake_def handshake_write_def handshake_read_def writeFrame_def Let_def elim!: carriedE)
  have in_h: "hs_in h = Some \<lparr>rdata = ?b @ [], rend = EOF\<rparr>" by (simp add: h_def)
  from handshake_outcome [of h demo_bcastpb "[''blocks'']"] ok carried in_h show ?thesis
    unfolding Let_def h_def [symmetric] by (fastforce simp: h_def)
qed

end
