(* ===== verification/SessionInv.thy ===== *)
theory SessionInv
  imports Session "HOL-Library.Multiset"
begin

text \<open>
  What the handlers of a session (\<open>Session\<close>) do to its streams, its read slots and its peers.
\<close>

section \<open>Frames\<close>

text \<open>
  What sending leaves alone: everything but the strategy and the contexts of running sends, and
  outside no stream is cancelled.
\<close>

definition sends :: "'s session \<times> world \<Rightarrow> 's session \<times> world \<Rightarrow> bool" where
  "sends sw sw' \<longleftrightarrow> (case (sw, sw') of ((s, w), (s', w')) \<Rightarrow>
     s_channelID s' = s_channelID s \<and> s_messageID s' = s_messageID s \<and> s_preamble s' = s_preamble s \<and>
     stage s' = stage s \<and> createdAt s' = createdAt s \<and> everHadPeers s' = everHadPeers s \<and> s_peers s' = s_peers s \<and>
     readSem s' = readSem s \<and> readQueue s' = readQueue s \<and> dedupGroups s' = dedupGroups s \<and> sessCtx s' = sessCtx s \<and>
     readers s' = readers s \<and> readersRead s' = readersRead s \<and> readersDone s' = readersDone s \<and> decoderRuns s' = decoderRuns s \<and>
     conn_id w' = conn_id w \<and> newOutbox w' = newOutbox w \<and> cancelled w' = cancelled w \<and> finished w' = finished w)"

lemma sends_refl [simp]: "sends sw sw"
  by (simp add: sends_def split_beta)

lemma sends_trans: "sends a b \<Longrightarrow> sends b c \<Longrightarrow> sends a c"
  by (simp add: sends_def split_beta)

lemmas world_simps = observe_def CancelRead_def on_ctrl_def cancel_def chunk_error_def give_up_def leave_read_def

lemma sends_world [simp]:
  "sends (s, w) (s, observe ev w)" "sends (s, w) (s, on_ctrl p f w)" "sends (s, w) (s, cancel i c w)" "sends (s, w) (s, chunk_error s' pid er w)"
  by (simp_all add: sends_def world_simps)

lemma sends_fold:
  assumes "\<And>x w. sends (s, w) (s, f x w)"
  shows "sends (s, w) (s, fold f xs w)"
proof (induction xs arbitrary: w)
  case (Cons x xs)
  show ?case using sends_trans [OF assms Cons] by simp
qed simp

lemma chunk_sent_sends: "chunk_sent sc peer h err s = Some s' \<Longrightarrow> sends (s, w) (s', w)"
  by (auto simp: chunk_sent_def sends_def)

lemma sendChunk_sends:
  assumes "sendChunk sc peer ci data sw = Some sw'"
  shows "sends sw sw'"
proof (cases sw)
  case (Pair s w)
  have c: "sends (s, w) (s', cancel i c (w\<lparr>ctxs := cs\<rparr>))" if "chunk_sent sc peer h err s = Some s'" for h err s' i c cs
    using chunk_sent_sends [OF that, of w] by (simp add: sends_def cancel_def)
  show ?thesis using assms
    by (auto simp: Pair sendChunk_def Let_def split_beta bind_eq_Some_conv chunk_sent_sends c split: sum.splits option.splits if_splits)
      (simp add: sends_def)
qed

lemma send_chunks_sends: "send_chunks sc cs sw = Some sw' \<Longrightarrow> sends sw sw'"
proof (induction cs arbitrary: sw)
  case (Cons c cs)
  then show ?case by (auto simp: bind_eq_Some_conv dest!: sendChunk_sends intro: sends_trans)
qed simp

lemma broadcastRouting_sends: "sends (s, w) (s, broadcastRouting sc ord r s w)"
  unfolding broadcastRouting_def
  by (auto split: sum.split intro!: sends_fold) (auto simp: sends_def world_simps Let_def split: prod.split)

lemma strategy_sends: "sends (s, w) (s\<lparr>s_strategy := st\<rparr>, w)"
  by (simp add: sends_def)

lemma drainPolls_sends:
  assumes "drainPolls sc ord sw = Some sw'"
  shows "sends sw sw'"
proof (cases sw)
  case (Pair s w)
  from assms obtain routing st chunks st' where p:
    "Strategy_PollRouting sc (s_strategy s) False = Some (routing, st)"
    "send_chunks sc chunks (s\<lparr>s_strategy := st'\<rparr>,
        case routing of None \<Rightarrow> w | Some r \<Rightarrow> broadcastRouting sc ord r (s\<lparr>s_strategy := st\<rparr>) w) = Some sw'"
    by (auto simp: Pair drainPolls_def Let_def bind_eq_Some_conv)
  have "sends (s, w) (s\<lparr>s_strategy := st'\<rparr>, case routing of None \<Rightarrow> w | Some r \<Rightarrow> broadcastRouting sc ord r (s\<lparr>s_strategy := st\<rparr>) w)"
    using broadcastRouting_sends [of "s\<lparr>s_strategy := st\<rparr>" w sc ord] by (auto simp: sends_def split: option.split)
  from sends_trans [OF this send_chunks_sends [OF p(2)]] show ?thesis by (simp add: Pair)
qed

lemma cancel_handles_sends: "sends sw (cancel_handles peer hs sw)"
proof (induction peer hs sw rule: cancel_handles.induct)
  case (2 peer h hs s w)
  show ?case
  proof (cases "map_of (outboundCancels s) (peer, h)")
    case None
    then show ?thesis using 2(1) by simp
  next
    case (Some ctx)
    have "sends (s, w) (s\<lparr>outboundCancels := AList.delete (peer, h) (outboundCancels s)\<rparr>, cancel ctx Canceled w)"
      by (simp add: sends_def cancel_def)
    from sends_trans [OF this 2(2) [OF Some]] show ?thesis by (simp add: Some)
  qed
qed simp

lemma handleRoutingUpdate_sends:
  assumes "handleRoutingUpdate sc ord peer data sw = Some sw'"
  shows "sends sw sw'"
proof (cases sw)
  case (Pair s w)
  show ?thesis
  proof (cases "R_Unmarshal sc data")
    case (Inl err)
    then show ?thesis using assms by (auto simp: Pair handleRoutingUpdate_def)
  next
    case (Inr update)
    obtain hs err st where r: "Strategy_RoutingUpdate sc (s_strategy s) peer update = (hs, err, st)"
      by (cases "Strategy_RoutingUpdate sc (s_strategy s) peer update")
    define t where "t = s\<lparr>s_strategy := st\<rparr>"
    define v where "v = observe (OnRoutingUpdate peer (s_channelID t) (s_messageID t)) (case err of None \<Rightarrow> w | Some e \<Rightarrow> chunk_error t peer e w)"
    have d: "drainPolls sc ord (cancel_handles peer hs (t, v)) = Some sw'"
      using assms unfolding Pair handleRoutingUpdate_def v_def t_def by (simp add: Inr r Let_def)
    have "sends (s, w) (t, v)" by (auto simp: sends_def t_def v_def world_simps split: option.split)
    from sends_trans [OF sends_trans [OF this cancel_handles_sends] drainPolls_sends [OF d]] show ?thesis by (simp add: Pair)
  qed
qed

lemma handleSendComplete_sends:
  assumes "handleSendComplete sc ord peer h err sz sw = Some sw'"
  shows "sends sw sw'"
proof -
  obtain s w where c: "cancel_handles peer [h] sw = (s, w)" by (cases "cancel_handles peer [h] sw")
  from assms obtain s1 where s1: "chunk_sent sc peer h err s = Some s1"
    "drainPolls sc ord (s1, if err = None then observe (OnChunkSent peer (s_channelID s1) (s_messageID s1) sz) w else w) = Some sw'"
    by (auto simp: handleSendComplete_def c bind_eq_Some_conv)
  have "sends (s, w) (s1, if err = None then observe (OnChunkSent peer (s_channelID s1) (s_messageID s1) sz) w else w)"
    using chunk_sent_sends [OF s1(1), of w] by (simp add: sends_def observe_def)
  from sends_trans [OF sends_trans [OF cancel_handles_sends [of sw peer "[h]", unfolded c] this] drainPolls_sends [OF s1(2)]] show ?thesis .
qed

section \<open>Streams\<close>

text \<open>
  The streams a session holds: those that wait for a slot and those that are read. A stream ends
  when it is given up or read to its end. Every handler keeps the streams held and ended together, up to the stream it is given.
\<close>

definition session_streams :: "'s session \<Rightarrow> nat multiset" where
  "session_streams s = mset (map pr_stream (readQueue s)) + mset (map (pr_stream \<circ> fst) (readers s))"

definition ended :: "world \<Rightarrow> nat multiset" where
  "ended w = mset (map fst (cancelled w)) + mset (map fst (finished w))"

definition held :: "'s session \<times> world \<Rightarrow> nat multiset" where
  "held sw = session_streams (fst sw) + ended (snd sw)"

lemma ended_simps [simp]:
  "ended (observe ev w) = ended w" "ended (CancelRead c st w) = add_mset st (ended w)" "ended (on_ctrl p f w) = ended w"
  "ended (cancel i er w) = ended w" "ended (chunk_error s pid er w) = ended w" "ended (w\<lparr>ctxs := cs\<rparr>) = ended w"
  "ended (give_up pr ctx er cb w) = add_mset (pr_stream pr) (ended w)" "ended (leave_read pr ctx w) = add_mset (pr_stream pr) (ended w)"
  by (simp_all add: ended_def world_simps)

lemma conn_id_end [simp]: "conn_id (give_up pr ctx er cb w) = conn_id w" "conn_id (leave_read pr ctx w) = conn_id w"
  by (simp_all add: world_simps)

lemma session_streams_simps [simp]:
  "session_streams (s\<lparr>s_strategy := st\<rparr>) = session_streams s" "session_streams (s\<lparr>s_peers := ps\<rparr>) = session_streams s"
  "session_streams (s\<lparr>outboundCancels := oc\<rparr>) = session_streams s" "session_streams (s\<lparr>dedupGroups := dg\<rparr>) = session_streams s"
  "session_streams (s\<lparr>stage := sg\<rparr>) = session_streams s" "session_streams (s\<lparr>readSem := n\<rparr>) = session_streams s"
  "session_streams (s\<lparr>everHadPeers := b\<rparr>) = session_streams s" "session_streams (s\<lparr>decoderRuns := b\<rparr>) = session_streams s"
  by (simp_all add: session_streams_def)

lemma sends_held: "sends sw sw' \<Longrightarrow> held sw' = held sw"
  by (auto simp: sends_def held_def session_streams_def ended_def split: prod.splits)

text \<open>The read slots: one reader per slot taken, at most 64.\<close>

definition slots_ok :: "'s session \<Rightarrow> bool" where
  "slots_ok s \<longleftrightarrow> readSem s = length (readers s) + readersRead s \<and> readSem s \<le> maxConcurrentReads"

lemma handleChunkStream_held:
  "held (handleChunkStream sc pr (s, w)) = add_mset (pr_stream pr) (held (s, w))"
proof -
  have "session_streams (fst (snd (dedup_ctx sc chunk (s', w)))) = session_streams s' \<and> readers (fst (snd (dedup_ctx sc chunk (s', w)))) = readers s' \<and>
      readQueue (fst (snd (dedup_ctx sc chunk (s', w)))) = readQueue s' \<and> ended (snd (snd (dedup_ctx sc chunk (s', w)))) = ended w" for chunk s'
    by (auto simp: dedup_ctx_def Let_def split_beta split: option.split)
  then show ?thesis
    by (auto simp: handleChunkStream_def held_def Let_def split_beta session_streams_def split: sum.split)
qed

lemma handleChunkStream_frame:
  assumes "handleChunkStream sc pr (s, w) = (s', w')"
  shows "s_channelID s' = s_channelID s \<and> s_messageID s' = s_messageID s \<and> stage s' = stage s \<and> createdAt s' = createdAt s \<and>
    everHadPeers s' = everHadPeers s \<and> s_peers s' = s_peers s \<and> s_strategy s' = s_strategy s \<and> readersRead s' = readersRead s \<and> readersDone s' = readersDone s \<and>
    sessCtx s' = sessCtx s \<and> decoderRuns s' = decoderRuns s \<and> outboundCancels s' = outboundCancels s \<and>
    conn_id w' = conn_id w \<and> (slots_ok s \<longrightarrow> slots_ok s') \<and>
    (maxConcurrentReads \<le> readSem s \<longrightarrow> readSem s' = readSem s) \<and>
    (readSem s < maxConcurrentReads \<longrightarrow> readQueue s' = readQueue s)"
proof -
  have d: "let (ctx, s1, w1) = dedup_ctx sc chunk (s0, w) in
      s1 = s0\<lparr>dedupGroups := dedupGroups s1\<rparr> \<and> w1 = w\<lparr>ctxs := ctxs w1\<rparr>" for chunk s0
    using dedup_ctx_frame [of sc chunk s0 w] by (auto simp: Let_def split: prod.split)
  show ?thesis
  proof (cases "CI_Unmarshal sc (pr_chunkID pr)")
    case (Inl err)
    then show ?thesis using assms by (auto simp: handleChunkStream_def world_simps)
  next
    case (Inr chunk)
    let ?s = "s\<lparr>readSem := readSem s + 1\<rparr>"
    obtain ctx s1 w1 where d1: "dedup_ctx sc chunk (?s, w) = (ctx, s1, w1)" by (cases "dedup_ctx sc chunk (?s, w)")
    obtain dg cs where s1: "s1 = ?s\<lparr>dedupGroups := dg\<rparr>" "w1 = w\<lparr>ctxs := cs\<rparr>" using d [of chunk ?s] d1 by auto
    show ?thesis using assms Inr
      by (auto simp: handleChunkStream_def Let_def d1 [simplified] s1 slots_ok_def world_simps split: if_splits)
  qed
qed

section \<open>What the handlers change\<close>

text \<open>What handling a chunk leaves alone: all but sends, dedup groups and the step from consuming to decoding.\<close>

definition progresses :: "'s session \<times> world \<Rightarrow> 's session \<times> world \<Rightarrow> bool" where
  "progresses sw sw' \<longleftrightarrow> (case (sw, sw') of ((s, w), (s', w')) \<Rightarrow>
     s_channelID s' = s_channelID s \<and> s_messageID s' = s_messageID s \<and> createdAt s' = createdAt s \<and>
     everHadPeers s' = everHadPeers s \<and> s_peers s' = s_peers s \<and>
     (stage s' = stage s \<or> stage s = stageConsuming \<and> stage s' = stageDecoding) \<and>
     readSem s' = readSem s \<and> readQueue s' = readQueue s \<and> sessCtx s' = sessCtx s \<and> readers s' = readers s \<and>
     readersRead s' = readersRead s \<and> readersDone s' = readersDone s \<and> conn_id w' = conn_id w \<and> cancelled w' = cancelled w \<and> finished w' = finished w)"

lemma sends_progresses: "sends sw sw' \<Longrightarrow> progresses sw sw'"
  by (simp add: sends_def progresses_def split_beta)

lemma progresses_trans: "progresses a b \<Longrightarrow> progresses b c \<Longrightarrow> progresses a c"
  by (auto simp: progresses_def split_beta)

lemma progresses_held: "progresses sw sw' \<Longrightarrow> held sw' = held sw"
  by (auto simp: progresses_def held_def session_streams_def ended_def split: prod.splits)

lemma stage_less [simp]:
  "stageConsuming < stageReconstructed" "stageDecoding < stageReconstructed" "\<not> stageOrigin < stageReconstructed"
  "\<not> stageReconstructed < stageReconstructed" "stageConsuming < stageDecoding" "\<not> stageDecoding \<le> stageConsuming"
  by (simp_all add: less_sessionStage_def less_eq_sessionStage_def)

lemma progresses_idle:
  "progresses (s, w) (s', w') \<Longrightarrow> idle s' = idle s \<and> (stage s' < stageReconstructed \<longleftrightarrow> stage s < stageReconstructed) \<and> slots_ok s' = slots_ok s"
  by (auto simp: progresses_def idle_def slots_ok_def)

lemma notifyPeersComplete_sends: "sends (s, w) (s, notifyPeersComplete ord t w)"
  unfolding notifyPeersComplete_def by (rule sends_fold) (simp add: split_beta)

lemma acceptChunk_progresses:
  assumes "acceptChunk sc ord peer chunk payload (s, w) = Some sw'"
  shows "progresses (s, w) sw'"
proof -
  let ?group = "Option.bind (Strategy_DedupKey sc (s_strategy s) chunk) (\<lambda>key. map_option (Pair key) (map_of (dedupGroups s) key))"
  from assms obtain verdict complete err cg st where
    t: "Strategy_TakeChunk sc (s_strategy s) peer chunk payload = Some (verdict, complete, err, cg, st)"
    unfolding acceptChunk_def by (auto simp: bind_eq_Some_conv)
  obtain s1 w1 where g: "(case ?group of
         Some (key, grp) \<Rightarrow>
           if cg then (s\<lparr>s_strategy := st, dedupGroups := AList.delete key (dedupGroups (s\<lparr>s_strategy := st\<rparr>))\<rparr>, cancel grp errChunkRedundant w) else (s\<lparr>s_strategy := st\<rparr>, w)
       | None \<Rightarrow> (s\<lparr>s_strategy := st\<rparr>, w)) = (s1, w1)" by fastforce
  have p1: "progresses (s, w) (s1, w1)"
    using g by (auto simp: progresses_def world_simps split: option.splits prod.splits if_splits)
  define w2 where "w2 = observe (OnChunkRcvd peer (s_channelID s1) (s_messageID s1) verdict) (case err of None \<Rightarrow> w1 | Some e \<Rightarrow> chunk_error s1 peer e w1)"
  have p2: "progresses (s1, w1) (s1, w2)" by (auto simp: progresses_def w2_def world_simps split: option.split)
  obtain got need where pr: "Strategy_Progress sc (s_strategy s1) = (got, need)" by (cases "Strategy_Progress sc (s_strategy s1)")
  define w3 where "w3 = observe (OnStrategyProgress (s_channelID s1) (s_messageID s1) got need) w2"
  define sw3 where "sw3 = (if verdict = VerdictAccepted then
      if complete \<and> stage s1 = stageConsuming then (s1\<lparr>stage := stageDecoding, decoderRuns := True\<rparr>, notifyPeersComplete ord s1 w3) else (s1, w3)
      else (s1, w2))"
  have "progresses (s1, w2) sw3"
    using notifyPeersComplete_sends [of s1 w3 ord s1] by (auto simp: progresses_def sends_def sw3_def w3_def world_simps)
  moreover have "acceptChunk sc ord peer chunk payload (s, w) = drainPolls sc ord sw3"
    unfolding acceptChunk_def sw3_def w3_def w2_def by (simp add: t g pr Let_def)
  ultimately show ?thesis using assms p1 p2 sends_progresses [OF drainPolls_sends, of sc ord sw3 sw']
    by (auto intro: progresses_trans)
qed

lemma handleChunkData_progresses:
  assumes "handleChunkData sc ord peer chunkID payload (s, w) = Some sw'"
  shows "progresses (s, w) sw'"
  using assms unfolding handleChunkData_def
  by (auto split: sum.splits if_splits Verdict.splits intro: acceptChunk_progresses sends_progresses)

lemma handleVerifyResult_progresses:
  assumes "handleVerifyResult sc ord peer chunkID payload verdict (s, w) = Some sw'"
  shows "progresses (s, w) sw'"
  using assms unfolding handleVerifyResult_def
  by (auto split: sum.splits if_splits intro: acceptChunk_progresses sends_progresses)

text \<open>Attaching a peer.\<close>

lemma handlePeerAttached_spec:
  assumes "handlePeerAttached sc ord p (s, w) = Some (s', w')"
  shows "(if map_of (s_peers s) (conn_id w p) \<noteq> None then s' = s \<and> w' = w
     else everHadPeers s' \<and> (\<exists>box. s_peers s' = AList.update (conn_id w p) \<lparr>sp_conn = p, sp_chunkOutbox = box, sp_completed = False\<rparr> (s_peers s))) \<and>
    s_channelID s' = s_channelID s \<and> s_messageID s' = s_messageID s \<and> createdAt s' = createdAt s \<and> stage s' = stage s \<and>
    readSem s' = readSem s \<and> readQueue s' = readQueue s \<and> sessCtx s' = sessCtx s \<and> readers s' = readers s \<and>
    readersRead s' = readersRead s \<and> readersDone s' = readersDone s \<and> conn_id w' = conn_id w \<and> cancelled w' = cancelled w \<and> finished w' = finished w"
proof (cases "map_of (s_peers s) (conn_id w p)")
  case (Some sp)
  then show ?thesis using assms by (simp add: handlePeerAttached_def)
next
  case None
  define t where "t = s\<lparr>everHadPeers := True,
      s_peers := AList.update (conn_id w p) \<lparr>sp_conn = p, sp_chunkOutbox = newOutbox w, sp_completed = False\<rparr> (s_peers s),
      s_strategy := Strategy_AttachPeer sc (s_strategy s) (conn_id w p)\<rparr>"
  let ?w = "w\<lparr>newOutbox := newOutbox w + 1, outboxes := (outboxes w)(newOutbox w := [])\<rparr>"
  from assms None obtain routing st where pr: "Strategy_PollRouting sc (s_strategy t) True = Some (routing, st)"
    by (auto simp: handlePeerAttached_def t_def Let_def bind_eq_Some_conv)
  obtain ir v where iv: "(case routing of None \<Rightarrow> ([], ?w)
      | Some r \<Rightarrow> (case R_Marshal sc r of Inl _ \<Rightarrow> [] | Inr bs \<Rightarrow> bs, observe (OnRoutingUpdate (conn_id w p) (s_channelID s) (s_messageID s)) ?w)) = (ir, v)"
    by fastforce
  then have v: "conn_id v = conn_id w" "cancelled v = cancelled w" "finished v = finished w" by (auto simp: observe_def split: option.splits)
  have d: "drainPolls sc ord (t\<lparr>s_strategy := st\<rparr>, on_ctrl p (openSession \<lparr>os_channelID = s_channelID s, os_messageID = s_messageID s,
      os_preamble = s_preamble s, os_initialRouting = ir, os_chunkOutbox = newOutbox w\<rparr>) v) = Some (s', w')"
    using assms None pr iv by (simp add: handlePeerAttached_def t_def Let_def cong: option.case_cong)
  from drainPolls_sends [OF d] v None show ?thesis by (auto simp: sends_def t_def on_ctrl_def)
qed

text \<open>Draining the read queue: it ends with an empty queue or with every slot taken.\<close>

lemma drainReads_spec:
  assumes "drainReads sc (s, w) = (s', w')" "slots_ok s"
  shows "held (s', w') = held (s, w) \<and> slots_ok s' \<and> (readQueue s' = [] \<or> readSem s' = maxConcurrentReads) \<and>
    s_channelID s' = s_channelID s \<and> s_messageID s' = s_messageID s \<and> stage s' = stage s \<and> createdAt s' = createdAt s \<and>
    everHadPeers s' = everHadPeers s \<and> s_peers s' = s_peers s \<and> s_strategy s' = s_strategy s \<and> readersRead s' = readersRead s \<and> readersDone s' = readersDone s \<and>
    sessCtx s' = sessCtx s \<and> decoderRuns s' = decoderRuns s \<and> outboundCancels s' = outboundCancels s \<and> conn_id w' = conn_id w"
  using assms
proof (induction sc "(s, w)" arbitrary: s w rule: drainReads.induct)
  case (1 sc s w)
  show ?case
  proof (cases "readQueue s")
    case Nil
    then show ?thesis using 1(2,3) by (simp add: drainReads.simps)
  next
    case (Cons pending rest)
    show ?thesis
    proof (cases "readSem s < maxConcurrentReads")
      case False
      then show ?thesis using 1(2,3) Cons by (simp add: drainReads.simps slots_ok_def)
    next
      case True
      obtain s1 w1 where h: "handleChunkStream sc pending (s\<lparr>readQueue := rest\<rparr>, w) = (s1, w1)"
        by (cases "handleChunkStream sc pending (s\<lparr>readQueue := rest\<rparr>, w)")
      have ok: "slots_ok (s\<lparr>readQueue := rest\<rparr>)" using 1(3) by (simp add: slots_ok_def)
      note f = handleChunkStream_frame [OF h]
      have "held (s1, w1) = held (s, w)"
        using handleChunkStream_held [of sc pending "s\<lparr>readQueue := rest\<rparr>" w] Cons by (simp add: h held_def session_streams_def)
      moreover have "drainReads sc (s1, w1) = (s', w')" using 1(2) Cons True h by (simp add: drainReads.simps [of sc s w])
      ultimately show ?thesis using 1(1) [OF Cons True h] f ok by simp
    qed
  qed
qed

lemma held_eq: "held (s, w) = session_streams s + ended w"
  by (simp add: held_def)

lemma fold_CancelRead:
  "ended (fold (\<lambda>x. CancelRead (c x) (st x)) xs w) = mset (map st xs) + ended w"
  by (induction xs arbitrary: w) simp_all

lemma fold_CancelRead_if:
  "ended (fold (\<lambda>x. if P x then CancelRead (c x) (st x) else id) xs w) = mset (map st (filter P xs)) + ended w"
  by (induction xs arbitrary: w) simp_all

lemma sends_ended: "sends (s, w) (s', w') \<Longrightarrow> ended w' = ended w \<and> conn_id w' = conn_id w"
  by (simp add: sends_def ended_def)

lemma cancelOutbound_spec:
  assumes "cancelOutbound peer (s, w) = (s', w')"
  shows "s' = s\<lparr>outboundCancels := filter (\<lambda>((p, _), _). p \<noteq> peer) (outboundCancels s)\<rparr>" "ended w' = ended w" "conn_id w' = conn_id w"
proof -
  have "sends (s, w) (s, fold (\<lambda>((p, _), ctx). if p = peer then cancel ctx Canceled else id) (outboundCancels s) w)"
    by (rule sends_fold) (simp add: split_beta)
  then show "ended w' = ended w" "conn_id w' = conn_id w" using assms sends_ended by (auto simp: cancelOutbound_def)
  show "s' = s\<lparr>outboundCancels := filter (\<lambda>((p, _), _). p \<noteq> peer) (outboundCancels s)\<rparr>" using assms by (simp add: cancelOutbound_def)
qed

lemma mset_map_partition: "mset (map f (filter P xs)) + mset (map f (filter (\<lambda>x. \<not> P x) xs)) = mset (map f xs)"
  by (induction xs) auto

lemma handlePeerDropped_spec:
  assumes "handlePeerDropped sc peer (s, w) = (s', w')"
  shows "held (s', w') = held (s, w)"
    and "s_peers s' = AList.delete peer (s_peers s)" "readQueue s' = filter (\<lambda>pending. pr_peer pending \<noteq> peer) (readQueue s)"
    and "s_channelID s' = s_channelID s \<and> s_messageID s' = s_messageID s \<and> stage s' = stage s \<and> createdAt s' = createdAt s \<and>
      everHadPeers s' = everHadPeers s \<and> readersRead s' = readersRead s \<and> readersDone s' = readersDone s \<and> readers s' = readers s \<and> readSem s' = readSem s \<and>
      sessCtx s' = sessCtx s \<and> decoderRuns s' = decoderRuns s \<and> conn_id w' = conn_id w"
proof -
  define w1 where "w1 = (case map_of (s_peers s) peer of None \<Rightarrow> w | Some sp \<Rightarrow> on_ctrl (sp_conn sp) (closeSession (session_key s)) w)"
  define w2 where "w2 = fold (\<lambda>pending. if pr_peer pending = peer then CancelRead Unspecified (pr_stream pending) else id) (readQueue s) w1"
  define s2 where "s2 = s\<lparr>readQueue := filter (\<lambda>pending. pr_peer pending \<noteq> peer) (readQueue s), s_peers := AList.delete peer (s_peers s)\<rparr>"
  obtain s3 w3 where c: "cancelOutbound peer (s2, w2) = (s3, w3)" by (cases "cancelOutbound peer (s2, w2)")
  have r: "s' = s3\<lparr>s_strategy := Strategy_DetachPeer sc (s_strategy s3) peer False\<rparr>" "w' = w3"
    using assms c by (simp_all add: handlePeerDropped_def Let_def w1_def w2_def s2_def)
  have w1: "ended w1 = ended w" "conn_id w1 = conn_id w" by (simp_all add: w1_def world_simps ended_def split: option.split)
  have conn: "conn_id (fold (\<lambda>pending. if pr_peer pending = peer then CancelRead Unspecified (pr_stream pending) else id) xs v) = conn_id v" for xs v
    by (induction xs arbitrary: v) (simp_all add: CancelRead_def)
  have "ended w' = mset (map pr_stream (filter (\<lambda>x. pr_peer x = peer) (readQueue s))) + ended w"
    using cancelOutbound_spec(2) [OF c] w1 fold_CancelRead_if [of "\<lambda>x. pr_peer x = peer" "\<lambda>_. Unspecified" pr_stream "readQueue s" w1]
    by (simp add: r w2_def)
  moreover have "session_streams s' = mset (map pr_stream (filter (\<lambda>x. pr_peer x \<noteq> peer) (readQueue s))) + mset (map (pr_stream \<circ> fst) (readers s))"
    using cancelOutbound_spec(1) [OF c] by (simp add: session_streams_def r s2_def)
  ultimately show "held (s', w') = held (s, w)"
    unfolding held_def session_streams_def [of s] fst_conv snd_conv mset_map_partition [of pr_stream "\<lambda>x. pr_peer x = peer" "readQueue s", symmetric]
    by (simp only: ac_simps)
  show "s_peers s' = AList.delete peer (s_peers s)" "readQueue s' = filter (\<lambda>pending. pr_peer pending \<noteq> peer) (readQueue s)"
    using cancelOutbound_spec [OF c] by (simp_all add: r s2_def)
  show "s_channelID s' = s_channelID s \<and> s_messageID s' = s_messageID s \<and> stage s' = stage s \<and> createdAt s' = createdAt s \<and>
      everHadPeers s' = everHadPeers s \<and> readersRead s' = readersRead s \<and> readersDone s' = readersDone s \<and> readers s' = readers s \<and> readSem s' = readSem s \<and>
      sessCtx s' = sessCtx s \<and> decoderRuns s' = decoderRuns s \<and> conn_id w' = conn_id w"
    using cancelOutbound_spec(1,3) [OF c] w1 conn [of "readQueue s" w1, folded w2_def] by (simp add: r s2_def)
qed

lemma closeWithCode_spec:
  assumes "closeWithCode re ord c (s, w) = (s', w')"
  shows "ended w' = held (s, w)" "conn_id w' = conn_id w"
proof -
  define w1 where "w1 = cancel (sessCtx s) (close_cause c) (notifyPeersSessionDone ord s w)"
  have "sends (s, w) (s, notifyPeersSessionDone ord s w)"
    unfolding notifyPeersSessionDone_def by (rule sends_fold) (simp add: split_beta)
  then have w1: "ended w1 = ended w" "conn_id w1 = conn_id w" by (auto simp: w1_def sends_def ended_def cancel_def)
  define w2 where "w2 = fold (\<lambda>pending. CancelRead c (pr_stream pending)) (readQueue s) w1"
  have w': "w' = fold (end_reader re) (readers s) w2"
    using assms by (simp add: closeWithCode_def Let_def w1_def w2_def)
  have f: "ended (fold (end_reader re) xs v) = mset (map (pr_stream \<circ> fst) xs) + ended v \<and> conn_id (fold (end_reader re) xs v) = conn_id v" for xs v
    by (induction xs arbitrary: v) (auto simp: end_reader_def split: readState.split)
  have g: "conn_id (fold (\<lambda>pending. CancelRead c (pr_stream pending)) xs v) = conn_id v" for xs v
    by (induction xs arbitrary: v) (simp_all add: CancelRead_def)
  show "ended w' = held (s, w)"
    using f [of "readers s" w2] w1 fold_CancelRead [of "\<lambda>_. c" pr_stream "readQueue s" w1, folded w2_def]
    by (simp add: w' held_def session_streams_def)
  show "conn_id w' = conn_id w" using f [of "readers s" w2] g [of "readQueue s" w1, folded w2_def] w1 by (simp add: w')
qed

end
