(* ===== verification/ChannelInv.thy ===== *)
theory ChannelInv
  imports Channel SessionInv
begin

text \<open>
  The invariant of a channel (\<open>Channel\<close>) and that every event keeps it: streams are neither
  lost nor ended twice, every session has its read slots in order and something left to do, its
  peers are members of the channel, and parked groups stay within their bound.
\<close>

section \<open>Sums over association lists\<close>

definition alist_sum :: "('v \<Rightarrow> 'a::comm_monoid_add) \<Rightarrow> ('k \<times> 'v) list \<Rightarrow> 'a" where
  "alist_sum f xs = sum_list (map (f \<circ> snd) xs)"

abbreviation opt_sum :: "('v \<Rightarrow> 'a::zero) \<Rightarrow> 'v option \<Rightarrow> 'a" where
  "opt_sum f x \<equiv> (case x of None \<Rightarrow> 0 | Some v \<Rightarrow> f v)"

lemma alist_sum_absent: "k \<notin> fst ` set xs \<Longrightarrow> AList.delete k xs = xs"
  by (induction xs) (auto simp: AList.delete_eq)

lemma alist_sum_delete:
  "distinct (map fst xs) \<Longrightarrow> alist_sum f (AList.delete k xs) + opt_sum f (map_of xs k) = alist_sum f xs"
proof (induction xs)
  case (Cons p xs)
  obtain j v where p: "p = (j, v)" by (cases p)
  show ?case
  proof (cases "j = k")
    case True
    then have "AList.delete k xs = xs" using Cons.prems by (intro alist_sum_absent) (simp add: p)
    then show ?thesis using True by (simp add: p AList.delete_eq alist_sum_def add.commute)
  next
    case False
    then show ?thesis using Cons by (simp add: p AList.delete_eq alist_sum_def add.assoc)
  qed
qed (simp add: alist_sum_def)

lemma alist_sum_update:
  "distinct (map fst xs) \<Longrightarrow> alist_sum f (AList.update k v xs) + opt_sum f (map_of xs k) = alist_sum f xs + f v"
  by (induction xs) (auto simp: alist_sum_def ac_simps split: prod.split)

lemma mset_shift:
  fixes a :: "'a multiset"
  assumes "a' + s = a + s'" "s' + e' = x + (s + e)"
  shows "a' + p + e' = x + (a + p + e)"
proof (rule multiset_eqI)
  fix z
  have "count a' z + count s z = count a z + count s' z" "count s' z + count e' z = count x z + (count s z + count e z)"
    using arg_cong [OF assms(1), of "\<lambda>m. count m z"] arg_cong [OF assms(2), of "\<lambda>m. count m z"] by simp_all
  then show "count (a' + p + e') z = count (x + (a + p + e)) z" by simp
qed

section \<open>Accounting for streams\<close>

definition parked_streams :: "parkedGroup \<Rightarrow> nat multiset" where
  "parked_streams g = mset (map (\<lambda>(_, _, st). st) (pg_streams g))"

definition channel_streams :: "'s Channel \<Rightarrow> nat multiset" where
  "channel_streams tr = alist_sum session_streams (sessions tr) + alist_sum parked_streams (parked tr)"

text \<open>All streams a channel holds or has ended.\<close>

definition stream_total :: "'s Channel \<times> world \<Rightarrow> nat multiset" where
  "stream_total trw = channel_streams (fst trw) + ended (snd trw)"

definition channel_wf :: "'s Channel \<Rightarrow> bool" where
  "channel_wf tr \<longleftrightarrow> distinct (map fst (sessions tr)) \<and> distinct (map fst (parked tr)) \<and> distinct (map fst (members tr))"

lemma set_sess_total:
  assumes "channel_wf tr" "map_of (sessions tr) m = Some s" "held sw' = X + held (s, w)"
  shows "stream_total (set_sess m sw' tr) = X + stream_total (tr, w)"
proof -
  obtain s' w' where sw': "sw' = (s', w')" by (cases sw')
  have "alist_sum session_streams (AList.update m s' (sessions tr)) + session_streams s = alist_sum session_streams (sessions tr) + session_streams s'"
    using alist_sum_update [of "sessions tr" session_streams m s'] assms(1,2) by (simp add: channel_wf_def)
  from mset_shift [OF this, of "ended w'" X "ended w"] assms(3) show ?thesis
    by (simp add: sw' set_sess_def stream_total_def channel_streams_def held_def)
qed

lemma set_sess_new_total:
  assumes "channel_wf tr" "map_of (sessions tr) m = None"
  shows "stream_total (set_sess m (s', w') tr) = channel_streams tr + held (s', w')"
proof -
  have "alist_sum session_streams (AList.update m s' (sessions tr)) = alist_sum session_streams (sessions tr) + session_streams s'"
    using alist_sum_update [of "sessions tr" session_streams m s'] assms by (simp add: channel_wf_def)
  then show ?thesis by (simp add: set_sess_def stream_total_def channel_streams_def held_def ac_simps)
qed

lemma cancel_parked_ended: "ended (cancel_parked c g w) = parked_streams g + ended w"
proof -
  have "ended (fold (\<lambda>(_, _, stream). CancelRead c stream) xs w) = mset (map (\<lambda>(_, _, st). st) xs) + ended w" for xs
    by (induction xs arbitrary: w) auto
  then show ?thesis by (simp add: cancel_parked_def parked_streams_def)
qed

lemma fold_world_conn:
  assumes "\<And>x w. conn_id (f x w) = conn_id w"
  shows "conn_id (fold f xs w) = conn_id w"
  by (induction xs arbitrary: w) (simp_all add: assms)

lemma world_conn [simp]:
  "conn_id (observe ev w) = conn_id w" "conn_id (CancelRead c st w) = conn_id w" "conn_id (on_ctrl p f w) = conn_id w"
  "conn_id (cancel i er w) = conn_id w" "conn_id (chunk_error s pid er w) = conn_id w"
  by (simp_all add: world_simps)

lemma cancel_parked_conn [simp]: "conn_id (cancel_parked c g w) = conn_id w"
  unfolding cancel_parked_def by (rule fold_world_conn) (simp add: split_beta)

lemma parked_delete_total:
  assumes "channel_wf tr" "map_of (parked tr) m = Some g"
  shows "stream_total (tr\<lparr>parked := AList.delete m (parked tr)\<rparr>, cancel_parked c g w) = stream_total (tr, w)"
  using alist_sum_delete [of "parked tr" parked_streams m] assms
  by (simp add: stream_total_def channel_streams_def channel_wf_def cancel_parked_ended ac_simps)

lemma disposeSession_spec:
  assumes "channel_wf tr" "disposeSession e m reason (tr, w) = (tr', w')"
  shows "stream_total (tr', w') = stream_total (tr, w) \<and> channel_wf tr' \<and> conn_id w' = conn_id w \<and> members tr' = members tr \<and> ch_id tr' = ch_id tr \<and>
    (if map_of (sessions tr) m = None then tr' = tr \<and> w' = w
     else sessions tr' = AList.delete m (sessions tr) \<and> parked tr' = AList.delete m (parked tr))"
proof (cases "map_of (sessions tr) m")
  case None
  then show ?thesis using assms by (simp add: disposeSession_def)
next
  case (Some sess)
  define c where "c = (if stageDecoding \<le> stage sess then Redundant else if reason = ''ttl_expired'' then Refused else Unspecified)"
  define w1 where "w1 = (case map_of (parked tr) m of None \<Rightarrow> w | Some g \<Rightarrow> cancel_parked c g w)"
  obtain s2 w2 where cl: "closeWithCode (read_err e) (ord_peers e) c (sess, w1) = (s2, w2)" by (cases "closeWithCode (read_err e) (ord_peers e) c (sess, w1)")
  have r: "tr' = tr\<lparr>sessions := AList.delete m (sessions tr), parked := AList.delete m (parked tr)\<rparr>"
    "w' = observe (OnSessionDisposed (ch_id tr) m reason) w2"
    using assms(2) Some cl by (simp_all add: disposeSession_def Let_def c_def [symmetric] w1_def [symmetric])
  have "ended w1 = opt_sum parked_streams (map_of (parked tr) m) + ended w" "conn_id w1 = conn_id w"
    by (simp_all add: w1_def cancel_parked_ended split: option.split)
  moreover have "alist_sum parked_streams (parked tr) = alist_sum parked_streams (AList.delete m (parked tr)) + opt_sum parked_streams (map_of (parked tr) m)"
    "alist_sum session_streams (sessions tr) = alist_sum session_streams (AList.delete m (sessions tr)) + session_streams sess"
    using alist_sum_delete [of "parked tr" parked_streams m] alist_sum_delete [of "sessions tr" session_streams m] assms(1) Some
    by (simp_all add: channel_wf_def)
  ultimately have "stream_total (tr', w') = stream_total (tr, w)"
    using closeWithCode_spec(1) [OF cl] unfolding stream_total_def channel_streams_def r fst_conv snd_conv
    by (simp add: held_def)
  then show ?thesis using Some r assms(1) closeWithCode_spec(2) [OF cl] \<open>conn_id w1 = conn_id w\<close>
    by (simp add: channel_wf_def alist_simps)
qed

section \<open>The invariant\<close>

text \<open>
  A session's queue of reads waits only while every slot is taken or a wake-up (a
  \<open>channelReadDone\<close>) comes or is about to be posted.
\<close>

definition served :: "bool \<Rightarrow> 's session \<Rightarrow> bool" where
  "served wake s \<longleftrightarrow> readQueue s = [] \<or> readSem s = maxConcurrentReads \<or> 0 < readersDone s \<or> wake"

text \<open>A session's peers are members of the channel, with the same connection.\<close>

definition linked :: "(PeerID \<times> nat) list \<Rightarrow> 's session \<Rightarrow> bool" where
  "linked M s \<longleftrightarrow> distinct (map fst (s_peers s)) \<and> (\<forall>p sp. map_of (s_peers s) p = Some sp \<longrightarrow> map_of M p = Some (sp_conn sp))"

definition session_ok :: "(PeerID \<times> nat) list \<Rightarrow> ChannelID \<Rightarrow> MessageID \<Rightarrow> bool \<Rightarrow> 's session \<Rightarrow> bool" where
  "session_ok M c m wake s \<longleftrightarrow> s_messageID s = m \<and> s_channelID s = c \<and> slots_ok s \<and> served wake s \<and> linked M s"

text \<open>A parked group is within its bound, and beside a session only if that is an origin.\<close>

definition parked_ok :: "'s Channel \<Rightarrow> bool" where
  "parked_ok tr \<longleftrightarrow> (\<forall>m g. map_of (parked tr) m = Some g \<longrightarrow>
     pg_streams g \<noteq> [] \<and> length (pg_streams g) \<le> maxParkedChunks \<and>
     (\<forall>s. map_of (sessions tr) m = Some s \<longrightarrow> stage s = stageOrigin))"

text \<open>\<open>M\<close> are the members, \<open>W\<close> the messages with a wake-up on its way; only sessions of \<open>D\<close> may be idle.\<close>

definition channel_ok :: "(PeerID \<times> nat) list \<Rightarrow> MessageID set \<Rightarrow> MessageID set \<Rightarrow> 's Channel \<Rightarrow> bool" where
  "channel_ok M W D tr \<longleftrightarrow> channel_wf tr \<and> parked_ok tr \<and>
     (\<forall>m s. map_of (sessions tr) m = Some s \<longrightarrow> session_ok M (ch_id tr) m (m \<in> W) s \<and> (m \<in> D \<or> \<not> idle s))"

lemma channel_okD:
  assumes "channel_ok M W D tr"
  shows "channel_wf tr" "parked_ok tr"
    "map_of (sessions tr) m = Some s \<Longrightarrow> session_ok M (ch_id tr) m (m \<in> W) s"
    "map_of (sessions tr) m = Some s \<Longrightarrow> m \<in> D \<or> \<not> idle s"
  using assms by (auto simp: channel_ok_def)

text \<open>A step of the channel that takes over the streams \<open>X\<close>.\<close>

definition keeps :: "(PeerID \<times> nat) list \<Rightarrow> MessageID set \<Rightarrow> MessageID set \<Rightarrow> nat multiset \<Rightarrow> 's Channel \<times> world \<Rightarrow> 's Channel \<times> world \<Rightarrow> bool" where
  "keeps M W D X trw trw' \<longleftrightarrow> channel_ok M W D (fst trw') \<and> stream_total trw' = X + stream_total trw \<and>
     conn_id (snd trw') = conn_id (snd trw) \<and> members (fst trw') = members (fst trw) \<and> ch_id (fst trw') = ch_id (fst trw)"

lemma keeps_refl: "channel_ok M W D (fst trw) \<Longrightarrow> keeps M W D {#} trw trw"
  by (simp add: keeps_def)

lemma keeps_trans: "keeps M W D X a b \<Longrightarrow> keeps M' W' D' Y b c \<Longrightarrow> keeps M' W' D' (X + Y) a c"
  by (simp add: keeps_def)

lemma keeps_observe: "keeps M W D X a (tr, w) \<Longrightarrow> keeps M W D X a (tr, observe ev w)"
  by (simp add: keeps_def stream_total_def)

lemma keeps_fold:
  assumes "\<And>x tr w. channel_ok M W D tr \<Longrightarrow> keeps M W D {#} (tr, w) (f x (tr, w))" "channel_ok M W D (fst trw)"
  shows "keeps M W D {#} trw (fold f xs trw)"
  using assms(2)
proof (induction xs arbitrary: trw)
  case (Cons x xs)
  have k: "keeps M W D {#} trw (f x trw)" using assms(1) [OF Cons.prems, of "snd trw"] by simp
  then have "channel_ok M W D (fst (f x trw))" by (simp add: keeps_def)
  from keeps_trans [OF k Cons.IH [OF this]] show ?case by simp
qed (simp add: keeps_refl)

text \<open>Replacing one session.\<close>

lemma set_sess_keeps:
  assumes "channel_ok M W D tr" "map_of (sessions tr) m = Some s" "session_ok M (ch_id tr) m (m \<in> W') s'" "m \<in> D' \<or> \<not> idle s'"
    "held (s', w') = X + held (s, w)" "conn_id w' = conn_id w" "stage s = stageOrigin \<longrightarrow> stage s' = stageOrigin"
    "W - {m} \<subseteq> W'" "D - {m} \<subseteq> D'"
  shows "keeps M W' D' X (tr, w) (set_sess m (s', w') tr)"
proof -
  have served: "served b s \<Longrightarrow> (b \<longrightarrow> b') \<Longrightarrow> served b' s" for b b' and s :: "'a session"
    by (auto simp: served_def)
  have o: "session_ok M (ch_id tr) j (j \<in> W') t \<and> (j \<in> D' \<or> \<not> idle t)" if "map_of (sessions tr) j = Some t" "j \<noteq> m" for j t
    using channel_okD(3,4) [OF assms(1) that(1)] that(2) assms(8,9) served [of "j \<in> W" t "j \<in> W'"] by (auto simp: session_ok_def)
  have "channel_ok M W' D' (tr\<lparr>sessions := AList.update m s' (sessions tr)\<rparr>)"
    unfolding channel_ok_def
  proof (intro conjI allI impI)
    show "channel_wf (tr\<lparr>sessions := AList.update m s' (sessions tr)\<rparr>)"
      using channel_okD(1) [OF assms(1)] by (simp add: channel_wf_def alist_simps)
    show "parked_ok (tr\<lparr>sessions := AList.update m s' (sessions tr)\<rparr>)"
      using channel_okD(2) [OF assms(1)] assms(2,7) by (auto simp: parked_ok_def alist_simps split: if_splits)
  qed (use o assms(3,4) in \<open>auto simp: alist_simps split: if_splits\<close>)
  then show ?thesis using set_sess_total [OF channel_okD(1) [OF assms(1)] assms(2,5)] assms(6) by (simp add: keeps_def set_sess_def)
qed

lemma with_session_keeps:
  assumes "channel_ok M W {} tr" "with_session m f (tr, w) = Some trw'"
    "\<And>s sw'. map_of (sessions tr) m = Some s \<Longrightarrow> f (s, w) = Some sw' \<Longrightarrow> progresses (s, w) sw'"
  shows "keeps M W {} {#} (tr, w) trw'"
proof (cases "map_of (sessions tr) m")
  case None
  then show ?thesis using assms by (auto simp: with_session_def keeps_refl)
next
  case (Some s)
  with assms(2) obtain s' w' where f: "f (s, w) = Some (s', w')" "trw' = set_sess m (s', w') tr"
    by (auto simp: with_session_def bind_eq_Some_conv)
  note p = assms(3) [OF Some f(1)]
  show ?thesis unfolding f(2)
  proof (rule set_sess_keeps [OF assms(1) Some])
    show "session_ok M (ch_id tr) m (m \<in> W) s'" using channel_okD(3) [OF assms(1) Some] p
      by (auto simp: session_ok_def progresses_def linked_def served_def slots_ok_def)
    show "m \<in> {} \<or> \<not> idle s'" using channel_okD(4) [OF assms(1) Some] progresses_idle [OF p] by simp
  qed (use p progresses_held [OF p] in \<open>auto simp: progresses_def\<close>)
qed

section \<open>Disposal and expiry\<close>

lemma map_of_delete: "map_of (AList.delete k xs) j = (if j = k then None else map_of xs j)"
  by (simp add: alist_simps)

lemma channel_ok_mono: "channel_ok M W D tr \<Longrightarrow> D \<subseteq> D' \<Longrightarrow> channel_ok M W D' tr"
  by (auto simp: channel_ok_def)

lemma channel_ok_settle:
  assumes "channel_ok M W {m} tr" "\<And>s. map_of (sessions tr) m = Some s \<Longrightarrow> \<not> idle s"
  shows "channel_ok M W {} tr"
  using assms(1) unfolding channel_ok_def by (simp, metis assms(2))

lemma disposeSession_keeps:
  assumes "channel_ok M W D tr"
  shows "keeps M W (D - {m}) {#} (tr, w) (disposeSession e m reason (tr, w))"
proof -
  obtain tr' w' where d: "disposeSession e m reason (tr, w) = (tr', w')" by (cases "disposeSession e m reason (tr, w)")
  note sp = disposeSession_spec [OF channel_okD(1) [OF assms] d]
  show ?thesis
  proof (cases "map_of (sessions tr) m = None")
    case True
    moreover have "channel_ok M W (D - {m}) tr" using assms True by (auto simp: channel_ok_def)
    ultimately show ?thesis using sp d by (simp add: keeps_refl)
  next
    case False
    then have s: "sessions tr' = AList.delete m (sessions tr)" "parked tr' = AList.delete m (parked tr)" using sp by simp_all
    have "parked_ok tr'" using channel_okD(2) [OF assms] by (simp add: parked_ok_def s map_of_delete)
    moreover have "session_ok M (ch_id tr') j (j \<in> W) t \<and> (j \<in> D - {m} \<or> \<not> idle t)" if "map_of (sessions tr') j = Some t" for j t
      using that channel_okD(3,4) [OF assms, of j t] sp by (auto simp: s map_of_delete split: if_splits)
    ultimately have "channel_ok M W (D - {m}) tr'" using sp by (simp add: channel_ok_def)
    then show ?thesis using sp by (simp add: d keeps_def)
  qed
qed

lemma disposeIfIdle_keeps:
  assumes "channel_ok M W {m} tr"
  shows "keeps M W {} {#} (tr, w) (disposeIfIdle e m (tr, w))"
proof (cases "map_of (sessions tr) m")
  case None
  then have "channel_ok M W {} tr" using channel_ok_settle [OF assms] by simp
  then show ?thesis using None by (simp add: disposeIfIdle_def keeps_refl)
next
  case (Some s)
  show ?thesis
  proof (cases "idle s")
    case True
    have "s_messageID s = m" using channel_okD(3) [OF assms Some] by (simp add: session_ok_def)
    then show ?thesis using disposeSession_keeps [OF assms, of m w e "''all_peers_done''"] Some True by (simp add: disposeIfIdle_def)
  next
    case False
    then have "channel_ok M W {} tr" using channel_ok_settle [OF assms] Some by simp
    then show ?thesis using Some False by (simp add: disposeIfIdle_def keeps_refl)
  qed
qed

lemma expire_session_keeps:
  assumes "channel_ok M W {} tr"
  shows "keeps M W {} {#} (tr, w) (expire_session e m (tr, w))"
  using keeps_refl [of M W "{}" "(tr, w)"] disposeSession_keeps [OF assms, of m w e "''ttl_expired''"] assms
  by (auto simp: expire_session_def split: option.split)

lemma parked_delete_keeps:
  assumes "channel_ok M W D tr" "map_of (parked tr) m = Some g"
  shows "keeps M W D {#} (tr, w) (tr\<lparr>parked := AList.delete m (parked tr)\<rparr>, cancel_parked c g w)"
proof -
  have "channel_ok M W D (tr\<lparr>parked := AList.delete m (parked tr)\<rparr>)"
    using assms by (auto simp: channel_ok_def channel_wf_def parked_ok_def alist_simps)
  then show ?thesis using parked_delete_total [OF channel_okD(1) [OF assms(1)] assms(2), of c w] by (simp add: keeps_def)
qed

lemma expire_parked_keeps:
  assumes "channel_ok M W D tr"
  shows "keeps M W D {#} (tr, w) (expire_parked e m (tr, w))"
  using keeps_refl [of M W D "(tr, w)"] parked_delete_keeps [OF assms, of m] assms
  by (auto simp: expire_parked_def split: option.split)

lemma expireDue_keeps:
  assumes "channel_ok M W {} (fst trw)"
  shows "keeps M W {} {#} trw (expireDue e trw)"
proof -
  let ?t = "fold (expire_session e) (ord_msgs e (map fst (sessions (fst trw)))) trw"
  have k: "keeps M W {} {#} trw ?t"
    by (rule keeps_fold [rotated, OF assms]) (rule expire_session_keeps)
  then have "channel_ok M W {} (fst ?t)" by (simp add: keeps_def)
  then have "keeps M W {} {#} ?t (fold (expire_parked e) (ord_msgs e (map fst (parked (fst ?t)))) ?t)"
    by (rule keeps_fold [rotated]) (rule expire_parked_keeps)
  from keeps_trans [OF k this] show ?thesis by (simp add: expireDue_def split_beta)
qed

section \<open>Peers that come and go\<close>

lemma distinct_delete: "distinct (map fst xs) \<Longrightarrow> distinct (map fst (AList.delete k xs))"
  by (simp add: alist_simps)

lemma drop_from_session_keeps:
  assumes "channel_ok M W {} tr"
  shows "keeps M W {} {#} (tr, w) (drop_from_session sc e peer m (tr, w))"
proof (cases "map_of (sessions tr) m")
  case None
  then show ?thesis using keeps_refl [of M W "{}" "(tr, w)"] assms by (simp add: drop_from_session_def)
next
  case (Some s)
  obtain s' w' where d: "handlePeerDropped sc peer (s, w) = (s', w')" by (cases "handlePeerDropped sc peer (s, w)")
  note sp = handlePeerDropped_spec [OF d]
  have k: "keeps M W {m} {#} (tr, w) (set_sess m (s', w') tr)"
  proof (rule set_sess_keeps [OF assms Some])
    show "session_ok M (ch_id tr) m (m \<in> W) s'" using channel_okD(3) [OF assms Some] sp
      by (auto simp: session_ok_def linked_def served_def slots_ok_def map_of_delete distinct_delete split: if_splits)
  qed (use sp in auto)
  then have "channel_ok M W {m} (fst (set_sess m (s', w') tr))" by (simp add: keeps_def)
  from keeps_trans [OF k disposeIfIdle_keeps [OF this, of "snd (set_sess m (s', w') tr)" e, unfolded prod.collapse]] show ?thesis
    by (simp add: drop_from_session_def Some d)
qed

lemma channel_ok_sessions:
  assumes "channel_ok M W D tr" "sessions tr' = sessions tr" "ch_id tr' = ch_id tr" "channel_wf tr'" "parked_ok tr'"
  shows "channel_ok M W D tr'"
  using assms by (simp add: channel_ok_def)

lemma channel_ok_members:
  assumes "channel_ok M W D tr" "\<And>m s. map_of (sessions tr) m = Some s \<Longrightarrow> linked M s \<Longrightarrow> linked M' s"
  shows "channel_ok M' W D tr"
  using assms unfolding channel_ok_def session_ok_def by blast

lemma unpark_group_keeps:
  assumes "channel_ok M W D tr"
  shows "keeps M W D {#} (tr, w) (unpark_group peer m (tr, w)) \<and> sessions (fst (unpark_group peer m (tr, w))) = sessions tr"
proof (cases "map_of (parked tr) m")
  case None
  then show ?thesis using keeps_refl [of M W D "(tr, w)"] assms by (simp add: unpark_group_def)
next
  case (Some g)
  define kept where "kept = filter (\<lambda>(p, _). p \<noteq> peer) (pg_streams g)"
  let ?P = "if length kept = 0 then AList.delete m (parked tr) else AList.update m (g\<lparr>pg_streams := kept\<rparr>) (parked tr)"
  define w' where "w' = fold (\<lambda>(p, _, stream). if p = peer then CancelRead Unspecified stream else id) (pg_streams g) w"
  have "ended (fold (\<lambda>(p, _, stream). if p = peer then CancelRead Unspecified stream else id) xs v) =
      mset (map (\<lambda>(_, _, st). st) (filter (\<lambda>x. \<not> (case x of (p, _) \<Rightarrow> p \<noteq> peer)) xs)) + ended v" for xs :: "(PeerID \<times> Chunk_Header \<times> nat) list" and v
    by (induction xs arbitrary: v) auto
  note w' = this [of "pg_streams g" w, folded w'_def]
  have c: "conn_id w' = conn_id w" unfolding w'_def by (rule fold_world_conn) (simp add: split_beta)
  have r: "unpark_group peer m (tr, w) = (tr\<lparr>parked := ?P\<rparr>, w')" by (simp add: unpark_group_def Some Let_def w'_def kept_def)
  have d: "distinct (map fst (parked tr))" using channel_okD(1) [OF assms] by (simp add: channel_wf_def)
  have "alist_sum parked_streams ?P + parked_streams g = alist_sum parked_streams (parked tr) + mset (map (\<lambda>(_, _, st). st) kept)"
    using alist_sum_delete [OF d, of parked_streams m] alist_sum_update [OF d, of parked_streams m "g\<lparr>pg_streams := kept\<rparr>"] Some
    by (auto simp: parked_streams_def)
  from mset_shift [OF this, of "ended w'" "{#}" "ended w" "alist_sum session_streams (sessions tr)"]
  have t: "stream_total (tr\<lparr>parked := ?P\<rparr>, w') = stream_total (tr, w)"
    using mset_map_partition [of "\<lambda>(_, _, st). st" "\<lambda>(p, _). p \<noteq> peer" "pg_streams g"]
    by (simp add: kept_def w' stream_total_def channel_streams_def parked_streams_def ac_simps)
  have "channel_ok M W D (tr\<lparr>parked := ?P\<rparr>)"
  proof (rule channel_ok_sessions [OF assms])
    show "channel_wf (tr\<lparr>parked := ?P\<rparr>)" using channel_okD(1) [OF assms] by (simp add: channel_wf_def alist_simps)
    have "length kept \<le> length (pg_streams g)" by (simp add: kept_def)
    then show "parked_ok (tr\<lparr>parked := ?P\<rparr>)" using channel_okD(2) [OF assms] Some
      by (auto simp: parked_ok_def alist_simps split: if_splits intro: order_trans)
  qed simp_all
  then show ?thesis using t c by (simp add: r keeps_def)
qed

text \<open>After the loop over the sessions, none has the peer that left.\<close>

definition without_peer :: "PeerID \<Rightarrow> MessageID \<Rightarrow> 's Channel \<Rightarrow> bool" where
  "without_peer peer m tr \<longleftrightarrow> (\<forall>s. map_of (sessions tr) m = Some s \<longrightarrow> map_of (s_peers s) peer = None)"

lemma disposeIfIdle_sessions:
  "map_of (sessions (fst (disposeIfIdle e m (tr, w)))) j = Some s \<Longrightarrow> map_of (sessions tr) j = Some s"
  by (auto simp: disposeIfIdle_def disposeSession_def Let_def map_of_delete split_beta split: option.splits if_splits)

lemma drop_from_session_without:
  assumes "without_peer peer j tr \<or> j = m"
  shows "without_peer peer j (fst (drop_from_session sc e peer m (tr, w)))"
proof (cases "map_of (sessions tr) m")
  case None
  then show ?thesis using assms by (auto simp: drop_from_session_def without_peer_def)
next
  case (Some s)
  obtain s' w' where d: "handlePeerDropped sc peer (s, w) = (s', w')" by (cases "handlePeerDropped sc peer (s, w)")
  show ?thesis unfolding without_peer_def
  proof (intro allI impI)
    fix t assume "map_of (sessions (fst (drop_from_session sc e peer m (tr, w)))) j = Some t"
    then have "map_of (AList.update m s' (sessions tr)) j = Some t"
      using disposeIfIdle_sessions [of e m "tr\<lparr>sessions := AList.update m s' (sessions tr)\<rparr>" w' j t]
      by (simp add: drop_from_session_def Some d set_sess_def)
    then show "map_of (s_peers t) peer = None" using assms handlePeerDropped_spec(2) [OF d]
      by (auto simp: alist_simps map_of_delete without_peer_def split: if_splits)
  qed
qed

lemma fold_drop_without:
  "without_peer peer j tr \<or> j \<in> set ms \<Longrightarrow> without_peer peer j (fst (fold (drop_from_session sc e peer) ms (tr, w)))"
proof (induction ms arbitrary: tr w)
  case (Cons m ms)
  obtain tr' w' where d: "drop_from_session sc e peer m (tr, w) = (tr', w')" by (cases "drop_from_session sc e peer m (tr, w)")
  have "without_peer peer j tr' \<or> j \<in> set ms" using Cons.prems drop_from_session_without [of peer j tr m sc e w] by (auto simp: d)
  then show ?case using Cons.IH by (simp add: d)
qed simp

text \<open>The runtime ranges over each key of a map once, in some order.\<close>

definition env_ok :: "env \<Rightarrow> bool" where
  "env_ok e \<longleftrightarrow> (\<forall>ps. mset (ord_peers e ps) = mset ps) \<and> (\<forall>ms. mset (ord_msgs e ms) = mset ms)"

lemma env_ok_set: "env_ok e \<Longrightarrow> set (ord_msgs e ms) = set ms"
  by (rule mset_eq_setD) (simp add: env_ok_def)

lemma handlePeerUnbound_ok:
  assumes "channel_ok (members tr) W {} tr" "env_ok e" "handlePeerUnbound sc e peer (tr, w) = (tr', w')"
  shows "channel_ok (members tr') W {} tr' \<and> stream_total (tr', w') = stream_total (tr, w) \<and> conn_id w' = conn_id w \<and>
    members tr' = AList.delete peer (members tr)"
proof -
  let ?M = "members tr" and ?t0 = "(tr\<lparr>members := AList.delete peer (members tr)\<rparr>, w)"
  have "channel_ok ?M W {} (fst ?t0)"
    by (rule channel_ok_sessions [OF assms(1)])
      (use channel_okD(1,2) [OF assms(1)] in \<open>simp_all add: channel_wf_def alist_simps parked_ok_def\<close>)
  then have k0: "keeps ?M W {} {#} ?t0 (fold (unpark_group peer) (ord_msgs e (map fst (parked tr))) ?t0)" (is "keeps _ _ _ _ _ ?t1")
    by (rule keeps_fold [rotated]) (use unpark_group_keeps in blast)
  then have "channel_ok ?M W {} (fst ?t1)" by (simp add: keeps_def)
  then have k1: "keeps ?M W {} {#} ?t1 (fold (drop_from_session sc e peer) (ord_msgs e (map fst (sessions (fst ?t1)))) ?t1)" (is "keeps _ _ _ _ _ ?t2")
    by (rule keeps_fold [rotated]) (rule drop_from_session_keeps)
  have r: "(tr', w') = ?t2" using assms(3) by (simp add: handlePeerUnbound_def split_beta Let_def)
  have k: "keeps ?M W {} {#} ?t0 (tr', w')" unfolding r using keeps_trans [OF k0 k1] by simp
  have "without_peer peer j t \<or> j \<in> set (ord_msgs e (map fst (sessions t)))" for j and t :: "'a Channel"
  proof (cases "map_of (sessions t) j")
    case (Some s)
    then have "j \<in> fst ` set (sessions t)" by (metis domI dom_map_of_conv_image_fst)
    then show ?thesis by (simp add: env_ok_set [OF assms(2)])
  qed (simp add: without_peer_def)
  then have n: "without_peer peer j tr'" for j
    using fold_drop_without [of peer j "fst ?t1" _ sc e "snd ?t1"] r by (metis fst_conv prod.collapse)
  have m: "members tr' = AList.delete peer ?M" using k by (simp add: keeps_def)
  have "channel_ok (members tr') W {} tr'"
  proof (rule channel_ok_members)
    show "channel_ok ?M W {} tr'" using k by (simp add: keeps_def)
    show "linked (members tr') s" if "map_of (sessions tr') j = Some s" "linked ?M s" for j s
      using that n [of j] unfolding m by (auto simp: linked_def map_of_delete without_peer_def)
  qed
  then show ?thesis using k m by (simp add: keeps_def stream_total_def channel_streams_def)
qed

lemma update_member: "(k, v) \<in> set (AList.update k v xs)"
  by (induction xs) auto

lemma attached_ok:
  assumes "handlePeerAttached sc ord p (s, w) = Some (s', w')" "session_ok M c m b s" "\<not> idle s" "map_of M (conn_id w p) = Some p"
  shows "session_ok M c m b s' \<and> \<not> idle s' \<and> held (s', w') = held (s, w) \<and> conn_id w' = conn_id w \<and> stage s' = stage s \<and>
    readQueue s' = readQueue s \<and> readSem s' = readSem s"
proof -
  note sp = handlePeerAttached_spec [OF assms(1)]
  have h: "held (s', w') = held (s, w)" using sp by (simp add: held_def session_streams_def ended_def)
  show ?thesis
  proof (cases "map_of (s_peers s) (conn_id w p)")
    case (Some q)
    then show ?thesis using sp assms by simp
  next
    case None
    then obtain box where ps: "everHadPeers s'" "s_peers s' = AList.update (conn_id w p) \<lparr>sp_conn = p, sp_chunkOutbox = box, sp_completed = False\<rparr> (s_peers s)"
      using sp by auto
    have "\<not> list_all (\<lambda>(_, sp). sp_completed sp) (s_peers s')" "s_peers s' \<noteq> []"
      using update_member [of "conn_id w p" "\<lparr>sp_conn = p, sp_chunkOutbox = box, sp_completed = False\<rparr>" "s_peers s"] ps(2)
      by (force simp: list_all_iff)+
    then have "\<not> idle s'" by (simp add: idle_def)
    moreover have "linked M s'" using assms(2,4) ps(2) by (auto simp: session_ok_def linked_def alist_simps split: if_splits)
    ultimately show ?thesis using assms(2) conjunct2 [OF sp] h by (auto simp: session_ok_def served_def slots_ok_def)
  qed
qed

lemma attach_all_ok:
  assumes "attach_all sc e ps (s, w) = Some (s', w')" "session_ok M c m b s" "\<not> idle s" "\<And>p. p \<in> set ps \<Longrightarrow> map_of M (conn_id w p) = Some p"
  shows "session_ok M c m b s' \<and> \<not> idle s' \<and> held (s', w') = held (s, w) \<and> conn_id w' = conn_id w \<and> stage s' = stage s \<and>
    readQueue s' = readQueue s \<and> readSem s' = readSem s"
  using assms
proof (induction ps arbitrary: s w)
  case (Cons p ps)
  from Cons.prems(1) obtain s1 w1 where a: "handlePeerAttached sc (ord_peers e) p (s, w) = Some (s1, w1)" "attach_all sc e ps (s1, w1) = Some (s', w')"
    by (auto simp: bind_eq_Some_conv)
  note ok = attached_ok [OF a(1) Cons.prems(2,3)]
  have k: "session_ok M c m b s1 \<and> \<not> idle s1 \<and> held (s1, w1) = held (s, w) \<and> conn_id w1 = conn_id w \<and> stage s1 = stage s \<and>
      readQueue s1 = readQueue s \<and> readSem s1 = readSem s"
    using ok Cons.prems(4) [of p] by simp
  then show ?case using Cons.IH [OF a(2)] Cons.prems(4) by simp
qed simp

lemma attach_sessions_keeps:
  assumes "attach_sessions sc e p ms (tr, w) = Some trw'" "channel_ok M W {} tr" "map_of M (conn_id w p) = Some p"
  shows "keeps M W {} {#} (tr, w) trw'"
  using assms
proof (induction ms arbitrary: tr w)
  case Nil
  then show ?case by (auto simp: keeps_refl)
next
  case (Cons m ms)
  show ?case
  proof (cases "map_of (sessions tr) m")
    case None
    then show ?thesis using Cons by simp
  next
    case (Some s)
    with Cons.prems(1) obtain s1 w1 where a: "handlePeerAttached sc (ord_peers e) p (s, w) = Some (s1, w1)"
      "attach_sessions sc e p ms (set_sess m (s1, w1) tr) = Some trw'"
      by (auto simp: bind_eq_Some_conv)
    have ok: "session_ok M (ch_id tr) m (m \<in> W) s1 \<and> \<not> idle s1 \<and> held (s1, w1) = held (s, w) \<and> conn_id w1 = conn_id w \<and> stage s1 = stage s"
      using attached_ok [OF a(1) channel_okD(3) [OF Cons.prems(2) Some]] channel_okD(4) [OF Cons.prems(2) Some] Cons.prems(3) by simp
    have k: "keeps M W {} {#} (tr, w) (set_sess m (s1, w1) tr)"
      by (rule set_sess_keeps [OF Cons.prems(2) Some]) (use ok in simp_all)
    then have "channel_ok M W {} (tr\<lparr>sessions := AList.update m s1 (sessions tr)\<rparr>)" by (simp add: keeps_def set_sess_def)
    from Cons.IH [OF a(2) [unfolded set_sess_def split_conv] this] ok Cons.prems(3)
    have "keeps M W {} {#} (set_sess m (s1, w1) tr) trw'" by (simp add: set_sess_def)
    from keeps_trans [OF k this] show ?thesis by simp
  qed
qed

text \<open>The members are connections of the peers they are registered under.\<close>

definition conns_ok :: "(nat \<Rightarrow> PeerID) \<Rightarrow> (PeerID \<times> nat) list \<Rightarrow> bool" where
  "conns_ok N M \<longleftrightarrow> (\<forall>p c. map_of M p = Some c \<longrightarrow> N c = p)"

lemma handlePeerBound_ok:
  assumes "channel_ok (members tr) W {} tr" "conns_ok (conn_id w) (members tr)" "handlePeerBound sc e peer p (tr, w) = Some (tr', w')"
    "conn_id w p = peer" "map_of (members tr) peer = None \<or> map_of (members tr) peer = Some p"
  shows "channel_ok (members tr') W {} tr' \<and> stream_total (tr', w') = stream_total (tr, w) \<and> conn_id w' = conn_id w \<and>
    conns_ok (conn_id w') (members tr') \<and> members tr' = AList.update peer p (members tr)"
proof (cases "map_of (members tr) peer")
  case (Some q)
  then have "(tr', w') = (tr, w)" "AList.update peer p (members tr) = members tr"
    using assms(3,5) by (auto simp: handlePeerBound_def intro: update_triv)
  then show ?thesis using assms by simp
next
  case None
  let ?M = "AList.update peer p (members tr)" and ?t = "tr\<lparr>members := AList.update peer p (members tr)\<rparr>"
  have "channel_ok ?M W {} tr"
    by (rule channel_ok_members [OF assms(1)]) (use None in \<open>auto simp: linked_def alist_simps\<close>)
  then have "channel_ok ?M W {} ?t"
    by (rule channel_ok_sessions) (use channel_okD(1,2) [OF assms(1)] in \<open>simp_all add: channel_wf_def alist_simps parked_ok_def\<close>)
  then have "keeps ?M W {} {#} (?t, w) (tr', w')"
    using attach_sessions_keeps [of sc e p _ ?t w "(tr', w')" ?M W] assms(3,4) None by (simp add: handlePeerBound_def alist_simps)
  then show ?thesis using assms(2,4) None
    by (auto simp: keeps_def stream_total_def channel_streams_def conns_ok_def alist_simps split: if_splits)
qed

end
