(* ===== verification/ChannelSteps.thy ===== *)
theory ChannelSteps
  imports ChannelInv
begin

text \<open>
  Every event of a channel keeps its invariant (\<open>ChannelInv\<close>), and the streams the channel
  holds or has ended are those it held before and those the event brings.
\<close>

section \<open>New sessions\<close>

definition drained :: "'s session \<Rightarrow> bool" where
  "drained s \<longleftrightarrow> readQueue s = [] \<or> readSem s = maxConcurrentReads"

lemma handleChunkStream_ok:
  assumes "handleChunkStream sc pr (s, w) = (s', w')" "session_ok M c m b s" "drained s"
  shows "session_ok M c m b s' \<and> drained s' \<and> idle s' = idle s \<and> stage s' = stage s \<and> conn_id w' = conn_id w \<and>
    held (s', w') = {#pr_stream pr#} + held (s, w)"
proof -
  note f = handleChunkStream_frame [OF assms(1)]
  have sem: "readSem s \<le> maxConcurrentReads" using assms(2) by (simp add: session_ok_def slots_ok_def)
  have d: "drained s'"
  proof (cases "readSem s < maxConcurrentReads")
    case True
    then show ?thesis using f assms(3) by (auto simp: drained_def)
  next
    case False
    then show ?thesis using f sem by (simp add: drained_def)
  qed
  moreover have "session_ok M c m b s'" using f assms(2) d by (auto simp: session_ok_def linked_def served_def drained_def)
  ultimately show ?thesis using f handleChunkStream_held [of sc pr s w] assms(1) by (simp add: idle_def)
qed

lemma fold_streams_ok:
  assumes "session_ok M c m b s" "drained s" "fold (\<lambda>x. handleChunkStream sc (pending_of x)) xs (s, w) = (s', w')"
  shows "session_ok M c m b s' \<and> idle s' = idle s \<and> stage s' = stage s \<and> conn_id w' = conn_id w \<and>
    held (s', w') = mset (map (\<lambda>(_, _, st). st) xs) + held (s, w)"
  using assms
proof (induction xs arbitrary: s w)
  case (Cons x xs)
  obtain s1 w1 where h: "handleChunkStream sc (pending_of x) (s, w) = (s1, w1)" by (cases "handleChunkStream sc (pending_of x) (s, w)")
  note ok = handleChunkStream_ok [OF h Cons.prems(1,2)]
  have "pr_stream (pending_of x) = (case x of (_, _, st) \<Rightarrow> st)" by (simp add: pending_of_def split_beta)
  then show ?case using Cons.IH [of s1 w1] ok Cons.prems(3) by (simp add: h)
qed simp

lemma newSession_ok:
  assumes "newSession e m pre orig st (tr, w) = (s, tr', w')"
  shows "session_ok M (ch_id tr) m b s" "\<not> idle s" "drained s" "stage s = (if orig then stageOrigin else stageConsuming)"
    "held (s, w') = ended w" "conn_id w' = conn_id w" "tr' = scheduleExpiry (now e + activeSessionTTL) tr"
  using assms
  by (auto simp: newSession_def WithCancel_def Let_def session_ok_def slots_ok_def served_def linked_def idle_def drained_def held_def
      session_streams_def ended_def)

lemma range_members_ok:
  assumes "conns_ok N (members tr)" "p \<in> set (range_members e tr)"
  shows "map_of (members tr) (N p) = Some p"
proof -
  from assms(2) obtain x where "map_of (members tr) x = Some p" by (auto simp: range_members_def List.map_filter_def)
  then show ?thesis using assms(1) by (auto simp: conns_ok_def)
qed

text \<open>Registering a new session, with the parked group gone or the session an origin.\<close>

lemma set_sess_new_keeps:
  assumes "channel_ok M W D tr" "map_of (sessions tr) m = None" "session_ok M (ch_id tr) m (m \<in> W) s" "\<not> idle s"
    "held (s, w') = X + ended w" "conn_id w' = conn_id w" "map_of (parked tr) m = None \<or> stage s = stageOrigin"
  shows "keeps M W D X (tr, w) (set_sess m (s, w') tr)"
proof -
  have "channel_ok M W D (tr\<lparr>sessions := AList.update m s (sessions tr)\<rparr>)"
    using assms(1,3,4,7) by (auto simp: channel_ok_def channel_wf_def parked_ok_def alist_simps split: if_splits)
  then show ?thesis using set_sess_new_total [OF channel_okD(1) [OF assms(1)] assms(2), of s w'] assms(5,6)
    by (simp add: keeps_def set_sess_def stream_total_def ac_simps)
qed

lemma scheduleExpiry_simps [simp]:
  "sessions (scheduleExpiry d tr) = sessions tr" "parked (scheduleExpiry d tr) = parked tr" "members (scheduleExpiry d tr) = members tr"
  "ch_id (scheduleExpiry d tr) = ch_id tr" "channel_ok M W D (scheduleExpiry d tr) = channel_ok M W D tr"
  "channel_streams (scheduleExpiry d tr) = channel_streams tr"
  by (simp_all add: scheduleExpiry_def channel_ok_def channel_wf_def parked_ok_def channel_streams_def)

lemma handlePublish_keeps:
  assumes "channel_ok (members tr) W {} tr" "conns_ok (conn_id w) (members tr)" "handlePublish sc e m st pre (tr, w) = Some trw'"
  shows "keeps (members tr) W {} {#} (tr, w) trw'"
proof -
  obtain tr1 w1 where d: "disposeSession e m ''replaced'' (tr, w) = (tr1, w1)" by (cases "disposeSession e m ''replaced'' (tr, w)")
  have k1: "keeps (members tr) W {} {#} (tr, w) (tr1, w1)" using disposeSession_keeps [OF assms(1), of m w e "''replaced''"] by (simp add: d)
  then have ok1: "channel_ok (members tr) W {} tr1" "conn_id w1 = conn_id w" "members tr1 = members tr" by (simp_all add: keeps_def)
  have gone: "map_of (sessions tr1) m = None"
    using disposeSession_spec [OF channel_okD(1) [OF assms(1)] d] by (auto simp: map_of_delete split: if_splits)
  obtain s tr2 w2 where n: "newSession e m pre True st (tr1, w1) = (s, tr2, w2)" by (cases "newSession e m pre True st (tr1, w1)")
  note new = newSession_ok [OF n]
  obtain s3 w3 s4 w4 where a: "attach_all sc e (range_members e tr2) (s, w2) = Some (s3, w3)" "drainPolls sc (ord_peers e) (s3, w3) = Some (s4, w4)"
    "trw' = (fst (set_sess m (s4, w4) tr2), observe (OnSessionStarted (ch_id tr2) m SessionRoleOrigin) w4)"
    using assms(3) by (auto simp: handlePublish_def d n bind_eq_Some_conv set_sess_def)
  have c: "conns_ok (conn_id w2) (members tr2)" "members tr2 = members tr" using assms(2) ok1 new(6,7) by simp_all
  have s3: "session_ok (members tr) (ch_id tr1) m (m \<in> W) s3 \<and> \<not> idle s3 \<and> held (s3, w3) = ended w1 \<and> conn_id w3 = conn_id w1 \<and> stage s3 = stageOrigin"
    using attach_all_ok [OF a(1) new(1) new(2) range_members_ok [OF c(1), unfolded c(2)]] new by simp
  note p = drainPolls_sends [OF a(2)]
  have "keeps (members tr) W {} {#} (tr2, w1) (set_sess m (s4, w4) tr2)"
  proof (rule set_sess_new_keeps)
    show "session_ok (members tr) (ch_id tr2) m (m \<in> W) s4" using s3 p new(7)
      by (auto simp: session_ok_def sends_def linked_def served_def slots_ok_def)
    show "\<not> idle s4" using s3 progresses_idle [OF sends_progresses [OF p]] by simp
    show "held (s4, w4) = {#} + ended w1" using s3 sends_held [OF p] by simp
    show "conn_id w4 = conn_id w1" using s3 p by (simp add: sends_def)
    show "map_of (parked tr2) m = None \<or> stage s4 = stageOrigin" using s3 p by (simp add: sends_def)
  qed (use ok1 gone new(7) in simp_all)
  then have "keeps (members tr) W {} {#} (tr1, w1) trw'"
    unfolding a(3) by (simp add: keeps_def set_sess_def stream_total_def new(7))
  from keeps_trans [OF k1 this] show ?thesis by simp
qed

lemma parked_release:
  assumes "channel_ok M W D tr" "map_of (sessions tr) m = None"
  shows "channel_ok M W D (tr\<lparr>parked := AList.delete m (parked tr)\<rparr>)"
    "channel_streams tr = channel_streams (tr\<lparr>parked := AList.delete m (parked tr)\<rparr>) + opt_sum parked_streams (map_of (parked tr) m)"
  using alist_sum_delete [of "parked tr" parked_streams m] assms
  by (auto simp: channel_ok_def channel_wf_def parked_ok_def channel_streams_def alist_simps ac_simps)

lemma createRelaySession_keeps:
  assumes "channel_ok (members tr) W {} tr" "conns_ok (conn_id w) (members tr)" "map_of (sessions tr) m = None"
    "createRelaySession sc e m pre ip ir (tr, w) = Some (err, trw')"
  shows "keeps (members tr) W {} {#} (tr, w) trw'"
proof (cases "\<exists>p st. P_Unmarshal sc pre = Inr p \<and> NewRelay sc (rnd e) m p = Inr st")
  case False
  then have "trw' = (tr, w)" using assms(4) by (auto simp: createRelaySession_def split: sum.splits)
  then show ?thesis using assms(1) by (simp add: keeps_refl)
next
  case True
  then obtain p st where st: "P_Unmarshal sc pre = Inr p" "NewRelay sc (rnd e) m p = Inr st" by blast
  obtain s tr2 w2 where n: "newSession e m pre False st (tr, w) = (s, tr2, w2)" by (cases "newSession e m pre False st (tr, w)")
  note new = newSession_ok [OF n]
  define f where "f = (\<lambda>sw. case map_of (parked tr2) m of None \<Rightarrow> sw
    | Some g \<Rightarrow> fold (\<lambda>c. handleChunkStream sc (pending_of c)) (pg_streams g) sw)"
  obtain s3 w3 s4 w4 where a: "attach_all sc e (range_members e tr2) (s, w2) = Some (s3, w3)"
    "(if 0 < length ir then handleRoutingUpdate sc (ord_peers e) ip ir (s3, w3) else Some (s3, w3)) = Some (s4, w4)"
    "trw' = (\<lambda>(tr, w). (tr, observe (OnSessionStarted (ch_id tr) m SessionRoleRelay) w)) (set_sess m (f (s4, w4)) (tr2\<lparr>parked := AList.delete m (parked tr2)\<rparr>))"
    using assms(4) unfolding createRelaySession_def f_def
    by (auto simp: st n bind_eq_Some_conv Let_def split_beta split del: if_split)
  have c: "conns_ok (conn_id w2) (members tr2)" "members tr2 = members tr" using assms(2) new(6,7) by simp_all
  have s3: "session_ok (members tr) (ch_id tr) m (m \<in> W) s3 \<and> \<not> idle s3 \<and> held (s3, w3) = ended w \<and> conn_id w3 = conn_id w \<and> drained s3"
    using attach_all_ok [OF a(1) new(1) new(2) range_members_ok [OF c(1), unfolded c(2)]] new by (simp add: drained_def)
  have p: "sends (s3, w3) (s4, w4)" using a(2) handleRoutingUpdate_sends by (auto split: if_splits)
  have s4: "session_ok (members tr) (ch_id tr) m (m \<in> W) s4 \<and> \<not> idle s4 \<and> held (s4, w4) = ended w \<and> conn_id w4 = conn_id w \<and> drained s4"
    using s3 p sends_held [OF p] progresses_idle [OF sends_progresses [OF p]]
    by (auto simp: session_ok_def sends_def linked_def served_def slots_ok_def drained_def)
  obtain s5 w5 where f: "f (s4, w4) = (s5, w5)" by (cases "f (s4, w4)")
  then have s5: "session_ok (members tr) (ch_id tr) m (m \<in> W) s5 \<and> \<not> idle s5 \<and> conn_id w5 = conn_id w \<and>
      held (s5, w5) = opt_sum parked_streams (map_of (parked tr) m) + ended w"
    using s4 fold_streams_ok [of "members tr" "ch_id tr" m "m \<in> W" s4 sc _ w4 s5 w5]
    by (auto simp: f_def new(7) parked_streams_def split: option.splits)
  let ?t = "tr2\<lparr>parked := AList.delete m (parked tr2)\<rparr>"
  have ok: "channel_ok (members tr) W {} tr2" "map_of (sessions tr2) m = None" using assms(1,3) by (simp_all add: new(7))
  have "keeps (members tr) W {} (opt_sum parked_streams (map_of (parked tr) m)) (?t, w) (set_sess m (s5, w5) ?t)"
    by (rule set_sess_new_keeps) (use s5 parked_release(1) [OF ok] ok(2) in \<open>simp_all add: map_of_delete new(7)\<close>)
  then show ?thesis using parked_release(2) [OF ok] unfolding a(3) f
    by (simp add: keeps_def set_sess_def stream_total_def new(7) ac_simps)
qed

section \<open>Handlers\<close>

lemma handleSessionOpen_keeps:
  assumes "channel_ok (members tr) W {} tr" "conns_ok (conn_id w) (members tr)" "handleSessionOpen sc e peer msg (tr, w) = Some trw'"
  shows "keeps (members tr) W {} {#} (tr, w) trw'"
proof (cases "map_of (sessions tr) (so_ObjectId msg)")
  case None
  with assms(3) obtain err tr1 w1 where "createRelaySession sc e (so_ObjectId msg) (so_Preamble msg) peer (so_InitialUpdate msg) (tr, w) = Some (err, tr1, w1)"
    "trw' = (tr1, case err of None \<Rightarrow> w1
      | Some er \<Rightarrow> observe (OnChunkError \<lparr>err_peer = Some peer, err_channelID = ch_id tr1, err_messageID = so_ObjectId msg, err_err = er\<rparr>) w1)"
    by (auto simp: handleSessionOpen_def Let_def bind_eq_Some_conv)
  with createRelaySession_keeps [OF assms(1,2) None this(1)] show ?thesis by (auto simp: keeps_def stream_total_def split: option.split)
next
  case (Some s)
  show ?thesis
  proof (cases "0 < length (so_InitialUpdate msg)")
    case True
    then have "with_session (so_ObjectId msg) (handleRoutingUpdate sc (ord_peers e) peer (so_InitialUpdate msg)) (tr, w) = Some trw'"
      using assms(3) Some by (simp add: handleSessionOpen_def Let_def with_session_def)
    then show ?thesis by (rule with_session_keeps [OF assms(1)]) (rule sends_progresses [OF handleRoutingUpdate_sends])
  next
    case False
    then have "trw' = (tr, w)" using assms(3) Some by (simp add: handleSessionOpen_def Let_def)
    then show ?thesis using keeps_refl [of "members tr" W "{}" "(tr, w)"] assms(1) by simp
  qed
qed

lemma drainReads_ok:
  assumes "drainReads sc (s, w) = (s', w')" "session_ok M c m b s"
  shows "session_ok M c m b' s' \<and> drained s' \<and> idle s' = idle s \<and> stage s' = stage s \<and> conn_id w' = conn_id w \<and> held (s', w') = held (s, w)"
proof -
  have "slots_ok s" using assms(2) by (simp add: session_ok_def)
  from drainReads_spec [OF assms(1) this] show ?thesis using assms(2)
    by (auto simp: session_ok_def drained_def served_def linked_def idle_def)
qed

lemma handleChunk_keeps:
  assumes "channel_ok M W {} tr"
  shows "keeps M W {} {#stream#} (tr, w) (handleChunk sc e peer frame stream (tr, w))"
proof (cases "map_of (sessions tr) (ch_ObjectId frame)")
  case (Some s)
  let ?m = "ch_ObjectId frame"
  obtain s1 w1 where d: "drainReads sc (s, w) = (s1, w1)" by (cases "drainReads sc (s, w)")
  obtain s2 w2 where h: "handleChunkStream sc (pending_of (peer, frame, stream)) (s1, w1) = (s2, w2)"
    by (cases "handleChunkStream sc (pending_of (peer, frame, stream)) (s1, w1)")
  have o1: "session_ok M (ch_id tr) ?m (?m \<in> W) s1 \<and> drained s1 \<and> idle s1 = idle s \<and> stage s1 = stage s \<and> conn_id w1 = conn_id w \<and> held (s1, w1) = held (s, w)"
    using drainReads_ok [OF d channel_okD(3) [OF assms Some]] .
  then have o2: "session_ok M (ch_id tr) ?m (?m \<in> W) s2 \<and> idle s2 = idle s \<and> stage s2 = stage s \<and> conn_id w2 = conn_id w \<and> held (s2, w2) = {#stream#} + held (s, w)"
    using handleChunkStream_ok [OF h, of M "ch_id tr" ?m "?m \<in> W"] by (simp add: pending_of_def)
  have "keeps M W {} {#stream#} (tr, w) (set_sess ?m (s2, w2) tr)"
    by (rule set_sess_keeps [OF assms Some]) (use o2 channel_okD(4) [OF assms Some] in simp_all)
  then show ?thesis by (simp add: handleChunk_def Some d h)
next
  case None
  let ?m = "ch_ObjectId frame" and ?g = "\<lambda>g. g\<lparr>pg_streams := pg_streams g @ [(peer, frame, stream)]\<rparr>"
  have d: "distinct (map fst (parked tr))" using channel_okD(1) [OF assms] by (simp add: channel_wf_def)
  have park: "keeps M W {} {#stream#} (tr, w) (tr\<lparr>parked := AList.update ?m g' (parked tr)\<rparr>, w)"
    if "parked_streams g' = opt_sum parked_streams (map_of (parked tr) ?m) + {#stream#}" "pg_streams g' \<noteq> []" "length (pg_streams g') \<le> maxParkedChunks" for g'
  proof -
    have "channel_ok M W {} (tr\<lparr>parked := AList.update ?m g' (parked tr)\<rparr>)"
      by (rule channel_ok_sessions [OF assms])
        (use channel_okD(1,2) [OF assms] None that(2,3) in \<open>auto simp: channel_wf_def parked_ok_def alist_simps split: if_splits\<close>)
    moreover have "alist_sum parked_streams (AList.update ?m g' (parked tr)) = {#stream#} + alist_sum parked_streams (parked tr)"
      using alist_sum_update [OF d, of parked_streams ?m g'] that(1) by simp
    ultimately show ?thesis by (simp add: keeps_def stream_total_def channel_streams_def)
  qed
  show ?thesis
  proof (cases "map_of (parked tr) ?m")
    case None': None
    show ?thesis using park [of "\<lparr>pg_at = now e, pg_streams = [(peer, frame, stream)]\<rparr>"]
      by (simp add: handleChunk_def None None' keeps_def parked_streams_def stream_total_def maxParkedChunks_def)
  next
    case (Some g)
    show ?thesis using park [of "?g g"] keeps_refl [of M W "{}" "(tr, w)"] assms
      by (auto simp: handleChunk_def None Some parked_streams_def keeps_def stream_total_def)
  qed
qed

lemma handlePeerCompleted_spec:
  assumes "handlePeerCompleted sc peer (s, w) = (s', w')" "session_ok M c m b s"
  shows "session_ok M c m b s' \<and> held (s', w') = held (s, w) \<and> conn_id w' = conn_id w \<and> stage s' = stage s"
proof (cases "\<exists>sp. map_of (s_peers s) peer = Some sp \<and> \<not> sp_completed sp")
  case False
  then have "s' = s \<and> w' = w" using assms(1) by (auto simp: handlePeerCompleted_def split: option.splits)
  then show ?thesis using assms(2) by simp
next
  case True
  then obtain sp where sp: "map_of (s_peers s) peer = Some sp" "\<not> sp_completed sp" by blast
  define t where "t = s\<lparr>s_peers := AList.update peer (sp\<lparr>sp_completed := True\<rparr>) (s_peers s)\<rparr>"
  obtain s1 w1 where c: "cancelOutbound peer (t, w) = (s1, w1)" by (cases "cancelOutbound peer (t, w)")
  have r: "s' = s1\<lparr>s_strategy := Strategy_DetachPeer sc (s_strategy s1) peer True\<rparr>" "w' = w1"
    using assms(1) sp c by (simp_all add: handlePeerCompleted_def t_def)
  have "session_streams s' = session_streams s" using cancelOutbound_spec(1) [OF c] by (simp add: r t_def)
  moreover have "session_ok M c m b s'" using assms(2) sp cancelOutbound_spec(1) [OF c]
    by (auto simp: r t_def session_ok_def slots_ok_def served_def linked_def alist_simps split: if_splits)
  ultimately show ?thesis using cancelOutbound_spec [OF c] by (simp add: r t_def held_def)
qed

lemma disposeIfIdle_after:
  assumes "keeps M W {m} X trw trw'"
  shows "keeps M W {} X trw (disposeIfIdle e m trw')"
proof -
  have "channel_ok M W {m} (fst trw')" using assms by (simp add: keeps_def)
  from keeps_trans [OF assms disposeIfIdle_keeps [OF this, of "snd trw'" e, unfolded prod.collapse]] show ?thesis by simp
qed

lemma reconstructed_keeps:
  assumes "channel_ok M W {} tr" "with_session m (\<lambda>sw. Some (handlePeerCompleted sc peer sw)) (tr, w) = Some trw'"
  shows "keeps M W {} {#} (tr, w) (disposeIfIdle e m trw')"
proof (rule disposeIfIdle_after, cases "map_of (sessions tr) m")
  case None
  have "channel_ok M W {m} tr" using channel_ok_mono [OF assms(1)] by simp
  then show "keeps M W {m} {#} (tr, w) trw'" using keeps_refl [of M W "{m}" "(tr, w)"] assms(2) None by (simp add: with_session_def)
next
  case (Some s)
  obtain s' w' where c: "handlePeerCompleted sc peer (s, w) = (s', w')" by (cases "handlePeerCompleted sc peer (s, w)")
  note sp = handlePeerCompleted_spec [OF c channel_okD(3) [OF assms(1) Some]]
  have "trw' = set_sess m (s', w') tr" using assms(2) Some c by (simp add: with_session_def)
  then show "keeps M W {m} {#} (tr, w) trw'" using set_sess_keeps [OF assms(1) Some, of W s' "{m}" w' "{#}" w] sp by simp
qed

lemma handleDecoded_keeps:
  assumes "channel_ok M W {} tr"
  shows "keeps M W {} {#} (tr, w) (handleDecoded e m r (tr, w))"
proof (cases "\<exists>s payload. map_of (sessions tr) m = Some s \<and> stage s < stageReconstructed \<and> r = Inr payload")
  case False
  then have "handleDecoded e m r (tr, w) = (tr, w) \<or> (\<exists>ev. handleDecoded e m r (tr, w) = (tr, observe ev w))"
    by (auto simp: handleDecoded_def split: option.split sum.split)
  then show ?thesis using assms keeps_observe [of M W "{}" "{#}" "(tr, w)" tr w] keeps_refl [of M W "{}" "(tr, w)"] by auto
next
  case True
  then obtain s payload where s: "map_of (sessions tr) m = Some s" "stage s < stageReconstructed" "r = Inr payload" by blast
  obtain tr1 w1 where d: "deliverMessage (s_messageID s) payload (tr, w) = (tr1, w1)" by (cases "deliverMessage (s_messageID s) payload (tr, w)")
  then have t: "sessions tr1 = sessions tr" "parked tr1 = parked tr" "members tr1 = members tr" "ch_id tr1 = ch_id tr" "ended w1 = ended w" "conn_id w1 = conn_id w"
    by (auto simp: deliverMessage_def Let_def split: option.splits if_splits)
  then have ok: "channel_ok M W {} tr1" using assms by (simp add: channel_ok_def channel_wf_def parked_ok_def)
  have "keeps M W {m} {#} (tr1, w1) (set_sess m (s\<lparr>stage := stageReconstructed\<rparr>, w1) tr1)"
    by (rule set_sess_keeps [OF ok, of m s])
      (use s t channel_okD(3) [OF assms s(1)] in \<open>auto simp: session_ok_def slots_ok_def served_def linked_def held_def less_sessionStage_def\<close>)
  then have "keeps M W {m} {#} (tr, w) (set_sess m (s\<lparr>stage := stageReconstructed\<rparr>, w1) tr1)"
    using t by (simp add: keeps_def stream_total_def channel_streams_def)
  from disposeIfIdle_after [OF this, of e] show ?thesis using s by (simp add: handleDecoded_def d)
qed

lemma readDone_keeps:
  assumes "channel_ok M W {} tr" "with_session m (\<lambda>sw. Some (drainReads sc sw)) (tr, w) = Some trw'"
  shows "keeps M (W - {m}) {} {#} (tr, w) trw'"
proof (cases "map_of (sessions tr) m")
  case None
  have "session_ok M (ch_id tr) j (j \<in> W - {m}) t" if "map_of (sessions tr) j = Some t" for j t
    using that None channel_okD(3) [OF assms(1) that] by (cases "j = m") simp_all
  then have "channel_ok M (W - {m}) {} tr" using assms(1) by (simp add: channel_ok_def)
  then show ?thesis using keeps_refl [of M "W - {m}" "{}" "(tr, w)"] assms(2) None by (simp add: with_session_def)
next
  case (Some s)
  obtain s' w' where d: "drainReads sc (s, w) = (s', w')" by (cases "drainReads sc (s, w)")
  have o: "session_ok M (ch_id tr) m False s' \<and> drained s' \<and> idle s' = idle s \<and> stage s' = stage s \<and> conn_id w' = conn_id w \<and> held (s', w') = held (s, w)"
    using drainReads_ok [OF d channel_okD(3) [OF assms(1) Some]] .
  have "trw' = set_sess m (s', w') tr" using assms(2) Some d by (simp add: with_session_def)
  then show ?thesis using set_sess_keeps [OF assms(1) Some, of "W - {m}" s' "{}" w' "{#}" w] o channel_okD(4) [OF assms(1) Some] by simp
qed

section \<open>Every event\<close>

text \<open>
  A peer is bound under its own identity, and only once its previous connection was unbound:
  that is how the engine posts these events (\<open>removePeer\<close>, \<open>unbindPeer\<close>).
\<close>

fun event_ok :: "'s Channel \<times> world \<Rightarrow> 's channelEvent \<Rightarrow> bool" where
  "event_ok (tr, w) (channelPeerChange peer (Some p)) \<longleftrightarrow>
     conn_id w p = peer \<and> (map_of (members tr) peer = None \<or> map_of (members tr) peer = Some p)"
| "event_ok _ _ \<longleftrightarrow> True"

fun event_streams :: "'s channelEvent \<Rightarrow> nat multiset" where
  "event_streams (channelChunkStream _ _ stream) = {#stream#}"
| "event_streams _ = {#}"

fun event_wakes :: "'s channelEvent \<Rightarrow> MessageID set" where
  "event_wakes (channelReadDone m) = {m}"
| "event_wakes _ = {}"

fun event_members :: "'s channelEvent \<Rightarrow> (PeerID \<rightharpoonup> nat) \<Rightarrow> (PeerID \<rightharpoonup> nat)" where
  "event_members (channelPeerChange peer r) M = M(peer := r)"
| "event_members _ M = M"

definition channel_inv :: "MessageID set \<Rightarrow> 's Channel \<times> world \<Rightarrow> bool" where
  "channel_inv W trw \<longleftrightarrow> channel_ok (members (fst trw)) W {} (fst trw) \<and> conns_ok (conn_id (snd trw)) (members (fst trw))"

lemma keeps_inv:
  "keeps (members tr) W {} X (tr, w) trw' \<Longrightarrow> conns_ok (conn_id w) (members tr) \<Longrightarrow>
    channel_inv W trw' \<and> stream_total trw' = X + stream_total (tr, w) \<and> conn_id (snd trw') = conn_id w \<and> map_of (members (fst trw')) = map_of (members tr)"
  by (simp add: keeps_def channel_inv_def)

lemma conns_ok_delete: "conns_ok N M \<Longrightarrow> conns_ok N (AList.delete peer M)"
  by (simp add: conns_ok_def map_of_delete)

lemma handle_inv:
  assumes "channel_inv W (tr, w)" "env_ok e" "event_ok (tr, w) ev" "handle sc e ev (tr, w) = Some trw'"
  shows "channel_inv (W - event_wakes ev) trw' \<and> stream_total trw' = event_streams ev + stream_total (tr, w) \<and> conn_id (snd trw') = conn_id w \<and>
    map_of (members (fst trw')) = event_members ev (map_of (members tr))"
proof -
  have ok: "channel_ok (members tr) W {} tr" and c: "conns_ok (conn_id w) (members tr)" using assms(1) by (simp_all add: channel_inv_def)
  note k = keeps_inv [OF _ c]
  show ?thesis
  proof (cases ev)
    case (channelChunkStream peer h st)
    then show ?thesis using k [OF handleChunk_keeps [OF ok, of st w sc e peer h]] assms(4) by simp
  next
    case (channelChunkData m peer ci data)
    then show ?thesis using k [OF with_session_keeps [OF ok _ handleChunkData_progresses]] assms(4) by simp
  next
    case (channelReadDone m)
    then show ?thesis using k [OF readDone_keeps [OF ok]] assms(4) by simp
  next
    case channelExpiry
    then show ?thesis using k [OF expireDue_keeps [of "members tr" W "(tr, w)" e]] ok assms(4) by simp
  next
    case (channelSessionOpen peer msg)
    then show ?thesis using k [OF handleSessionOpen_keeps [OF ok c]] assms(4) by simp
  next
    case (channelPeerChange peer r)
    obtain tr' w' where t: "trw' = (tr', w')" by (cases trw')
    show ?thesis
    proof (cases r)
      case None
      then have "handlePeerUnbound sc e peer (tr, w) = (tr', w')" using assms(4) channelPeerChange by (simp add: t)
      from handlePeerUnbound_ok [OF ok assms(2) this] conns_ok_delete [OF c, of peer] show ?thesis
        by (auto simp: t channel_inv_def channelPeerChange None delete_conv')
    next
      case (Some p)
      then have "handlePeerBound sc e peer p (tr, w) = Some (tr', w')" using assms(4) channelPeerChange by (simp add: t)
      from handlePeerBound_ok [OF ok c this] assms(3) show ?thesis by (auto simp: t channel_inv_def channelPeerChange Some update_conv')
    qed
  next
    case (channelPeerReconstructed m peer)
    then obtain t where "with_session m (\<lambda>sw. Some (handlePeerCompleted sc peer sw)) (tr, w) = Some t" "trw' = disposeIfIdle e m t"
      using assms(4) by auto
    then show ?thesis using k [OF reconstructed_keeps [OF ok, of m sc peer w t e]] channelPeerReconstructed by simp
  next
    case (channelPeerSessionEnded m peer p)
    then show ?thesis using k [OF drop_from_session_keeps [OF ok, of w sc e peer m]] k [OF keeps_refl] ok assms(4) by (auto split: if_splits)
  next
    case (channelPublish m st pre)
    then show ?thesis using k [OF handlePublish_keeps [OF ok c]] assms(4) by simp
  next
    case (channelChunkSent m peer h err sz)
    then show ?thesis using k [OF with_session_keeps [OF ok _ sends_progresses [OF handleSendComplete_sends]]] assms(4) by simp
  next
    case (channelRoutingUpdate peer m data)
    then show ?thesis using k [OF with_session_keeps [OF ok _ sends_progresses [OF handleRoutingUpdate_sends]]] assms(4) by simp
  next
    case (channelVerifyResult m peer ci data v)
    then show ?thesis using k [OF with_session_keeps [OF ok _ handleVerifyResult_progresses]] assms(4) by simp
  next
    case (channelDecoded m r)
    then show ?thesis using k [OF handleDecoded_keeps [OF ok, of w e m r]] assms(4) by simp
  qed
qed

end
