(* ===== verification/ChannelRun.thy ===== *)
theory ChannelRun
  imports ChannelSteps
begin

text \<open>
  A running channel: its actor, its inbox, and the goroutines its sessions start (the readers
  of chunk streams and the decoders), as steps that interleave in any order. The steps are
  those of a channel whose context has not ended; what happens after that is \<open>shutdown\<close>. The
  lemmas show the invariant of every reachable state.
\<close>

section \<open>Goroutines\<close>

text \<open>
  The goroutine that \<open>handleChunkStream\<close> starts moves from one \<open>readState\<close> to the next; when it is
  done with its stream it leaves the readers, and then frees its slot.
\<close>

definition set_reader :: "nat \<Rightarrow> readState \<Rightarrow> 's session \<Rightarrow> 's session" where
  "set_reader i state s = s\<lparr>readers := (readers s)[i := (fst (readers s ! i), fst (snd (readers s ! i)), state)]\<rparr>"

definition reader_ends :: "nat \<Rightarrow> 's session \<Rightarrow> 's session" where
  "reader_ends i s = s\<lparr>readers := take i (readers s) @ drop (Suc i) (readers s), readersRead := readersRead s + 1\<rparr>"

definition release_slot :: "'s session \<Rightarrow> 's session" where
  "release_slot s = s\<lparr>readSem := readSem s - 1, readersRead := readersRead s - 1, readersDone := readersDone s + 1\<rparr>"

section \<open>Steps\<close>

text \<open>\<open>a_received\<close> are the streams of the events posted so far.\<close>

record 's actor =
  a_tr :: "'s Channel"
  a_world :: world
  a_inbox :: "'s channelEvent list"
  a_received :: "nat multiset"

text \<open>Every bind in the inbox is one that \<open>event_ok\<close> allows by the time it is handled.\<close>

fun binds_ok :: "(nat \<Rightarrow> PeerID) \<Rightarrow> (PeerID \<rightharpoonup> nat) \<Rightarrow> 's channelEvent list \<Rightarrow> bool" where
  "binds_ok N M [] \<longleftrightarrow> True"
| "binds_ok N M (ev # es) \<longleftrightarrow>
     (case ev of channelPeerChange peer (Some p) \<Rightarrow> N p = peer \<and> (M peer = None \<or> M peer = Some p) | _ \<Rightarrow> True) \<and>
     binds_ok N (event_members ev M) es"

text \<open>Publications come from \<open>Publish\<close>.\<close>

fun posted :: "('s, 'ci, 'r, 'p) Scheme \<Rightarrow> 's channelEvent \<Rightarrow> bool" where
  "posted sc (channelPublish m st pre) \<longleftrightarrow> (\<exists>payload. Publish sc m payload = Some (Inr (channelPublish m st pre)))"
| "posted sc _ \<longleftrightarrow> True"

inductive actor_step :: "('s, 'ci, 'r, 'p) Scheme \<Rightarrow> 's actor \<Rightarrow> 's actor \<Rightarrow> bool" for sc where
  post: "length (a_inbox a) < channelInboxCap \<Longrightarrow> posted sc ev \<Longrightarrow> binds_ok (conn_id (a_world a)) (map_of (members (a_tr a))) (a_inbox a @ [ev]) \<Longrightarrow>
    actor_step sc a (a\<lparr>a_inbox := a_inbox a @ [ev], a_received := event_streams ev + a_received a\<rparr>)"
| handle: "a_inbox a = ev # rest \<Longrightarrow> env_ok e \<Longrightarrow> handle sc e ev (a_tr a, a_world a) = Some (tr, w) \<Longrightarrow>
    actor_step sc a (a\<lparr>a_tr := tr, a_world := w, a_inbox := rest\<rparr>)"
| read: "map_of (sessions (a_tr a)) m = Some s \<Longrightarrow> i < length (readers s) \<Longrightarrow> readers s ! i = (pr, ctx, Reading) \<Longrightarrow>
    fst (readChunkData (pr_dataLen pr) r) = Inr buf \<Longrightarrow>
    actor_step sc a (a\<lparr>a_tr := fst (set_sess m (set_reader i (Posting buf) s, a_world a) (a_tr a))\<rparr>)"
| read_fails: "map_of (sessions (a_tr a)) m = Some s \<Longrightarrow> i < length (readers s) \<Longrightarrow> readers s ! i = (pr, ctx, Reading) \<Longrightarrow>
    fst (readChunkData (pr_dataLen pr) r) = Inl err \<Longrightarrow>
    actor_step sc a (a\<lparr>a_tr := fst (set_sess m (set_reader i (Failing err (callback_code (ctxs (a_world a)) ctx)) s, a_world a) (a_tr a))\<rparr>)"
| deliver: "map_of (sessions (a_tr a)) m = Some s \<Longrightarrow> i < length (readers s) \<Longrightarrow> readers s ! i = (pr, ctx, Posting buf) \<Longrightarrow>
    length (a_inbox a) < channelInboxCap \<Longrightarrow>
    actor_step sc a (a\<lparr>a_tr := fst (set_sess m (set_reader i Stopping s, a_world a) (a_tr a)),
      a_inbox := a_inbox a @ [channelChunkData m (pr_peer pr) (pr_chunkID pr) buf]\<rparr>)"
| unwanted: "map_of (sessions (a_tr a)) m = Some s \<Longrightarrow> i < length (readers s) \<Longrightarrow> readers s ! i = (pr, ctx, Posting buf) \<Longrightarrow>
    Cause (ctxs (a_world a)) ctx \<noteq> None \<Longrightarrow>
    actor_step sc a (a\<lparr>a_tr := fst (set_sess m (set_reader i Stopping s, a_world a) (a_tr a))\<rparr>)"
| stopped: "map_of (sessions (a_tr a)) m = Some s \<Longrightarrow> i < length (readers s) \<Longrightarrow> readers s ! i = (pr, ctx, Stopping) \<Longrightarrow>
    actor_step sc a (a\<lparr>a_tr := fst (set_sess m (reader_ends i s, a_world a) (a_tr a)), a_world := leave_read pr ctx (a_world a)\<rparr>)"
| failed: "map_of (sessions (a_tr a)) m = Some s \<Longrightarrow> i < length (readers s) \<Longrightarrow> readers s ! i = (pr, ctx, Failing err cb) \<Longrightarrow>
    actor_step sc a (a\<lparr>a_tr := fst (set_sess m (reader_ends i s, a_world a) (a_tr a)), a_world := give_up pr ctx err cb (a_world a)\<rparr>)"
| release: "map_of (sessions (a_tr a)) m = Some s \<Longrightarrow> 0 < readersRead s \<Longrightarrow>
    actor_step sc a (a\<lparr>a_tr := fst (set_sess m (release_slot s, a_world a) (a_tr a))\<rparr>)"
| read_done: "map_of (sessions (a_tr a)) m = Some s \<Longrightarrow> 0 < readersDone s \<Longrightarrow> length (a_inbox a) < channelInboxCap \<Longrightarrow>
    actor_step sc a (a\<lparr>a_tr := fst (set_sess m (s\<lparr>readersDone := readersDone s - 1\<rparr>, a_world a) (a_tr a)), a_inbox := a_inbox a @ [channelReadDone m]\<rparr>)"
| decoded: "map_of (sessions (a_tr a)) m = Some s \<Longrightarrow> decoderRuns s \<Longrightarrow> Strategy_Decode sc (s_strategy s) = Some res \<Longrightarrow>
    length (a_inbox a) < channelInboxCap \<Longrightarrow>
    actor_step sc a (a\<lparr>a_tr := fst (set_sess m (s\<lparr>decoderRuns := False\<rparr>, a_world a) (a_tr a)), a_inbox := a_inbox a @ [channelDecoded m res]\<rparr>)"
| others: "actor_step sc a (a\<lparr>a_world := (a_world a)\<lparr>ctrlState := cs, wakeCh := wk, outboxes := ob\<rparr>\<rparr>)"

inductive_cases actor_stepE: "actor_step sc a a'"

inductive actor_runs :: "('s, 'ci, 'r, 'p) Scheme \<Rightarrow> 's actor \<Rightarrow> bool" for sc where
  start: "AttachChannel c engineCtx w = (tr, w') \<Longrightarrow> cancelled w = [] \<Longrightarrow> finished w = [] \<Longrightarrow>
    actor_runs sc \<lparr>a_tr = tr, a_world = w', a_inbox = [], a_received = {#}\<rparr>"
| step: "actor_runs sc a \<Longrightarrow> actor_step sc a a' \<Longrightarrow> actor_runs sc a'"

section \<open>The invariant of a running channel\<close>

definition inbox_streams :: "'s channelEvent list \<Rightarrow> nat multiset" where
  "inbox_streams es = sum_list (map event_streams es)"

definition inbox_wakes :: "'s channelEvent list \<Rightarrow> MessageID set" where
  "inbox_wakes es = (\<Union>ev \<in> set es. event_wakes ev)"

lemma inbox_simps [simp]:
  "inbox_streams [] = {#}" "inbox_streams (es @ [ev]) = inbox_streams es + event_streams ev" "inbox_streams (ev # es) = event_streams ev + inbox_streams es"
  "inbox_wakes [] = {}" "inbox_wakes (es @ [ev]) = event_wakes ev \<union> inbox_wakes es" "inbox_wakes (ev # es) = event_wakes ev \<union> inbox_wakes es"
  by (simp_all add: inbox_streams_def inbox_wakes_def)

definition actor_inv :: "'s actor \<Rightarrow> bool" where
  "actor_inv a \<longleftrightarrow> channel_inv (inbox_wakes (a_inbox a)) (a_tr a, a_world a) \<and>
     binds_ok (conn_id (a_world a)) (map_of (members (a_tr a))) (a_inbox a) \<and> length (a_inbox a) \<le> channelInboxCap \<and>
     a_received a = inbox_streams (a_inbox a) + stream_total (a_tr a, a_world a)"

lemma binds_ok_other: "event_members ev = (\<lambda>M. M) \<Longrightarrow> (\<And>peer p. ev \<noteq> channelPeerChange peer (Some p)) \<Longrightarrow>
    binds_ok N M (es @ [ev]) = binds_ok N M es"
  by (induction es arbitrary: M) (auto split: channelEvent.splits option.splits)

lemma binds_ok_read [simp]:
  "binds_ok N M (es @ [channelChunkData m peer ci buf]) = binds_ok N M es" "binds_ok N M (es @ [channelReadDone m]) = binds_ok N M es"
  "binds_ok N M (es @ [channelDecoded m r]) = binds_ok N M es"
  by (rule binds_ok_other; simp add: fun_eq_iff)+

lemma channel_inv_mono: "channel_inv W trw \<Longrightarrow> W \<subseteq> W' \<Longrightarrow> channel_inv W' trw"
  unfolding channel_inv_def channel_ok_def session_ok_def served_def by blast

lemma take_drop_mset: "i < length xs \<Longrightarrow> add_mset (f (xs ! i)) (mset (map f (take i xs @ drop (Suc i) xs))) = mset (map f xs)"
proof (induction xs arbitrary: i)
  case (Cons x xs)
  then show ?case by (cases i) auto
qed simp

lemma reader_ends_inv:
  assumes "channel_inv W (tr, w)" "map_of (sessions tr) m = Some s" "i < length (readers s)" "readers s ! i = (pr, ctx, state)"
    and w': "ended w' = add_mset (pr_stream pr) (ended w)" "conn_id w' = conn_id w"
  defines "tr' \<equiv> fst (set_sess m (reader_ends i s, w) tr)"
  shows "channel_inv W (tr', w') \<and> stream_total (tr', w') = stream_total (tr, w) \<and> members tr' = members tr"
proof -
  have ok: "channel_ok (members tr) W {} tr" using assms(1) by (simp add: channel_inv_def)
  have "keeps (members tr) W {} {#} (tr, w) (set_sess m (reader_ends i s, w') tr)"
  proof (rule set_sess_keeps [OF ok assms(2)])
    show "session_ok (members tr) (ch_id tr) m (m \<in> W) (reader_ends i s)" using channel_okD(3) [OF ok assms(2)] assms(3)
      by (auto simp: reader_ends_def session_ok_def slots_ok_def served_def linked_def)
    show "m \<in> {} \<or> \<not> idle (reader_ends i s)" using channel_okD(4) [OF ok assms(2)] by (auto simp: reader_ends_def idle_def)
    show "held (reader_ends i s, w') = {#} + held (s, w)"
      using take_drop_mset [OF assms(3), of "pr_stream \<circ> fst"] assms(4) w' by (simp add: held_def session_streams_def reader_ends_def)
  qed (simp_all add: reader_ends_def w')
  then have "keeps (members tr) W {} {#} (tr, w) (tr', w')" by (simp add: set_sess_def tr'_def)
  then show ?thesis using assms(1) by (simp add: keeps_def channel_inv_def)
qed

lemma set_sess_inv:
  assumes "channel_inv W (tr, w)" "map_of (sessions tr) m = Some s"
    "session_ok (members tr) (ch_id tr) m (m \<in> W') s'" "idle s' = idle s" "session_streams s' = session_streams s" "stage s' = stage s" "W - {m} \<subseteq> W'"
  defines "tr' \<equiv> fst (set_sess m (s', w) tr)"
  shows "channel_inv W' (tr', w) \<and> stream_total (tr', w) = stream_total (tr, w) \<and> members tr' = members tr"
proof -
  have ok: "channel_ok (members tr) W {} tr" using assms(1) by (simp add: channel_inv_def)
  have "keeps (members tr) W' {} {#} (tr, w) (set_sess m (s', w) tr)"
    by (rule set_sess_keeps [OF ok assms(2)]) (use assms channel_okD(4) [OF ok assms(2)] in \<open>simp_all add: held_def\<close>)
  then have "keeps (members tr) W' {} {#} (tr, w) (tr', w)" by (simp add: set_sess_def tr'_def)
  then show ?thesis using assms(1) by (simp add: keeps_def channel_inv_def)
qed

lemma channel_inv_session:
  assumes "channel_inv W (tr, w)" "map_of (sessions tr) m = Some s"
  shows "session_ok (members tr) (ch_id tr) m (m \<in> W) s" "\<not> idle s"
  using assms channel_okD(3,4) [of "members tr" W "{}" tr m s] by (simp_all add: channel_inv_def)

lemma set_reader_inv:
  assumes "channel_inv W (tr, w)" "map_of (sessions tr) m = Some s" "i < length (readers s)"
    and "tr' = fst (set_sess m (set_reader i state s, w) tr)"
  shows "channel_inv W (tr', w) \<and> stream_total (tr', w) = stream_total (tr, w) \<and> members tr' = members tr"
  unfolding assms(4)
proof (rule set_sess_inv [OF assms(1,2)])
  show "session_ok (members tr) (ch_id tr) m (m \<in> W) (set_reader i state s)"
    using channel_inv_session [OF assms(1,2)] by (auto simp: set_reader_def session_ok_def slots_ok_def served_def linked_def)
  have "map (pr_stream \<circ> fst) ((readers s)[i := (fst (readers s ! i), x)]) = map (pr_stream \<circ> fst) (readers s)" for x
    using assms(3) by (simp add: map_update list_update_same_conv)
  then show "session_streams (set_reader i state s) = session_streams s" by (simp add: set_reader_def session_streams_def)
qed (simp_all add: set_reader_def idle_def)

lemma goroutine_simps:
  "idle (release_slot s) = idle s" "idle (s\<lparr>readersDone := n\<rparr>) = idle s" "idle (s\<lparr>decoderRuns := b\<rparr>) = idle s"
  "session_streams (release_slot s) = session_streams s" "session_streams (s\<lparr>readersDone := n\<rparr>) = session_streams s" "stage (release_slot s) = stage s"
  by (simp_all add: idle_def release_slot_def session_streams_def)

lemma actor_step_inv:
  assumes "actor_step sc a a'" "actor_inv a"
  shows "actor_inv a'"
  using assms(1)
proof cases
  case (post ev)
  have "channel_inv (event_wakes ev \<union> inbox_wakes (a_inbox a)) (a_tr a, a_world a)"
    by (rule channel_inv_mono) (use assms(2) in \<open>auto simp: actor_inv_def\<close>)
  then show ?thesis using assms(2) post by (simp add: actor_inv_def)
next
  case (handle ev rest e tr w)
  have b: "event_ok (a_tr a, a_world a) ev" "binds_ok (conn_id (a_world a)) (event_members ev (map_of (members (a_tr a)))) rest"
    using assms(2) handle(2) by (auto simp: actor_inv_def split: channelEvent.splits option.splits elim!: event_ok.elims)
  have "channel_inv (event_wakes ev \<union> inbox_wakes rest) (a_tr a, a_world a)" using assms(2) handle(2) by (simp add: actor_inv_def)
  from handle_inv [OF this handle(3) b(1) handle(4)] b(2) assms(2) show ?thesis
    using channel_inv_mono [of "event_wakes ev \<union> inbox_wakes rest - event_wakes ev" "(tr, w)" "inbox_wakes rest"]
    by (auto simp: actor_inv_def handle ac_simps)
next
  case (read m s i pr ctx r buf)
  with assms(2) set_reader_inv [of "inbox_wakes (a_inbox a)" "a_tr a" "a_world a" m s i _ "Posting buf", OF _ _ _ refl] show ?thesis by (simp add: actor_inv_def)
next
  case (read_fails m s i pr ctx r err)
  with assms(2) set_reader_inv [of "inbox_wakes (a_inbox a)" "a_tr a" "a_world a" m s i _ "Failing err (callback_code (ctxs (a_world a)) ctx)", OF _ _ _ refl] show ?thesis by (simp add: actor_inv_def)
next
  case (deliver m s i pr ctx buf)
  with assms(2) set_reader_inv [of "inbox_wakes (a_inbox a)" "a_tr a" "a_world a" m s i _ Stopping, OF _ _ _ refl] show ?thesis by (simp add: actor_inv_def)
next
  case (unwanted m s i pr ctx buf)
  with assms(2) set_reader_inv [of "inbox_wakes (a_inbox a)" "a_tr a" "a_world a" m s i _ Stopping, OF _ _ _ refl] show ?thesis by (simp add: actor_inv_def)
next
  case (stopped m s i pr ctx)
  with assms(2) reader_ends_inv [of "inbox_wakes (a_inbox a)" "a_tr a" "a_world a" m s i pr ctx Stopping "leave_read pr ctx (a_world a)"] show ?thesis by (simp add: actor_inv_def)
next
  case (failed m s i pr ctx err cb)
  with assms(2) reader_ends_inv [of "inbox_wakes (a_inbox a)" "a_tr a" "a_world a" m s i pr ctx "Failing err cb" "give_up pr ctx err cb (a_world a)"] show ?thesis by (simp add: actor_inv_def)
next
  case (release m s)
  have i: "channel_inv (inbox_wakes (a_inbox a)) (a_tr a, a_world a)" using assms(2) by (simp add: actor_inv_def)
  have "session_ok (members (a_tr a)) (ch_id (a_tr a)) m b (release_slot s)" for b
    using channel_inv_session [OF i release(2)] release(3) by (auto simp: release_slot_def session_ok_def slots_ok_def served_def linked_def)
  from set_sess_inv [OF i release(2) this, of "inbox_wakes (a_inbox a)"] assms(2) show ?thesis
    by (auto simp: actor_inv_def release(1) goroutine_simps)
next
  case (read_done m s)
  have i: "channel_inv (inbox_wakes (a_inbox a)) (a_tr a, a_world a)" using assms(2) by (simp add: actor_inv_def)
  have "session_ok (members (a_tr a)) (ch_id (a_tr a)) m (m \<in> insert m W) (s\<lparr>readersDone := readersDone s - 1\<rparr>)" for W
    using channel_inv_session [OF i read_done(2)] by (auto simp: session_ok_def slots_ok_def served_def linked_def)
  moreover have "inbox_wakes (a_inbox a) - {m} \<subseteq> insert m (inbox_wakes (a_inbox a))" by blast
  ultimately show ?thesis using set_sess_inv [OF i read_done(2), of "insert m (inbox_wakes (a_inbox a))" "s\<lparr>readersDone := readersDone s - 1\<rparr>"] assms(2)
    by (auto simp: actor_inv_def read_done goroutine_simps Suc_le_eq)
next
  case (decoded m s res)
  have i: "channel_inv (inbox_wakes (a_inbox a)) (a_tr a, a_world a)" using assms(2) by (simp add: actor_inv_def)
  have "session_ok (members (a_tr a)) (ch_id (a_tr a)) m (m \<in> inbox_wakes (a_inbox a)) (s\<lparr>decoderRuns := False\<rparr>)"
    using channel_inv_session [OF i decoded(2)] by (auto simp: session_ok_def slots_ok_def served_def linked_def)
  from set_sess_inv [OF i decoded(2) this] assms(2) show ?thesis
    by (auto simp: actor_inv_def decoded goroutine_simps Suc_le_eq)
next
  case (others cs wk ob)
  then show ?thesis using assms(2) by (simp add: actor_inv_def channel_inv_def stream_total_def ended_def)
qed

lemma actor_runs_inv: "actor_runs sc a \<Longrightarrow> actor_inv a"
proof (induction rule: actor_runs.induct)
  case (start c ec w tr w')
  then show ?case
    by (auto simp: AttachChannel_def WithCancel_def actor_inv_def channel_inv_def channel_ok_def channel_wf_def parked_ok_def conns_ok_def
        stream_total_def channel_streams_def alist_sum_def ended_def)
qed (rule actor_step_inv)

end
