(* ===== verification/Contract.thy ===== *)
theory Contract
  imports ChannelRun
begin

text \<open>
  The contract between sessions and strategies: a strategy keeps an invariant through every
  call the session makes, and under it no call panics. Sessions, channels and running channels
  are proved once against this contract: none of their events panics.
\<close>

definition order_ok :: "('a list \<Rightarrow> 'a list) \<Rightarrow> bool" where
  "order_ok ord \<longleftrightarrow> (\<forall>xs. distinct xs \<longrightarrow> distinct (ord xs))"

lemma env_ok_order: "env_ok e \<Longrightarrow> order_ok (ord_peers e)"
  unfolding env_ok_def order_ok_def by (metis mset_eq_imp_distinct_iff)

text \<open>A session whose strategy is in order.\<close>

definition strategy_ok :: "('s \<Rightarrow> bool) \<Rightarrow> 's session \<times> world \<Rightarrow> bool" where
  "strategy_ok I sw \<longleftrightarrow> I (s_strategy (fst sw)) \<and> distinct (map fst (s_peers (fst sw)))"

text \<open>A result that is no panic and leaves the strategy in order.\<close>

definition succeeds :: "('s \<Rightarrow> bool) \<Rightarrow> ('s session \<times> world) option \<Rightarrow> bool" where
  "succeeds I r \<longleftrightarrow> (\<exists>sw. r = Some sw \<and> strategy_ok I sw)"

lemma succeeds_Some [simp]: "succeeds I (Some sw) = strategy_ok I sw"
  by (simp add: succeeds_def)

lemma succeeds_bind: "succeeds I r \<Longrightarrow> (\<And>sw. r = Some sw \<Longrightarrow> strategy_ok I sw \<Longrightarrow> succeeds I (f sw)) \<Longrightarrow> succeeds I (Option.bind r f)"
  by (auto simp: succeeds_def)

lemma succeeds_sends:
  assumes "strategy_ok I sw" "r = Some sw'" "sends sw sw'" "I (s_strategy (fst sw'))"
  shows "succeeds I r"
  using assms by (cases sw; cases sw') (simp add: strategy_ok_def sends_def)

locale strategy_contract =
  fixes sc :: "('s, 'ci, 'r, 'p) Scheme"
    and I :: "'s \<Rightarrow> bool"
  assumes relay_law: "NewRelay sc rand m p = Inr s \<Longrightarrow> I s"
    and attach_law: "I s \<Longrightarrow> I (Strategy_AttachPeer sc s peer)"
    and detach_law: "I s \<Longrightarrow> I (Strategy_DetachPeer sc s peer fin)"
    and take_law: "I s \<Longrightarrow> \<exists>v c e d s'. Strategy_TakeChunk sc s peer ci data = Some (v, c, e, d, s') \<and> I s'"
    and routing_law: "I s \<Longrightarrow> I (snd (snd (Strategy_RoutingUpdate sc s peer u)))"
    and poll_law: "I s \<Longrightarrow> distinct order \<Longrightarrow> \<exists>ds s'. Strategy_PollChunks sc s order = Some (ds, s') \<and> I s'"
    and poll_routing_law: "I s \<Longrightarrow> \<exists>r s'. Strategy_PollRouting sc s force = Some (r, s') \<and> I s'"
    and sent_law: "I s \<Longrightarrow> \<exists>s'. Strategy_ChunkSent sc s peer h err = Some s' \<and> I s'"
begin

lemma chunk_sent_total:
  assumes "I (s_strategy s)"
  shows "\<exists>s'. chunk_sent sc peer h err s = Some s' \<and> I (s_strategy s')"
  using sent_law [OF assms, of peer h err] by (auto simp: chunk_sent_def)

lemma sendChunk_total:
  assumes "strategy_ok I sw"
  shows "succeeds I (sendChunk sc peer ci data sw)"
proof -
  obtain s w where sw: "sw = (s, w)" by (cases sw)
  have c: "\<exists>a. (\<exists>b. chunk_sent sc peer (CI_Handle sc ci) err s \<bind> (\<lambda>s. Some (s, f s)) = Some (a, b)) \<and> I (s_strategy a)" for err f
    using chunk_sent_total [of s peer "CI_Handle sc ci" err] assms by (auto simp: sw strategy_ok_def)
  have "\<exists>sw'. sendChunk sc peer ci data sw = Some sw' \<and> I (s_strategy (fst sw'))"
    using assms by (auto simp: c sw sendChunk_def strategy_ok_def Let_def split_beta split: sum.split option.split)
  then obtain sw' where s': "sendChunk sc peer ci data sw = Some sw'" "I (s_strategy (fst sw'))" by blast
  show ?thesis by (rule succeeds_sends [OF assms s'(1) sendChunk_sends [OF s'(1)] s'(2)])
qed

lemma send_chunks_total: "strategy_ok I sw \<Longrightarrow> succeeds I (send_chunks sc cs sw)"
proof (induction cs arbitrary: sw)
  case (Cons c cs)
  show ?case using succeeds_bind [OF sendChunk_total [OF Cons.prems]] Cons.IH by simp
qed simp

lemma drainPolls_total:
  assumes "strategy_ok I sw" "order_ok ord"
  shows "succeeds I (drainPolls sc ord sw)"
proof -
  obtain s w where sw: "sw = (s, w)" by (cases sw)
  have i: "I (s_strategy s)" and d: "distinct (map fst (s_peers s))" using assms(1) by (simp_all add: sw strategy_ok_def)
  obtain r st where r: "Strategy_PollRouting sc (s_strategy s) False = Some (r, st)" "I st" using poll_routing_law [OF i] by blast
  have "distinct (ord (map fst (s_peers s)))" using assms(2) d by (simp add: order_ok_def)
  then obtain ds st' where p: "Strategy_PollChunks sc st (ord (map fst (s_peers s))) = Some (ds, st')" "I st'" using poll_law [OF r(2)] by blast
  have "succeeds I (send_chunks sc ds (s\<lparr>s_strategy := st'\<rparr>, v))" for v by (rule send_chunks_total) (simp add: strategy_ok_def p(2) d)
  then show ?thesis by (simp add: sw drainPolls_def Let_def r p)
qed

lemma acceptChunk_total:
  assumes "strategy_ok I (s, w)" "order_ok ord"
  shows "succeeds I (acceptChunk sc ord peer chunk payload (s, w))"
proof -
  have i: "I (s_strategy s)" and d: "distinct (map fst (s_peers s))" using assms(1) by (simp_all add: strategy_ok_def)
  obtain v c e g st where t: "Strategy_TakeChunk sc (s_strategy s) peer chunk payload = Some (v, c, e, g, st)" "I st"
    using take_law [OF i] by blast
  have "\<exists>sw. acceptChunk sc ord peer chunk payload (s, w) = drainPolls sc ord sw \<and> strategy_ok I sw"
    unfolding acceptChunk_def
    by (auto simp: t d strategy_ok_def Let_def split_beta split: option.split)
  then obtain v where "acceptChunk sc ord peer chunk payload (s, w) = drainPolls sc ord v" "strategy_ok I v" by blast
  then show ?thesis using drainPolls_total [OF _ assms(2)] by simp
qed

lemma handleChunkData_total:
  assumes "strategy_ok I (s, w)" "order_ok ord"
  shows "succeeds I (handleChunkData sc ord peer ci data (s, w))"
  using assms acceptChunk_total [OF assms]
  by (auto simp: handleChunkData_def strategy_ok_def split: sum.split Verdict.split)

lemma handleVerifyResult_total:
  assumes "strategy_ok I (s, w)" "order_ok ord"
  shows "succeeds I (handleVerifyResult sc ord peer ci data v (s, w))"
  using assms acceptChunk_total [OF assms] by (auto simp: handleVerifyResult_def strategy_ok_def split: sum.split)

lemma cancel_handles_ok: "strategy_ok I sw \<Longrightarrow> strategy_ok I (cancel_handles peer hs sw)"
  by (induction peer hs sw rule: cancel_handles.induct) (auto simp: strategy_ok_def split: option.split)

lemma handleRoutingUpdate_total:
  assumes "strategy_ok I (s, w)" "order_ok ord"
  shows "succeeds I (handleRoutingUpdate sc ord peer data (s, w))"
proof (cases "R_Unmarshal sc data")
  case (Inl err)
  then show ?thesis using assms(1) by (simp add: handleRoutingUpdate_def strategy_ok_def)
next
  case (Inr u)
  obtain hs err st where r: "Strategy_RoutingUpdate sc (s_strategy s) peer u = (hs, err, st)" by (cases "Strategy_RoutingUpdate sc (s_strategy s) peer u")
  have "I st" using routing_law [of "s_strategy s" peer u] assms(1) r by (simp add: strategy_ok_def)
  then have "strategy_ok I (cancel_handles peer hs (s\<lparr>s_strategy := st\<rparr>, v))" for v
    using assms(1) by (intro cancel_handles_ok) (simp add: strategy_ok_def)
  then show ?thesis using drainPolls_total [OF _ assms(2)] by (simp add: handleRoutingUpdate_def Inr r Let_def)
qed

lemma handleSendComplete_total:
  assumes "strategy_ok I sw" "order_ok ord"
  shows "succeeds I (handleSendComplete sc ord peer h err sz sw)"
proof -
  obtain s w where c: "cancel_handles peer [h] sw = (s, w)" by (cases "cancel_handles peer [h] sw")
  have ok: "strategy_ok I (s, w)" using cancel_handles_ok [OF assms(1), of peer "[h]"] by (simp add: c)
  obtain s' where s': "chunk_sent sc peer h err s = Some s'" "I (s_strategy s')" using chunk_sent_total [of s peer h err] ok by (auto simp: strategy_ok_def)
  have "strategy_ok I (s', v)" for v using ok s' chunk_sent_sends [OF s'(1), of w] by (simp add: strategy_ok_def sends_def)
  then show ?thesis using drainPolls_total [OF _ assms(2)] by (simp add: handleSendComplete_def c s')
qed

lemma handlePeerAttached_total:
  assumes "strategy_ok I (s, w)" "order_ok ord"
  shows "succeeds I (handlePeerAttached sc ord p (s, w))"
proof (cases "map_of (s_peers s) (conn_id w p)")
  case (Some sp)
  then show ?thesis using assms(1) by (simp add: handlePeerAttached_def)
next
  case None
  have i: "I (s_strategy s)" and d: "distinct (map fst (s_peers s))" using assms(1) by (simp_all add: strategy_ok_def)
  obtain r st where r: "Strategy_PollRouting sc (Strategy_AttachPeer sc (s_strategy s) (conn_id w p)) True = Some (r, st)" "I st"
    using poll_routing_law [OF attach_law [OF i]] by blast
  have "\<exists>sw. handlePeerAttached sc ord p (s, w) = drainPolls sc ord sw \<and> strategy_ok I sw"
    using None by (auto simp: handlePeerAttached_def Let_def r d strategy_ok_def split_beta alist_simps)
  then obtain v where "handlePeerAttached sc ord p (s, w) = drainPolls sc ord v" "strategy_ok I v" by blast
  then show ?thesis using drainPolls_total [OF _ assms(2)] by simp
qed

lemma handlePeerDropped_strategy: "strategy_ok I sw \<Longrightarrow> strategy_ok I (handlePeerDropped sc peer sw)"
  by (cases sw) (auto simp: handlePeerDropped_def cancelOutbound_def strategy_ok_def detach_law alist_simps Let_def)

lemma handlePeerCompleted_strategy: "strategy_ok I sw \<Longrightarrow> strategy_ok I (handlePeerCompleted sc peer sw)"
  by (cases sw) (auto simp: handlePeerCompleted_def cancelOutbound_def strategy_ok_def detach_law alist_simps Let_def split: option.split)

lemma handleChunkStream_strategy:
  assumes "strategy_ok I sw"
  shows "strategy_ok I (handleChunkStream sc pr sw)"
proof -
  obtain s w s' w' where h: "sw = (s, w)" "handleChunkStream sc pr (s, w) = (s', w')"
    by (cases sw; cases "handleChunkStream sc pr sw") auto
  show ?thesis using assms handleChunkStream_frame [OF h(2)] by (simp add: h strategy_ok_def)
qed

lemma fold_streams_strategy: "strategy_ok I sw \<Longrightarrow> strategy_ok I (fold (\<lambda>c. handleChunkStream sc (pending_of c)) cs sw)"
  by (induction cs arbitrary: sw) (simp_all add: handleChunkStream_strategy)

lemma attach_all_total: "strategy_ok I sw \<Longrightarrow> order_ok (ord_peers e) \<Longrightarrow> succeeds I (attach_all sc e ps sw)"
proof (induction ps arbitrary: sw)
  case (Cons p ps)
  have "succeeds I (handlePeerAttached sc (ord_peers e) p sw)" using handlePeerAttached_total [of "fst sw" "snd sw"] Cons.prems by simp
  from succeeds_bind [OF this] Cons show ?case by simp
qed simp

end

section \<open>Channels\<close>

text \<open>Every session's strategy is in order.\<close>

definition strategies_ok :: "('s \<Rightarrow> bool) \<Rightarrow> 's Channel \<times> world \<Rightarrow> bool" where
  "strategies_ok I trw \<longleftrightarrow> (\<forall>m s. map_of (sessions (fst trw)) m = Some s \<longrightarrow> strategy_ok I (s, snd trw))"

lemma Publish_origin:
  assumes "Publish sc m payload = Some (Inr (channelPublish m st pre))"
  shows "\<exists>p. NewOrigin sc m payload = Some (Inr (st, p)) \<and> P_Marshal sc p = Inr pre"
proof (cases "NewOrigin sc m payload")
  case (Some r)
  then show ?thesis using assms
  proof (cases r)
    case (Inr sp)
    then show ?thesis using assms Some by (cases sp; cases "P_Marshal sc (snd sp)") (auto simp: Publish_def)
  qed (simp add: Publish_def)
qed (use assms in \<open>simp add: Publish_def\<close>)

text \<open>What a local publication brings along is in order.\<close>

fun event_strategy :: "('s \<Rightarrow> bool) \<Rightarrow> 's channelEvent \<Rightarrow> bool" where
  "event_strategy I (channelPublish m st pre) \<longleftrightarrow> I st"
| "event_strategy I _ \<longleftrightarrow> True"

lemma strategy_ok_world: "strategy_ok I (s, w) = strategy_ok I (s, w')"
  by (simp add: strategy_ok_def)

lemma strategies_world: "strategies_ok I (tr, w) = strategies_ok I (tr, w')"
  by (simp add: strategies_ok_def strategy_ok_def)

lemma strategies_set_sess:
  "strategies_ok I (tr, w) \<Longrightarrow> strategy_ok I sw \<Longrightarrow> strategies_ok I (set_sess m sw tr)"
  by (cases sw) (auto simp: strategies_ok_def strategy_ok_def set_sess_def alist_simps split: if_splits)

lemma strategies_sub:
  assumes "strategies_ok I trw" "\<And>j t. map_of (sessions (fst trw')) j = Some t \<Longrightarrow> map_of (sessions (fst trw)) j = Some t"
  shows "strategies_ok I trw'"
  using assms by (auto simp: strategies_ok_def strategy_ok_def)

lemma disposeSession_sessions:
  "map_of (sessions (fst (disposeSession e m r (tr, w)))) j = Some s \<Longrightarrow> map_of (sessions tr) j = Some s"
  by (auto simp: disposeSession_def Let_def map_of_delete split_beta split: option.splits if_splits)

lemma disposeSession_strategies: "strategies_ok I (tr, w) \<Longrightarrow> strategies_ok I (disposeSession e m r (tr, w))"
  by (erule strategies_sub) (drule disposeSession_sessions, simp)

lemma disposeIfIdle_strategies: "strategies_ok I trw \<Longrightarrow> strategies_ok I (disposeIfIdle e m trw)"
  by (cases trw, erule strategies_sub) (simp only: fst_conv, erule disposeIfIdle_sessions)

lemma fold_keeps:
  assumes "P x" "\<And>a x. P x \<Longrightarrow> P (f a x)"
  shows "P (fold f xs x)"
  using assms(1) by (induction xs arbitrary: x) (simp_all add: assms(2))

lemma parked_sessions [simp]:
  "sessions (fst (expire_parked e m trw)) = sessions (fst trw)" "sessions (fst (unpark_group peer m trw)) = sessions (fst trw)"
  by (cases trw; simp add: expire_parked_def unpark_group_def Let_def split: option.split)+

lemma expireDue_strategies:
  assumes "strategies_ok I trw"
  shows "strategies_ok I (expireDue e trw)"
proof -
  have "strategies_ok I (fold (expire_session e) (ord_msgs e (map fst (sessions (fst trw)))) trw)"
    by (rule fold_keeps [where P = "strategies_ok I", OF assms]) (auto simp: expire_session_def disposeSession_strategies split: option.split)
  then have "strategies_ok I (fold (expire_parked e) ms (fold (expire_session e) (ord_msgs e (map fst (sessions (fst trw)))) trw))" for ms
    by (rule fold_keeps [where P = "strategies_ok I"]) (erule strategies_sub, simp)
  then show ?thesis by (simp add: expireDue_def split_beta)
qed

lemma handleDecoded_strategies:
  assumes "strategies_ok I (tr, w)"
  shows "strategies_ok I (handleDecoded e m r (tr, w))"
proof (cases "\<exists>s payload. map_of (sessions tr) m = Some s \<and> stage s < stageReconstructed \<and> r = Inr payload")
  case False
  then show ?thesis using assms by (auto simp: handleDecoded_def strategies_ok_def strategy_ok_def split: option.split sum.split)
next
  case True
  then obtain s payload where s: "map_of (sessions tr) m = Some s" "stage s < stageReconstructed" "r = Inr payload" by blast
  obtain tr1 w1 where d: "deliverMessage (s_messageID s) payload (tr, w) = (tr1, w1)" by (cases "deliverMessage (s_messageID s) payload (tr, w)")
  then have "sessions tr1 = sessions tr" by (auto simp: deliverMessage_def Let_def split: option.splits if_splits)
  then have "strategies_ok I (tr1, w1)" "strategy_ok I (s\<lparr>stage := stageReconstructed\<rparr>, w1)"
    using assms s(1) by (simp_all add: strategies_ok_def strategy_ok_def)
  from disposeIfIdle_strategies [OF strategies_set_sess [OF this], of e m m] show ?thesis using s by (simp add: handleDecoded_def d)
qed

context strategy_contract
begin

lemma with_session_total:
  assumes "strategies_ok I (tr, w)" "\<And>s. strategy_ok I (s, w) \<Longrightarrow> succeeds I (f (s, w))"
  shows "\<exists>trw'. with_session m f (tr, w) = Some trw' \<and> strategies_ok I trw'"
proof (cases "map_of (sessions tr) m")
  case None
  then show ?thesis using assms(1) by (simp add: with_session_def)
next
  case (Some s)
  then obtain sw where "f (s, w) = Some sw" "strategy_ok I sw" using assms(1) assms(2) [of s] by (auto simp: strategies_ok_def succeeds_def)
  then show ?thesis using Some strategies_set_sess [OF assms(1)] by (simp add: with_session_def)
qed

lemma attach_sessions_total:
  "strategies_ok I (tr, w) \<Longrightarrow> order_ok (ord_peers e) \<Longrightarrow> \<exists>trw'. attach_sessions sc e p ms (tr, w) = Some trw' \<and> strategies_ok I trw'"
proof (induction ms arbitrary: tr w)
  case (Cons m ms)
  show ?case
  proof (cases "map_of (sessions tr) m")
    case None
    then show ?thesis using Cons by simp
  next
    case (Some s)
    then have "strategy_ok I (s, w)" using Cons.prems(1) by (simp add: strategies_ok_def)
    from handlePeerAttached_total [OF this Cons.prems(2), of p] obtain s' w' where
      a: "handlePeerAttached sc (ord_peers e) p (s, w) = Some (s', w')" "strategy_ok I (s', w')" by (auto simp: succeeds_def)
    have "strategies_ok I (tr\<lparr>sessions := AList.update m s' (sessions tr)\<rparr>, w')"
      using strategies_set_sess [OF Cons.prems(1) a(2), of m] by (simp add: set_sess_def)
    from Cons.IH [OF this Cons.prems(2)] show ?thesis by (simp add: Some a set_sess_def)
  qed
qed simp

lemma newSession_strategy: "newSession e m pre orig st (tr, w) = (s, tr', w') \<Longrightarrow> I st \<Longrightarrow> strategy_ok I (s, w')"
  by (auto simp: newSession_def strategy_ok_def split: prod.splits)

lemma handlePublish_total:
  assumes "strategies_ok I (tr, w)" "order_ok (ord_peers e)" "I st"
  shows "\<exists>trw'. handlePublish sc e m st pre (tr, w) = Some trw' \<and> strategies_ok I trw'"
proof -
  obtain tr1 w1 where d: "disposeSession e m ''replaced'' (tr, w) = (tr1, w1)" by (cases "disposeSession e m ''replaced'' (tr, w)")
  obtain s tr2 w2 where n: "newSession e m pre True st (tr1, w1) = (s, tr2, w2)" by (cases "newSession e m pre True st (tr1, w1)")
  obtain s3 where a: "attach_all sc e (range_members e tr2) (s, w2) = Some s3" "strategy_ok I s3"
    using attach_all_total [OF newSession_strategy [OF n assms(3)] assms(2), of "range_members e tr2"] by (auto simp: succeeds_def)
  obtain s4 where p: "drainPolls sc (ord_peers e) s3 = Some s4" "strategy_ok I s4" using drainPolls_total [OF a(2) assms(2)] by (auto simp: succeeds_def)
  have "strategies_ok I (tr2, w2)" using disposeSession_strategies [OF assms(1), of e m "''replaced''"] newSession_ok(7) [OF n]
    by (simp add: d strategies_ok_def strategy_ok_def)
  from strategies_set_sess [OF this p(2), of m] show ?thesis
    by (cases "set_sess m s4 tr2") (simp add: handlePublish_def d n a p strategies_ok_def strategy_ok_def)
qed

lemma createRelaySession_total:
  assumes "strategies_ok I (tr, w)" "order_ok (ord_peers e)"
  shows "\<exists>err trw'. createRelaySession sc e m pre ip ir (tr, w) = Some (err, trw') \<and> strategies_ok I trw'"
proof (cases "\<exists>p st. P_Unmarshal sc pre = Inr p \<and> NewRelay sc (rnd e) m p = Inr st")
  case False
  then show ?thesis using assms(1) by (auto simp: createRelaySession_def split: sum.splits)
next
  case True
  then obtain p st where st: "P_Unmarshal sc pre = Inr p" "NewRelay sc (rnd e) m p = Inr st" by blast
  obtain s tr2 w2 where n: "newSession e m pre False st (tr, w) = (s, tr2, w2)" by (cases "newSession e m pre False st (tr, w)")
  obtain s3 w3 where a: "attach_all sc e (range_members e tr2) (s, w2) = Some (s3, w3)" "strategy_ok I (s3, w3)"
    using attach_all_total [OF newSession_strategy [OF n relay_law [OF st(2)]] assms(2), of "range_members e tr2"] by (auto simp: succeeds_def)
  obtain s4 where p: "(if 0 < length ir then handleRoutingUpdate sc (ord_peers e) ip ir (s3, w3) else Some (s3, w3)) = Some s4" "strategy_ok I s4"
    using that handleRoutingUpdate_total [OF a(2) assms(2), of ip ir] a(2) unfolding succeeds_def by (cases "0 < length ir") (simp_all only: if_True if_False, blast+)
  have "strategies_ok I (tr2\<lparr>parked := P\<rparr>, w2)" for P using assms(1) newSession_ok(7) [OF n] by (simp add: strategies_ok_def strategy_ok_def)
  note s5 = strategies_set_sess [OF this, of "case map_of (parked tr2) m of None \<Rightarrow> s4 | Some g \<Rightarrow> fold (\<lambda>c. handleChunkStream sc (pending_of c)) (pg_streams g) s4" m]
  have "strategy_ok I (case map_of (parked tr2) m of None \<Rightarrow> s4 | Some g \<Rightarrow> fold (\<lambda>c. handleChunkStream sc (pending_of c)) (pg_streams g) s4)"
    using p(2) fold_streams_strategy by (simp split: option.split)
  note ok = s5 [OF this, of "AList.delete m (parked tr2)"]
  define t where "t = set_sess m (case map_of (parked tr2) m of None \<Rightarrow> s4 | Some g \<Rightarrow> fold (\<lambda>c. handleChunkStream sc (pending_of c)) (pg_streams g) s4)
    (tr2\<lparr>parked := AList.delete m (parked tr2)\<rparr>)"
  have "createRelaySession sc e m pre ip ir (tr, w) = Some (None, fst t, observe (OnSessionStarted (ch_id (fst t)) m SessionRoleRelay) (snd t))"
    using p(1) by (simp add: createRelaySession_def st n a Let_def split_beta t_def del: length_greater_0_conv)
  then show ?thesis using ok by (simp add: t_def [symmetric] strategies_ok_def strategy_ok_def)
qed

lemma drainReads_strategy: "strategy_ok I (s, w) \<Longrightarrow> strategy_ok I (drainReads sc (s, w))"
proof (induction sc "(s, w)" arbitrary: s w rule: drainReads.induct)
  case (1 sc s w)
  show ?case
  proof (cases "\<exists>p rest. readQueue s = p # rest \<and> readSem s < maxConcurrentReads")
    case False
    then show ?thesis using 1(2) by (auto simp: drainReads.simps split: list.split)
  next
    case True
    then obtain p rest where q: "readQueue s = p # rest" "readSem s < maxConcurrentReads" by blast
    obtain s1 w1 where h: "handleChunkStream sc p (s\<lparr>readQueue := rest\<rparr>, w) = (s1, w1)"
      by (cases "handleChunkStream sc p (s\<lparr>readQueue := rest\<rparr>, w)")
    have "strategy_ok I (s1, w1)" using handleChunkStream_frame [OF h] 1(2) by (simp add: strategy_ok_def)
    then show ?thesis using 1(1) [OF q h] q h by (simp add: drainReads.simps [of sc s w])
  qed
qed

lemma handleChunk_strategies:
  assumes "strategies_ok I (tr, w)"
  shows "strategies_ok I (handleChunk sc e peer frame stream (tr, w))"
proof (cases "map_of (sessions tr) (ch_ObjectId frame)")
  case None
  then show ?thesis using assms
    by (auto simp: handleChunk_def Let_def scheduleExpiry_def strategies_ok_def strategy_ok_def split: option.split)
next
  case (Some s)
  then have "strategy_ok I (s, w)" using assms by (simp add: strategies_ok_def)
  from strategies_set_sess [OF assms handleChunkStream_strategy [OF drainReads_strategy [OF this]]] show ?thesis
    by (simp add: handleChunk_def Some)
qed

lemma drop_from_session_strategies:
  assumes "strategies_ok I (tr, w)"
  shows "strategies_ok I (drop_from_session sc e peer m (tr, w))"
proof (cases "map_of (sessions tr) m")
  case None
  then show ?thesis using assms by (simp add: drop_from_session_def)
next
  case (Some s)
  then have "strategy_ok I (s, w)" using assms by (simp add: strategies_ok_def)
  from disposeIfIdle_strategies [OF strategies_set_sess [OF assms handlePeerDropped_strategy [OF this]]] show ?thesis
    by (simp add: drop_from_session_def Some)
qed

lemma handlePeerUnbound_strategies:
  assumes "strategies_ok I (tr, w)"
  shows "strategies_ok I (handlePeerUnbound sc e peer (tr, w))"
proof -
  have "strategies_ok I (tr\<lparr>members := AList.delete peer (members tr)\<rparr>, w)" using assms by (simp add: strategies_ok_def)
  then have "strategies_ok I (fold (unpark_group peer) ms (tr\<lparr>members := AList.delete peer (members tr)\<rparr>, w))" for ms
    by (rule fold_keeps [where P = "strategies_ok I"]) (erule strategies_sub, simp)
  then have "strategies_ok I (fold (drop_from_session sc e peer) ms' (fold (unpark_group peer) ms (tr\<lparr>members := AList.delete peer (members tr)\<rparr>, w)))" for ms ms'
    by (rule fold_keeps [where P = "strategies_ok I"]) (metis drop_from_session_strategies prod.collapse)
  then show ?thesis by (simp add: handlePeerUnbound_def Let_def split_beta)
qed

lemma handleSessionOpen_total:
  assumes "strategies_ok I (tr, w)" "order_ok (ord_peers e)"
  shows "\<exists>trw'. handleSessionOpen sc e peer msg (tr, w) = Some trw' \<and> strategies_ok I trw'"
proof (cases "map_of (sessions tr) (so_ObjectId msg)")
  case None
  obtain err tr1 w1 where c: "createRelaySession sc e (so_ObjectId msg) (so_Preamble msg) peer (so_InitialUpdate msg) (tr, w) = Some (err, tr1, w1)"
    "strategies_ok I (tr1, w1)" using createRelaySession_total [OF assms, of "so_ObjectId msg" "so_Preamble msg" peer "so_InitialUpdate msg"] by auto
  then show ?thesis by (auto simp: handleSessionOpen_def None Let_def strategies_ok_def strategy_ok_def)
next
  case (Some s)
  then have "strategy_ok I (s, w)" using assms(1) by (simp add: strategies_ok_def)
  from handleRoutingUpdate_total [OF this assms(2), of peer "so_InitialUpdate msg"] obtain sw where
    "handleRoutingUpdate sc (ord_peers e) peer (so_InitialUpdate msg) (s, w) = Some sw" "strategy_ok I sw" by (auto simp: succeeds_def)
  then show ?thesis using assms(1) strategies_set_sess [OF assms(1), of sw] by (simp add: handleSessionOpen_def Some Let_def del: split_paired_Ex)
qed

lemma handle_total:
  assumes "strategies_ok I (tr, w)" "order_ok (ord_peers e)" "event_strategy I ev"
  shows "\<exists>trw'. handle sc e ev (tr, w) = Some trw' \<and> strategies_ok I trw'"
proof (cases ev)
  case (channelChunkStream peer h st)
  then show ?thesis using handleChunk_strategies [OF assms(1)] by simp
next
  case (channelChunkData m peer ci data)
  then show ?thesis using with_session_total [OF assms(1), of "handleChunkData sc (ord_peers e) peer ci data" m] handleChunkData_total assms(2) by simp
next
  case (channelReadDone m)
  then show ?thesis using with_session_total [OF assms(1), of "\<lambda>sw. Some (drainReads sc sw)" m] drainReads_strategy by simp
next
  case channelExpiry
  then show ?thesis using expireDue_strategies [OF assms(1)] by simp
next
  case (channelSessionOpen peer msg)
  then show ?thesis using handleSessionOpen_total [OF assms(1,2)] by simp
next
  case (channelPeerChange peer r)
  have "strategies_ok I (tr\<lparr>members := M\<rparr>, w)" for M using assms(1) by (simp add: strategies_ok_def)
  note b = attach_sessions_total [OF this assms(2)]
  show ?thesis using channelPeerChange handlePeerUnbound_strategies [OF assms(1)] b assms(1) by (cases r) (auto simp: handlePeerBound_def)
next
  case (channelPeerReconstructed m peer)
  have "\<exists>trw'. with_session m (\<lambda>sw. Some (handlePeerCompleted sc peer sw)) (tr, w) = Some trw' \<and> strategies_ok I trw'"
    by (rule with_session_total [OF assms(1)]) (simp add: handlePeerCompleted_strategy)
  then show ?thesis using channelPeerReconstructed disposeIfIdle_strategies by (auto simp del: split_paired_Ex)
next
  case (channelPeerSessionEnded m peer p)
  then show ?thesis using drop_from_session_strategies [OF assms(1)] assms(1) by (simp del: split_paired_Ex)
next
  case (channelPublish m st pre)
  then show ?thesis using handlePublish_total [OF assms(1,2)] assms(3) by simp
next
  case (channelChunkSent m peer h err sz)
  then show ?thesis using with_session_total [OF assms(1), of "handleSendComplete sc (ord_peers e) peer h err sz" m] handleSendComplete_total assms(2) by simp
next
  case (channelRoutingUpdate peer m data)
  then show ?thesis using with_session_total [OF assms(1), of "handleRoutingUpdate sc (ord_peers e) peer data" m] handleRoutingUpdate_total assms(2) by simp
next
  case (channelVerifyResult m peer ci data v)
  then show ?thesis using with_session_total [OF assms(1), of "handleVerifyResult sc (ord_peers e) peer ci data v" m] handleVerifyResult_total assms(2) by simp
next
  case (channelDecoded m r)
  then show ?thesis using handleDecoded_strategies [OF assms(1)] by simp
qed

lemma actor_runs_strategies:
  assumes "actor_runs sc a" "\<And>m payload st p. NewOrigin sc m payload = Some (Inr (st, p)) \<Longrightarrow> I st"
  shows "strategies_ok I (a_tr a, a_world a) \<and> (\<forall>ev \<in> set (a_inbox a). event_strategy I ev)"
proof -
  have p: "event_strategy I ev" if "posted sc ev" for ev
    using that assms(2) by (cases ev) (auto dest!: Publish_origin)
  have set: "strategies_ok I (fst (set_sess m (s', w) tr), w')" if "strategies_ok I (tr, w)" "map_of (sessions tr) m = Some s"
    "s_strategy s' = s_strategy s" "s_peers s' = s_peers s" for tr m w w' and s s' :: "'s session"
    using that by (auto simp: strategies_ok_def strategy_ok_def set_sess_def alist_simps split: if_splits)
  have w: "strategies_ok I (tr, w) \<Longrightarrow> strategies_ok I (tr, w')" for tr w w' using strategies_world by blast
  show ?thesis using assms(1)
  proof (induction rule: actor_runs.induct)
    case (start c ec w tr w')
    then show ?case by (auto simp: AttachChannel_def strategies_ok_def split: prod.splits)
  next
    case (step a a')
    from step(2) show ?case
    proof cases
      case (handle ev rest e tr w)
      have "strategies_ok I (a_tr a, a_world a)" "order_ok (ord_peers e)" "event_strategy I ev"
        using step(3) env_ok_order [OF handle(3)] handle(2) by simp_all
      from handle_total [OF this] show ?thesis using handle step(3) by simp
    qed (use step(3) p set w in \<open>auto simp: reader_ends_def set_reader_def release_slot_def\<close>)
  qed
qed

end

end
