(* ===== verification/RSScheme.thy ===== *)
theory RSScheme
  imports Contract RSCoding
begin

text \<open>
  The Reed-Solomon scheme as a \<open>Scheme\<close> (\<open>NewScheme\<close> of \<open>src/broadcast/rs/types.go\<close>) and that its
  strategy meets the contract of \<open>Contract\<close>: a running channel with this scheme never panics.
\<close>

section \<open>The scheme\<close>

definition Bitmap_Marshal :: "bitmap \<Rightarrow> goerr + bytes" where
  "Bitmap_Marshal b = Inr b"

definition Bitmap_Unmarshal :: "bytes \<Rightarrow> goerr + bitmap" where
  "Bitmap_Unmarshal data = Inr data"

text \<open>
  \<open>TakeChunk\<close> and \<open>RoutingUpdate\<close> return the error \<open>nil\<close>, and a routing update is never a \<open>nil\<close> bitmap, as
  \<open>NewR\<close> allocates it.
\<close>

definition NewScheme :: "rspb \<Rightarrow> reedsolomon \<Rightarrow> Config \<Rightarrow> (strategy, ChunkIdent, bitmap, Preamble) Scheme" where
  "NewScheme pb rs cfg = \<lparr>
     NewOrigin = \<lambda>m payload. map_option (\<lambda>r. case r of Inl err \<Rightarrow> Inl err | Inr s \<Rightarrow> Inr (s, preamble s)) (newOriginStrategy rs cfg payload),
     NewRelay = \<lambda>rand m p. newRelayStrategy cfg rand (Some p),
     P_Marshal = Preamble_Marshal pb, P_Unmarshal = Preamble_Unmarshal pb,
     CI_Marshal = ChunkIdent_Marshal pb, CI_Unmarshal = ChunkIdent_Unmarshal pb, CI_Handle = ChunkIdent_Handle,
     R_Marshal = Bitmap_Marshal, R_Unmarshal = Bitmap_Unmarshal,
     Strategy_HaveChunk = HaveChunk, Strategy_DedupKey = DedupKey,
     Strategy_AttachPeer = AttachPeer, Strategy_DetachPeer = DetachPeer,
     Strategy_VerifyChunk = VerifyChunk,
     Strategy_TakeChunk = \<lambda>s peer ci data. map_option (\<lambda>(v, c, d, s'). (v, c, None, d, s')) (TakeChunk s peer ci data),
     Strategy_RoutingUpdate = \<lambda>s peer u. (case RoutingUpdate s peer (Some u) of (hs, s') \<Rightarrow> (hs, None, s')),
     Strategy_PollChunks = PollChunks, Strategy_PollRouting = PollRouting,
     Strategy_ChunkSent = ChunkSent, Strategy_Progress = Progress, Strategy_Decode = Decode_strategy rs\<rparr>"

interpretation rs_contract: strategy_contract "NewScheme pb rs cfg" rs_inv for pb rs cfg
proof unfold_locales
  fix rand m p s assume "NewRelay (NewScheme pb rs cfg) rand m p = Inr s"
  then show "rs_inv s" using newRelay_inv(1) by (simp add: NewScheme_def)
next
  fix s :: strategy and peer ci data assume "rs_inv s"
  then show "\<exists>v c e d s'. Strategy_TakeChunk (NewScheme pb rs cfg) s peer ci data = Some (v, c, e, d, s') \<and> rs_inv s'"
    using TakeChunk_inv [of s peer ci data] by (auto simp: NewScheme_def)
next
  fix s :: strategy and peer u assume "rs_inv s"
  then show "rs_inv (snd (snd (Strategy_RoutingUpdate (NewScheme pb rs cfg) s peer u)))"
    using RoutingUpdate_inv [of s peer "Some u"] by (simp add: NewScheme_def split_beta)
next
  fix s :: strategy and order :: "PeerID list" assume "rs_inv s" "distinct order"
  then show "\<exists>ds s'. Strategy_PollChunks (NewScheme pb rs cfg) s order = Some (ds, s') \<and> rs_inv s'"
    using PollChunks_spec [of s order] by (auto simp: NewScheme_def)
qed (use AttachPeer_inv DetachPeer_inv PollRouting_inv ChunkSent_inv in \<open>simp_all add: NewScheme_def\<close>)

section \<open>Publications and decoding\<close>

text \<open>
  What the library promises of the shape of its results: it is created for at least one data
  shard, and encoding and reconstruction keep the number of shards.
\<close>

definition rs_lawful :: "reedsolomon \<Rightarrow> bool" where
  "rs_lawful rs \<longleftrightarrow> (\<forall>d p. rs_New rs d p = None \<longrightarrow> 0 < d \<and> 0 \<le> p \<and>
     (\<forall>xs ys. rs_Encode rs d p xs = Inr ys \<and> length xs = nat (d + p) \<longrightarrow> length ys = length xs) \<and>
     (\<forall>xs ys. rs_ReconstructData rs d p xs = Inr ys \<longrightarrow> length ys = length xs))"

lemma newOrigin_inv:
  assumes "rs_lawful rs" "newOriginStrategy rs cfg payload = Some (Inr s)"
  shows "rs_inv s"
proof -
  let ?len = "int (length payload)"
  obtain p L where ip: "initPreamble cfg ?len = Some (p, L)" using assms(2) by (cases "initPreamble cfg ?len") (auto simp: newOriginStrategy_def)
  have new: "rs_New rs (DataChunks p) (ParityChunks p) = None"
    using assms(2) ip by (auto simp: newOriginStrategy_def Let_def split: option.splits)
  then have dp: "0 < DataChunks p" "0 \<le> ParityChunks p" using assms(1) by (simp_all add: rs_lawful_def)
  have len: "?len \<le> L * TotalChunks p" "1 \<le> L" using assms(2) ip new by (auto simp: newOriginStrategy_def Let_def split: if_splits)
  define msg where "msg = payload @ replicate (nat (L * TotalChunks p - ?len)) 0"
  obtain enc where enc: "rs_Encode rs (DataChunks p) (ParityChunks p) (slices_Chunk (nat L) msg) = Inr enc"
    using assms(2) ip new len by (auto simp: newOriginStrategy_def Let_def msg_def split: sum.splits)
  have "int (length msg) = L * TotalChunks p" using len by (simp add: msg_def)
  then have "length msg = nat L * nat (TotalChunks p)" using len(2) by (metis int_nat_eq nat_int nat_mult_distrib zero_le_one order_trans)
  then have "length (slices_Chunk (nat L) msg) = nat (TotalChunks p)" using slices_Chunk_exact [of "nat L" msg] len(2) by simp
  moreover have "rs_Encode rs (DataChunks p) (ParityChunks p) xs = Inr ys \<Longrightarrow> length xs = nat (TotalChunks p) \<Longrightarrow> length ys = length xs" for xs ys
    using assms(1) new unfolding rs_lawful_def TotalChunks_def by blast
  ultimately have le: "length enc = nat (TotalChunks p)" using enc by metis
  let ?p = "p\<lparr>ChunkHashes := map Sum256 enc, MessageHash := Sum256 payload\<rparr>"
  have "s = \<lparr>config = cfg, preamble = ?p, isOrigin = True, totalChunks = TotalChunks ?p, chunks = map Some enc,
      planner = fold (\<lambda>i h. Planner_Insert h \<lparr>Idx = int i, Times = 0, Sent = 0, Priority = 0\<rparr>) [0..<length enc] newEmitPlanner,
      peers = Map.empty, routingDirty = True, seed = 0, have_chunks = AllOnesBitmap (nat (TotalChunks ?p)), complete = False\<rparr>"
    using assms(2) ip new len enc by (simp add: newOriginStrategy_def Let_def msg_def)
  then show ?thesis using dp le fold_Insert_range [of "length enc"]
    by (simp only:) (intro origin_state_inv, simp_all add: TotalChunks_def)
qed

lemma Decode_total:
  assumes "rs_lawful rs" "rs_inv s"
  shows "Decode_strategy rs s \<noteq> None"
proof (cases "rs_New rs (DataChunks (preamble s)) (ParityChunks (preamble s)) = None")
  case True
  have sh: "totalChunks s = DataChunks (preamble s) + ParityChunks (preamble s)" "0 < DataChunks (preamble s)"
    "length (chunks s) = nat (totalChunks s)" using assms(2) by (simp_all add: rs_inv_def rs_shape_def TotalChunks_def)
  have l: "length ys = length (chunks s)" if "rs_ReconstructData rs (DataChunks (preamble s)) (ParityChunks (preamble s)) (chunks s) = Inr ys" for ys
    using assms(1) True that by (auto simp: rs_lawful_def)
  have "0 \<le> ParityChunks (preamble s)" using assms(1) True by (simp add: rs_lawful_def)
  then have "\<not> (ys = [] \<or> int (length ys) < DataChunks (preamble s))"
    if "rs_ReconstructData rs (DataChunks (preamble s)) (ParityChunks (preamble s)) (chunks s) = Inr ys" for ys
    using l [OF that] sh by auto
  then show ?thesis using True by (auto simp: Decode_strategy_def tryDecode_def Let_def split: sum.split)
qed (auto simp: Decode_strategy_def tryDecode_def Let_def)

end
