(* ===== verification/ChannelProps.thy ===== *)
theory ChannelProps
  imports RSScheme
begin

text \<open>
  The properties of a running channel: where every chunk stream is, what reads of a session wait
  for, what holds of its members and sessions, and that it never panics with the Reed-Solomon
  scheme.
\<close>

section \<open>Shutdown\<close>

lemma fold_ended:
  assumes "\<And>v w. ended (f v w) = g v + ended w"
  shows "ended (fold (\<lambda>k w. case map_of xs k of None \<Rightarrow> w | Some v \<Rightarrow> f v w) ks w) =
    sum_list (map (\<lambda>k. opt_sum g (map_of xs k)) ks) + ended w"
  by (induction ks arbitrary: w) (auto simp: assms ac_simps split: option.split)

lemma sum_keys:
  fixes g :: "'v \<Rightarrow> nat multiset"
  assumes "distinct (map fst xs)" "mset ks = mset (map fst xs)"
  shows "sum_list (map (\<lambda>k. opt_sum g (map_of xs k)) ks) = alist_sum g xs"
proof -
  have "map (\<lambda>k. opt_sum g (map_of xs k)) (map fst xs) = map (g \<circ> snd) xs"
    using assms(1) by (auto simp: map_of_eq_Some_iff)
  moreover have "mset (map (\<lambda>k. opt_sum g (map_of xs k)) ks) = mset (map (\<lambda>k. opt_sum g (map_of xs k)) (map fst xs))"
    using assms(2) by (metis mset_map)
  ultimately show ?thesis unfolding alist_sum_def by (metis sum_mset_sum_list)
qed

lemma drainInbox_ended: "ended (drainInbox es w) = inbox_streams es + ended w"
  by (induction es w rule: drainInbox.induct) simp_all

lemma shutdown_ended:
  assumes "channel_wf tr" "env_ok e"
  shows "ended (snd (shutdown e es (tr, w))) = inbox_streams es + stream_total (tr, w)"
proof -
  have c: "ended (snd (session_Close re ord (s, w))) = session_streams s + ended w" for re ord w and s :: "'a session"
    using closeWithCode_spec(1) [of re ord Unspecified s w] by (cases "closeWithCode re ord Unspecified (s, w)") (simp add: session_Close_def held_def)
  have m: "mset (ord_msgs e ms) = mset ms" for ms using assms(2) by (simp add: env_ok_def)
  have d: "distinct (map fst (sessions tr))" "distinct (map fst (parked tr))" using assms(1) by (simp_all add: channel_wf_def)
  define w1 where "w1 = fold (\<lambda>m w. case map_of (sessions tr) m of None \<Rightarrow> w | Some sess \<Rightarrow> snd (session_Close (read_err e) (ord_peers e) (sess, w)))
    (ord_msgs e (map fst (sessions tr))) w"
  define w2 where "w2 = fold (\<lambda>m w. case map_of (parked tr) m of None \<Rightarrow> w | Some g \<Rightarrow> cancel_parked Unspecified g w)
    (ord_msgs e (map fst (parked tr))) w1"
  have "ended w1 = alist_sum session_streams (sessions tr) + ended w"
    unfolding w1_def fold_ended [where f = "\<lambda>s w. snd (session_Close (read_err e) (ord_peers e) (s, w))", OF c] sum_keys [OF d(1) m] by simp
  moreover have "ended w2 = alist_sum parked_streams (parked tr) + ended w1"
    unfolding w2_def fold_ended [where f = "cancel_parked Unspecified", OF cancel_parked_ended] sum_keys [OF d(2) m] by simp
  moreover have "snd (shutdown e es (tr, w)) = drainInbox es w2" by (simp add: shutdown_def Let_def w1_def w2_def)
  ultimately show ?thesis by (simp add: drainInbox_ended stream_total_def channel_streams_def)
qed

section \<open>Properties\<close>

text \<open>
  The calls of \<open>CancelRead\<close> a stream has seen: that of the callback of its read context, if it ran,
  and that of the holder that gives the stream up.
\<close>

definition CancelRead_calls :: "world \<Rightarrow> nat \<Rightarrow> code list" where
  "CancelRead_calls w st =
     concat (map (\<lambda>(s, cb, c). if s = st then (case cb of None \<Rightarrow> [c] | Some k \<Rightarrow> [k, c]) else []) (cancelled w)) @
     concat (map (\<lambda>(s, cb). if s = st then (case cb of None \<Rightarrow> [] | Some k \<Rightarrow> [k]) else []) (finished w))"

lemma CancelRead_calls_bound: "length (CancelRead_calls w st) \<le> 2 * count (ended w) st"
proof -
  have "length (concat (map (\<lambda>(s, cb, c). if s = st then (case cb of None \<Rightarrow> [c] | Some k \<Rightarrow> [k, c]) else []) xs)) \<le> 2 * count (mset (map fst xs)) st"
    for xs :: "(nat \<times> code option \<times> code) list"
    by (induction xs) (auto split: option.split)
  moreover have "length (concat (map (\<lambda>(s, cb). if s = st then (case cb of None \<Rightarrow> [] | Some k \<Rightarrow> [k]) else []) xs)) \<le> 2 * count (mset (map fst xs)) st"
    for xs :: "(nat \<times> code option) list"
    by (induction xs) (auto split: option.split)
  ultimately show ?thesis unfolding CancelRead_calls_def ended_def by (simp add: add_mono)
qed

text \<open>
  C4 (streams): in every state of a running channel each CHUNK stream handed to it is in exactly
  one place: in the inbox, parked, waiting for a read slot, held by a reader, given up with a
  \<open>CancelRead\<close> of its holder, or left by the reader that has read it to its end. So a stream that is
  handed over once is given up or left at most once, and sees at most two calls of \<open>CancelRead\<close>,
  the second only after that of the callback of its read context. Once the channel has shut down,
  whatever orders the maps are ranged over in and whatever errors the reads fail with, every
  stream is given up or left.
\<close>
theorem channel_streams_accounted:
  assumes "actor_runs sc a"
  shows "a_received a = inbox_streams (a_inbox a) + channel_streams (a_tr a) + ended (a_world a) \<and>
    ((\<forall>st. count (a_received a) st \<le> 1) \<longrightarrow>
      distinct (map fst (cancelled (a_world a)) @ map fst (finished (a_world a))) \<and>
      (\<forall>st. length (CancelRead_calls (a_world a) st) \<le> 2)) \<and>
    (\<forall>e. env_ok e \<longrightarrow> a_received a = ended (snd (shutdown e (a_inbox a) (a_tr a, a_world a))))"
proof (intro conjI allI impI)
  have i: "actor_inv a" using actor_runs_inv [OF assms] .
  then show e: "a_received a = inbox_streams (a_inbox a) + channel_streams (a_tr a) + ended (a_world a)"
    by (simp add: actor_inv_def stream_total_def ac_simps)
  have one: "count (ended (a_world a)) st \<le> 1" if "\<forall>st. count (a_received a) st \<le> 1" for st
    using that [rule_format, of st] unfolding e by simp
  show "distinct (map fst (cancelled (a_world a)) @ map fst (finished (a_world a)))" if "\<forall>st. count (a_received a) st \<le> 1"
    using one [OF that] unfolding ended_def mset_append [symmetric] distinct_count_atmost_1
    by (metis count_eq_zero_iff le_SucE le_zero_eq One_nat_def set_mset_mset)
  show "length (CancelRead_calls (a_world a) st) \<le> 2" if "\<forall>st. count (a_received a) st \<le> 1" for st
    using CancelRead_calls_bound [of "a_world a" st] one [OF that, of st] by linarith
  have "channel_wf (a_tr a)" using i channel_okD(1) by (auto simp: actor_inv_def channel_inv_def)
  from shutdown_ended [OF this, of _ "a_inbox a" "a_world a"] i
  show "a_received a = ended (snd (shutdown e (a_inbox a) (a_tr a, a_world a)))" if "env_ok e" for e
    using that by (simp add: actor_inv_def)
qed

text \<open>
  C6 (read slots): a session never reads more than 64 streams at once, every slot taken belongs
  to one reader, and the streams in its queue never wait for nothing: while there are any, every
  slot is taken, or a reader that has freed its slot is about to post \<open>channelReadDone\<close>, or that
  event is in the inbox.
\<close>
theorem read_queue_served:
  assumes "actor_runs sc a" "map_of (sessions (a_tr a)) m = Some s"
  shows "readSem s = length (readers s) + readersRead s \<and> readSem s \<le> maxConcurrentReads \<and>
    (readQueue s \<noteq> [] \<longrightarrow> readSem s = maxConcurrentReads \<or> 0 < readersDone s \<or> channelReadDone m \<in> set (a_inbox a))"
proof -
  have "channel_inv (inbox_wakes (a_inbox a)) (a_tr a, a_world a)" using actor_runs_inv [OF assms(1)] by (simp add: actor_inv_def)
  from channel_inv_session(1) [OF this assms(2)] have ok: "slots_ok s" "served (m \<in> inbox_wakes (a_inbox a)) s" by (simp_all add: session_ok_def)
  have "m \<in> event_wakes ev \<longleftrightarrow> ev = channelReadDone m" for ev :: "'a channelEvent" by (cases ev) auto
  then have "m \<in> inbox_wakes (a_inbox a) \<longleftrightarrow> channelReadDone m \<in> set (a_inbox a)" by (auto simp: inbox_wakes_def)
  then show ?thesis using ok by (auto simp: slots_ok_def served_def)
qed

text \<open>
  C7 (well-formed channels): in every state of a running channel a member is registered under
  the identity of its connection; a session is stored under its message, belongs to the channel,
  has only members as peers, through the connections they are registered with, and is not idle;
  a parked group holds between 1 and 32 streams, and stands beside a session only if that session
  is an origin; and the inbox is within its capacity.
\<close>
theorem channel_well_formed:
  assumes "actor_runs sc a"
  shows "length (a_inbox a) \<le> channelInboxCap \<and>
    (\<forall>peer p. map_of (members (a_tr a)) peer = Some p \<longrightarrow> conn_id (a_world a) p = peer) \<and>
    (\<forall>m s. map_of (sessions (a_tr a)) m = Some s \<longrightarrow>
       s_messageID s = m \<and> s_channelID s = ch_id (a_tr a) \<and> \<not> idle s \<and>
       (\<forall>peer sp. map_of (s_peers s) peer = Some sp \<longrightarrow> map_of (members (a_tr a)) peer = Some (sp_conn sp))) \<and>
    (\<forall>m g. map_of (parked (a_tr a)) m = Some g \<longrightarrow>
       0 < length (pg_streams g) \<and> length (pg_streams g) \<le> maxParkedChunks \<and>
       (\<forall>s. map_of (sessions (a_tr a)) m = Some s \<longrightarrow> stage s = stageOrigin))"
proof -
  have i: "actor_inv a" using actor_runs_inv [OF assms] .
  then have c: "channel_inv (inbox_wakes (a_inbox a)) (a_tr a, a_world a)" by (simp add: actor_inv_def)
  have "s_messageID s = m \<and> s_channelID s = ch_id (a_tr a) \<and> \<not> idle s \<and>
      (\<forall>peer sp. map_of (s_peers s) peer = Some sp \<longrightarrow> map_of (members (a_tr a)) peer = Some (sp_conn sp))"
    if "map_of (sessions (a_tr a)) m = Some s" for m s
    using channel_inv_session [OF c that] by (simp add: session_ok_def linked_def)
  moreover have "parked_ok (a_tr a)" "conns_ok (conn_id (a_world a)) (members (a_tr a))"
    using c channel_okD(2) by (auto simp: channel_inv_def)
  ultimately show ?thesis using i by (simp add: parked_ok_def conns_ok_def actor_inv_def)
qed

text \<open>
  C3 (no panic): a running channel with the Reed-Solomon scheme, whatever configuration it was
  given, handles every event without a panic, also those that remote peers make up; neither
  does the decoder of any of its sessions panic.
\<close>
theorem rs_channel_no_panic:
  assumes "rs_lawful rs" "actor_runs (NewScheme pb rs cfg) a"
  shows "(\<forall>ev rest e. a_inbox a = ev # rest \<and> env_ok e \<longrightarrow> handle (NewScheme pb rs cfg) e ev (a_tr a, a_world a) \<noteq> None) \<and>
    (\<forall>m s. map_of (sessions (a_tr a)) m = Some s \<longrightarrow> Decode_strategy rs (s_strategy s) \<noteq> None)"
proof -
  have o: "rs_inv st" if "NewOrigin (NewScheme pb rs cfg) m payload = Some (Inr (st, p))" for m payload st p
    using that newOrigin_inv [OF assms(1), of cfg payload]
    by (cases "newOriginStrategy rs cfg payload"; cases "the (newOriginStrategy rs cfg payload)") (auto simp: NewScheme_def)
  have "strategies_ok rs_inv (a_tr a, a_world a) \<and> (\<forall>ev \<in> set (a_inbox a). event_strategy rs_inv ev)"
    by (rule rs_contract.actor_runs_strategies [OF assms(2)]) (rule o)
  then have s: "strategies_ok rs_inv (a_tr a, a_world a)" "\<forall>ev \<in> set (a_inbox a). event_strategy rs_inv ev" by blast+
  have "handle (NewScheme pb rs cfg) e ev (a_tr a, a_world a) \<noteq> None" if "a_inbox a = ev # rest \<and> env_ok e" for ev rest e
    using rs_contract.handle_total [OF s(1) env_ok_order] s(2) that by force
  moreover have "Decode_strategy rs (s_strategy t) \<noteq> None" if "map_of (sessions (a_tr a)) m = Some t" for m t
    using s(1) that Decode_total [OF assms(1)] by (auto simp: strategies_ok_def strategy_ok_def)
  ultimately show ?thesis by blast
qed

section \<open>A run\<close>

text \<open>
  A channel that opens a relay session for a peer's message of two chunks and starts to read a
  chunk of it.
\<close>

definition demo_pb :: rspb where
  "demo_pb = small_pb\<lparr>unmarshal_ChunkIdent := \<lambda>bs. Inr 0,
     unmarshal_Preamble := \<lambda>bs. Inr \<lparr>NumData = 1, NumParity = 1, Length = 3, Hashes = [[], []], Hash = []\<rparr>\<rparr>"

definition demo_scheme :: "(strategy, ChunkIdent, bitmap, Preamble) Scheme" where
  "demo_scheme = NewScheme demo_pb repetition_code DefaultConfig"

definition demo_world :: world where
  "demo_world = \<lparr>conn_id = \<lambda>_. [1], ctrlState = \<lambda>_. newCtrlOutState, wakeCh = \<lambda>_. False, outboxes = \<lambda>_. [], newOutbox = 0,
     ctxs = [ctx_Background], cancelled = [], finished = [], observed = []\<rparr>"

definition demo_env :: env where
  "demo_env = \<lparr>now = 0, ord_peers = \<lambda>ps. ps, ord_msgs = \<lambda>ms. ms, rnd = 7, read_err = \<lambda>_. EOF\<rparr>"

definition demo_open :: "strategy channelEvent" where
  "demo_open = channelSessionOpen [1] \<lparr>so_Channel = ''c'', so_ObjectId = ''m'', so_Preamble = [], so_InitialUpdate = []\<rparr>"

definition demo_chunk :: "strategy channelEvent" where
  "demo_chunk = channelChunkStream [1] \<lparr>ch_Channel = ''c'', ch_ObjectId = ''m'', ch_ChunkId = [], ch_DataLength = 2\<rparr> 5"

lemma demo_relay:
  "P_Unmarshal demo_scheme bs = Inr example_preamble" "NewRelay demo_scheme 7 m example_preamble = Inr example_new"
  by (simp_all add: demo_scheme_def NewScheme_def demo_pb_def Preamble_Unmarshal_def example_preamble_def example_new_def newRelayStrategy_def
      TotalChunks_def DefaultConfig_def NewBitmap_def divCeil_def numeral_2_eq_2)

lemma demo_chunk_ident:
  "CI_Unmarshal demo_scheme bs = Inr (ChunkIdent 0)" "\<not> Strategy_HaveChunk demo_scheme example_new (ChunkIdent 0)"
  "Strategy_DedupKey demo_scheme example_new (ChunkIdent 0) = Some [0, 0, 0, 0]"
  by (simp_all add: demo_scheme_def NewScheme_def demo_pb_def ChunkIdent_Unmarshal_def HaveChunk_def example_new_def Bitmap_Get_def DedupKey_def)

lemma demo_runs:
  "\<exists>a s. actor_runs demo_scheme a \<and> map_of (sessions (a_tr a)) ''m'' = Some s \<and> length (readers s) = 1 \<and> a_received a = {#5#} \<and>
    a_inbox a = [demo_open]"
proof -
  obtain tr0 w0 where t0: "(AttachChannel ''c'' 0 demo_world :: strategy Channel \<times> world) = (tr0, w0)"
    by (cases "AttachChannel ''c'' 0 demo_world :: strategy Channel \<times> world")
  have e: "env_ok demo_env" by (simp add: env_ok_def demo_env_def)
  let ?a = "\<lambda>tr w es r. \<lparr>a_tr = tr, a_world = w, a_inbox = es, a_received = r\<rparr> :: strategy actor"
  have p: "actor_runs demo_scheme (?a tr w [ev] (event_streams ev + r))" if "actor_runs demo_scheme (?a tr w [] r)" "ev = demo_open \<or> ev = demo_chunk" for tr w r ev
    using actor_runs.step [OF that(1) post [of _ demo_scheme ev]] that(2) by (auto simp: demo_open_def demo_chunk_def channelInboxCap_def)
  have h: "actor_runs demo_scheme (?a tr' w' [] r)" if "actor_runs demo_scheme (?a tr w [ev] r)" "handle demo_scheme demo_env ev (tr, w) = Some (tr', w')" for tr w ev r tr' w'
    using actor_runs.step [OF that(1) actor_step.handle [of _ ev "[]" demo_env]] e that(2) by simp
  have r0: "actor_runs demo_scheme (?a tr0 w0 [] {#})" by (rule start [OF t0]) (simp_all add: demo_world_def)
  obtain tr1 w1 s1 where h1: "handle demo_scheme demo_env demo_open (tr0, w0) = Some (tr1, w1)"
    "map_of (sessions tr1) ''m'' = Some s1" "s_strategy s1 = example_new" "stage s1 = stageConsuming" "readQueue s1 = []" "readSem s1 = 0" "readers s1 = []"
    "dedupGroups s1 = []"
    using t0 demo_relay
    by (auto simp: AttachChannel_def demo_world_def demo_open_def demo_env_def WithCancel_def handleSessionOpen_def createRelaySession_def
        newSession_def scheduleExpiry_def range_members_def set_sess_def Let_def)
  obtain tr2 w2 s2 where h2: "handle demo_scheme demo_env demo_chunk (tr1, w1) = Some (tr2, w2)" "map_of (sessions tr2) ''m'' = Some s2" "length (readers s2) = 1"
    using h1(2-) demo_chunk_ident
    by (auto simp: demo_chunk_def handleChunk_def drainReads.simps handleChunkStream_def pending_of_def maxChunkDataSize_def maxConcurrentReads_def
        dedup_ctx_def WithCancel_def set_sess_def alist_simps Let_def)
  have "actor_runs demo_scheme (?a tr2 w2 [] {#5#})"
    using h [OF p [OF h [OF p [OF r0, of demo_open] h1(1)], of demo_chunk] h2(1)] by (simp add: demo_open_def demo_chunk_def)
  from p [OF this, of demo_open] show ?thesis using h2 by (force simp: demo_open_def)
qed

theorem channel_streams_accounted_witness:
  "\<exists>a s. actor_runs demo_scheme a \<and> map_of (sessions (a_tr a)) ''m'' = Some s \<and> length (readers s) = 1 \<and>
    (\<forall>st. length (CancelRead_calls (a_world a) st) \<le> 2) \<and>
    {#5#} = ended (snd (shutdown demo_env (a_inbox a) (a_tr a, a_world a)))"
proof -
  obtain a s where a: "actor_runs demo_scheme a" "map_of (sessions (a_tr a)) ''m'' = Some s" "length (readers s) = 1" "a_received a = {#5#}"
    using demo_runs by blast
  have "env_ok demo_env" by (simp add: env_ok_def demo_env_def)
  then show ?thesis using channel_streams_accounted [OF a(1)] a by auto
qed

theorem read_queue_served_witness:
  "\<exists>a s. actor_runs demo_scheme a \<and> map_of (sessions (a_tr a)) ''m'' = Some s \<and> length (readers s) = 1 \<and> 1 \<le> readSem s \<and> readSem s \<le> 64"
proof -
  obtain a s where a: "actor_runs demo_scheme a" "map_of (sessions (a_tr a)) ''m'' = Some s" "length (readers s) = 1"
    using demo_runs by blast
  then show ?thesis using read_queue_served [OF a(1,2)] by (auto simp: maxConcurrentReads_def)
qed

theorem channel_well_formed_witness:
  "\<exists>a s. actor_runs demo_scheme a \<and> map_of (sessions (a_tr a)) ''m'' = Some s \<and> s_messageID s = ''m'' \<and> \<not> idle s \<and> length (a_inbox a) \<le> 1024"
proof -
  obtain a s where a: "actor_runs demo_scheme a" "map_of (sessions (a_tr a)) ''m'' = Some s" using demo_runs by blast
  then show ?thesis using channel_well_formed [OF a(1)] by (auto simp: channelInboxCap_def)
qed

lemma repetition_code_lawful: "rs_lawful repetition_code"
  by (auto simp: rs_lawful_def repetition_code_def split: if_splits list.splits option.splits)

theorem rs_channel_no_panic_witness:
  "\<exists>a s. actor_runs demo_scheme a \<and> map_of (sessions (a_tr a)) ''m'' = Some s \<and> Decode_strategy repetition_code (s_strategy s) \<noteq> None \<and>
    handle demo_scheme demo_env demo_open (a_tr a, a_world a) \<noteq> None"
proof -
  obtain a s where a: "actor_runs demo_scheme a" "map_of (sessions (a_tr a)) ''m'' = Some s" "a_inbox a = [demo_open]" using demo_runs by blast
  have "env_ok demo_env" by (simp add: env_ok_def demo_env_def)
  then show ?thesis
    using rs_channel_no_panic [OF repetition_code_lawful a(1) [unfolded demo_scheme_def], folded demo_scheme_def] a by blast
qed

end
