(* ===== verification/Spec2Isabelle.thy ===== *)
theory Spec2Isabelle
  imports Control ENR RSCoding BcastWire Queue CtrlDrain PeerProps ChannelProps
begin

text \<open>
  A verification development of ethp2p.
\<close>

end
